(* ===== verification/Prelude.thy ===== *)
theory Prelude
  imports Main
begin

text \<open>
  Shared vocabulary of the development: the exceptions the library raises
  (\<open>std::future_errc\<close> and the few others), the result type of an operation
  that may throw, addresses of heap objects, and the generic list lemmas the
  component theories use. Every component theory adds its own characteristic
  equations to one of the collections declared here.
\<close>

named_theorems either_simps "characteristic equations of the either model"
named_theorems fun_simps "characteristic equations of the function wrapper models"

section \<open>Errors\<close>

text \<open>The error codes of \<open>std::future_error\<close> that the library throws.\<close>

datatype errc =
    Broken_promise
  | Future_already_retrieved
  | Promise_already_satisfied
  | No_state

text \<open>
  What an \<open>exception_ptr\<close> of the program can hold: one of the library's own
  exceptions, or an exception of the user's code, known by a number.
\<close>

datatype exn =
    Future_error errc
  | Bad_function_call
  | Logic_error
  | User_exn nat

type_synonym addr = nat

section \<open>Lists as stores\<close>

lemma nth_list_update_if:
  "i < length xs \<Longrightarrow> xs[i := v] ! j = (if i = j then v else xs ! j)"
  by (simp add: nth_list_update)

lemma list_all_update:
  "list_all P xs \<Longrightarrow> P v \<Longrightarrow> list_all P (xs[i := v])"
  by (cases "i < length xs") (auto simp: list_all_length nth_list_update list_update_beyond)

lemma list_all_nth:
  "list_all P xs \<Longrightarrow> i < length xs \<Longrightarrow> P (xs ! i)"
  by (simp add: list_all_length)

text \<open>A sum over a list changes at the updated position only.\<close>

lemma sum_list_update_int:
  fixes f :: "'a \<Rightarrow> int"
  shows "i < length xs \<Longrightarrow>
    sum_list (map f (xs[i := v])) = sum_list (map f xs) - f (xs ! i) + f v"
  by (induction xs arbitrary: i) (auto split: nat.splits)

text \<open>So does a number of positions with a property.\<close>

lemma count_update:
  "i < length xs \<Longrightarrow>
    length (filter P (xs[i := v])) + (if P (xs ! i) then 1 else 0) = length (filter P xs) + (if P v then 1 else 0)"
proof (induction xs arbitrary: i)
  case (Cons x xs)
  then show ?case using Cons.IH [of "i - 1"] by (cases i) (simp_all split: if_splits)
qed simp

lemma count_pos: "0 < length (filter P xs) \<longleftrightarrow> (\<exists>i < length xs. P (xs ! i))"
  by (fastforce simp: filter_empty_conv in_set_conv_nth)

section \<open>Object lifetimes\<close>

text \<open>
  Code that constructs objects in raw storage and destroys them by hand logs every
  constructor and destructor call, with the index of the object's type, and every
  access to storage that holds no object. \<open>net k\<close> counts the objects of type \<open>k\<close>
  that an event brings to life.
\<close>

datatype 'u lifetime =
    Ctor nat 'u
  | Dtor nat 'u
  | Bad_access nat

fun net :: "nat \<Rightarrow> 'u lifetime \<Rightarrow> int" where
  "net k (Ctor i _) = (if i = k then 1 else 0)"
| "net k (Dtor i _) = (if i = k then -1 else 0)"
| "net k (Bad_access _) = 0"

fun good_access :: "'u lifetime \<Rightarrow> bool" where
  "good_access (Bad_access _) = False"
| "good_access _ = True"

definition net_sum :: "nat \<Rightarrow> 'u lifetime list \<Rightarrow> int" where
  "net_sum k l = sum_list (map (net k) l)"

lemma net_sum_simps [simp]:
  "net_sum k [] = 0" "net_sum k (x # l) = net k x + net_sum k l"
  "net_sum k (l @ l') = net_sum k l + net_sum k l'"
  by (simp_all add: net_sum_def)

section \<open>Transition systems\<close>

text \<open>
  The concurrent components are labelled transition systems: a step is one atomic
  action of one thread. \<open>run step s ls t\<close> is an execution from \<open>s\<close> to \<open>t\<close> with the
  labels \<open>ls\<close> in the order they happened.
\<close>

inductive run :: "('s \<Rightarrow> 'l \<Rightarrow> 's \<Rightarrow> bool) \<Rightarrow> 's \<Rightarrow> 'l list \<Rightarrow> 's \<Rightarrow> bool" for step where
  run_nil: "run step s [] s"
| run_snoc: "run step s ls t \<Longrightarrow> step t l u \<Longrightarrow> run step s (ls @ [l]) u"

lemma run_single: "step s l t \<Longrightarrow> run step s [l] t"
  using run_snoc [OF run_nil] by fastforce

lemma run_trans:
  "run step t ls' u \<Longrightarrow> run step s ls t \<Longrightarrow> run step s (ls @ ls') u"
proof (induction rule: run.induct)
  case (run_snoc s' ls' v l w)
  then have "run step s ((ls @ ls') @ [l]) w" by (intro run.run_snoc)
  then show ?case by simp
qed simp

lemma run_prepend: "step s l t \<Longrightarrow> run step t ls u \<Longrightarrow> run step s (l # ls) u"
  using run_trans [OF _ run_single] by fastforce

text \<open>
  An invariant of a transition system: it holds initially and every step keeps it.
  A client proves the two laws for its own steps and gets the property of every
  execution.
\<close>

locale invariant_system =
  fixes init :: "'s \<Rightarrow> bool"
    and step :: "'s \<Rightarrow> 'l \<Rightarrow> 's \<Rightarrow> bool"
    and inv :: "'s \<Rightarrow> bool"
  assumes init_inv: "init s \<Longrightarrow> inv s"
    and step_inv: "inv s \<Longrightarrow> step s l t \<Longrightarrow> inv t"
begin

lemma run_keeps: "run step s ls t \<Longrightarrow> inv s \<Longrightarrow> inv t"
  by (induction rule: run.induct) (auto intro: step_inv)

lemma run_inv: "init s \<Longrightarrow> run step s ls t \<Longrightarrow> inv t"
  by (rule run_keeps) (auto intro: init_inv)

end

text \<open>
  A simulation: in related states, a silent step of the detailed system leaves the
  abstract state as it is, and every other step is a step of the specification
  with the same label.
\<close>

locale simulation = invariant_system init step inv
  for init :: "'s \<Rightarrow> bool" and step :: "'s \<Rightarrow> 'l \<Rightarrow> 's \<Rightarrow> bool" and inv :: "'s \<Rightarrow> bool" +
  fixes sim :: "'s \<Rightarrow> 'a \<Rightarrow> bool"
    and spec :: "'a \<Rightarrow> 'l \<Rightarrow> 'a \<Rightarrow> bool"
    and silent :: "'l \<Rightarrow> bool"
  assumes silent_sim: "inv s \<Longrightarrow> step s l t \<Longrightarrow> silent l \<Longrightarrow> sim s a \<Longrightarrow> sim t a"
    and visible_sim: "inv s \<Longrightarrow> step s l t \<Longrightarrow> \<not> silent l \<Longrightarrow> sim s a \<Longrightarrow>
      \<exists>b. spec a l b \<and> sim t b"
begin

lemma run_simulates:
  "run step s ls t \<Longrightarrow> inv s \<Longrightarrow> sim s a \<Longrightarrow>
    \<exists>b. run spec a (filter (\<lambda>l. \<not> silent l) ls) b \<and> sim t b"
proof (induction rule: run.induct)
  case (run_snoc s ls t l u)
  then obtain b where b: "run spec a (filter (\<lambda>l. \<not> silent l) ls) b" "sim t b" by blast
  have "inv t" using run_snoc run_keeps by blast
  then show ?case
    using run_snoc(2) b silent_sim [of t l u b] visible_sim [of t l u b]
    by (cases "silent l") (auto intro: run.run_snoc)
qed (auto intro: run.run_nil)

end

end
