(* ===== verification/Either.thy ===== *)
theory Either
  imports Prelude
begin

text \<open>
  \<open>detail::either<monostate, T...>\<close> of \<open>bits/either.h\<close>: a tagged union in raw
  storage. The storage holds at most one live object; \<open>state_\<close> is the index of
  the alternative it was constructed as, 0 for the empty state. Objects are
  built by placement new and destroyed by hand, so the model keeps the log of
  constructor and destructor calls and of every access to storage that holds no
  object, and the theorems say that the two balance and that no access of the
  last kind happens.

  An \<open>either\<close> object lives in a list of such objects (its address is its
  index), so that an operation on two of them can be applied to one object
  twice (self assignment).
\<close>

section \<open>State and events\<close>

record 'u either =
  e_storage :: "'u option"
  e_state :: nat

definition empty_state :: nat where
  "empty_state = 0"

definition either_default :: "'u either" where
  "either_default = \<lparr>e_storage = None, e_state = empty_state\<rparr>"

definition empty :: "'u either \<Rightarrow> bool" where
  "empty e \<longleftrightarrow> e_state e = empty_state"

section \<open>Visitation\<close>

text \<open>
  A visitor is called with the index of the alternative and the object found in
  the storage; index 0 is the \<open>monostate\<close> overload. \<open>visit_backward\<close> tries the
  alternatives from the last one down to the empty state, as the source does.
\<close>

fun visit_backward :: "nat \<Rightarrow> 'u either \<Rightarrow> (nat \<Rightarrow> 'u option \<Rightarrow> 'r) \<Rightarrow> 'r" where
  "visit_backward 0 e f = f 0 None"
| "visit_backward (Suc i) e f =
     (if e_state e = Suc i then f (Suc i) (e_storage e) else visit_backward i e f)"

definition visit :: "nat \<Rightarrow> 'u either \<Rightarrow> (nat \<Rightarrow> 'u option \<Rightarrow> 'r) \<Rightarrow> 'r" where
  "visit n e f = visit_backward n e f"

text \<open>\<open>get\<close> asserts the state; \<open>None\<close> is a failed assertion or an access to a dead object.\<close>

definition get :: "nat \<Rightarrow> 'u either \<Rightarrow> 'u option" where
  "get i e = (if e_state e = i then e_storage e else None)"

section \<open>Operations\<close>

text \<open>The \<open>destroy\<close> visitor.\<close>

fun destroy :: "nat \<Rightarrow> 'u option \<Rightarrow> 'u lifetime list" where
  "destroy 0 _ = []"
| "destroy (Suc i) (Some u) = [Dtor (Suc i) u]"
| "destroy (Suc i) None = [Bad_access (Suc i)]"

definition clean :: "nat \<Rightarrow> 'u either \<Rightarrow> 'u either \<times> 'u lifetime list" where
  "clean n e = (\<lparr>e_storage = None, e_state = empty_state\<rparr>, visit n e destroy)"

text \<open>
  \<open>emplace\<close>: the constructor of the alternative may throw, in which case the
  exception leaves the object in the empty state \<open>clean\<close> put it in.
\<close>

definition emplace ::
  "nat \<Rightarrow> nat \<Rightarrow> exn + 'u \<Rightarrow> 'u either \<Rightarrow> exn option \<times> 'u either \<times> 'u lifetime list" where
  "emplace n i c e =
     (case clean n e of (e', l) \<Rightarrow>
       (case c of
          Inl x \<Rightarrow> (Some x, e', l)
        | Inr u \<Rightarrow> (None, \<lparr>e_storage = Some u, e_state = i\<rparr>, l @ [Ctor i u])))"

text \<open>
  \<open>move_from\<close> of the object at \<open>j\<close> into the object at \<open>i\<close>: for every alternative
  \<open>I + 1\<close> in turn, if the source is in that state, the alternative is emplaced
  with the moved object (\<open>mv u\<close> is what a move leaves behind in the source);
  then the source is cleaned. A source in a non-empty state with dead storage is
  an access to a dead object.
\<close>

fun move_scan ::
  "nat \<Rightarrow> ('u \<Rightarrow> 'u) \<Rightarrow> nat \<Rightarrow> nat \<Rightarrow> nat list \<Rightarrow> 'u either list
    \<Rightarrow> 'u either list \<times> 'u lifetime list" where
  "move_scan n mv j i [] es = (es, [])"
| "move_scan n mv j i (k # ks) es =
     (if e_state (es ! j) = k + 1 then
        (case e_storage (es ! j) of
           None \<Rightarrow> (case move_scan n mv j i ks es of (es', l) \<Rightarrow> (es', Bad_access (k + 1) # l))
         | Some u \<Rightarrow>
             (let es1 = es[j := (es ! j)\<lparr>e_storage := Some (mv u)\<rparr>]
              in case emplace n (k + 1) (Inr u) (es1 ! i) of (_, d, l1) \<Rightarrow>
                   (case move_scan n mv j i ks (es1[i := d]) of (es', l) \<Rightarrow> (es', l1 @ l))))
      else move_scan n mv j i ks es)"

definition move_from ::
  "nat \<Rightarrow> ('u \<Rightarrow> 'u) \<Rightarrow> nat \<Rightarrow> nat \<Rightarrow> 'u either list \<Rightarrow> 'u either list \<times> 'u lifetime list" where
  "move_from n mv j i es =
     (case move_scan n mv j i [0..<n] es of (es1, l1) \<Rightarrow>
        (case clean n (es1 ! j) of (s, l2) \<Rightarrow> (es1[j := s], l1 @ l2)))"

text \<open>Construction with an alternative, move construction and move assignment.\<close>

definition either_ctor :: "nat \<Rightarrow> nat \<Rightarrow> exn + 'u \<Rightarrow> exn option \<times> 'u either \<times> 'u lifetime list" where
  "either_ctor n i c = emplace n i c either_default"

definition move_ctor ::
  "nat \<Rightarrow> ('u \<Rightarrow> 'u) \<Rightarrow> nat \<Rightarrow> 'u either list \<Rightarrow> 'u either list \<times> 'u lifetime list" where
  "move_ctor n mv j es = move_from n mv j (length es) (es @ [either_default])"

definition move_assign ::
  "nat \<Rightarrow> ('u \<Rightarrow> 'u) \<Rightarrow> nat \<Rightarrow> nat \<Rightarrow> 'u either list \<Rightarrow> 'u either list \<times> 'u lifetime list" where
  "move_assign n mv j i es =
     (case clean n (es ! i) of (d, l1) \<Rightarrow>
        (case move_from n mv j i (es[i := d]) of (es', l2) \<Rightarrow> (es', l1 @ l2)))"

definition either_dtor :: "nat \<Rightarrow> 'u either \<Rightarrow> 'u lifetime list" where
  "either_dtor n e = snd (clean n e)"

text \<open>\<open>scope_either_cleaner\<close>: whatever the scope does, the target is cleaned when it is left.\<close>

definition scope_either_cleaner ::
  "nat \<Rightarrow> ('u either \<Rightarrow> 'r \<times> 'u either) \<Rightarrow> 'u either \<Rightarrow> 'r \<times> 'u either \<times> 'u lifetime list" where
  "scope_either_cleaner n body e = (case body e of (r, e') \<Rightarrow> (r, clean n e'))"

section \<open>Well-formed objects and single operations\<close>

definition wf_either :: "nat \<Rightarrow> 'u either \<Rightarrow> bool" where
  "wf_either n e \<longleftrightarrow> e_state e \<le> n \<and> (e_state e = 0 \<longleftrightarrow> e_storage e = None)"

lemma visit_eq:
  "e_state e \<le> n \<Longrightarrow>
    visit n e f = (if e_state e = 0 then f 0 None else f (e_state e) (e_storage e))"
  unfolding visit_def by (induction n) (auto simp: le_Suc_eq)

lemma wf_default [either_simps]: "wf_either n either_default"
  by (simp add: wf_either_def either_default_def empty_state_def)

lemma clean_eq [either_simps]:
  "wf_either n e \<Longrightarrow> clean n e =
    (either_default, case e_storage e of None \<Rightarrow> [] | Some u \<Rightarrow> [Dtor (e_state e) u])"
  by (cases "e_state e")
     (auto simp: clean_def either_default_def wf_either_def visit_eq split: option.splits)

lemma emplace_eq [either_simps]:
  "wf_either n e \<Longrightarrow> emplace n i c e =
    (case c of
       Inl x \<Rightarrow> (Some x, either_default, snd (clean n e))
     | Inr u \<Rightarrow> (None, \<lparr>e_storage = Some u, e_state = i\<rparr>, snd (clean n e) @ [Ctor i u]))"
  by (auto simp: emplace_def clean_eq split: sum.splits)

lemma wf_emplaced [either_simps]:
  "0 < i \<Longrightarrow> i \<le> n \<Longrightarrow> wf_either n \<lparr>e_storage = Some u, e_state = i\<rparr>"
  by (simp add: wf_either_def)

text \<open>The alternatives a scan passes over without a match leave everything as it is.\<close>

lemma move_scan_skip:
  "e_state (es ! j) \<notin> Suc ` set ks \<Longrightarrow> move_scan n mv j i ks es = (es, [])"
  by (induction ks) auto

lemma move_scan_hit:
  assumes "i \<noteq> j" and "i < length es" and "j < length es"
    and "e_storage (es ! j) = Some u" and "e_state (es ! j) = Suc k"
    and "k \<in> set ks" and "distinct ks" and "wf_either n (es ! i)" and "e_storage (es ! i) = None"
  shows "move_scan n mv j i ks es =
    (es[j := (es ! j)\<lparr>e_storage := Some (mv u)\<rparr>, i := \<lparr>e_storage = Some u, e_state = Suc k\<rparr>],
     [Ctor (Suc k) u])"
  using assms
proof (induction ks)
  case (Cons a ks)
  show ?case
  proof (cases "a = k")
    case True
    let ?es = "es[j := (es ! j)\<lparr>e_storage := Some (mv u)\<rparr>,
                  i := \<lparr>e_storage = Some u, e_state = Suc k\<rparr>]"
    have "e_state (?es ! j) = Suc k"
      using Cons.prems by (simp add: nth_list_update)
    then have "move_scan n mv j i ks ?es = (?es, [])"
      using Cons.prems True by (intro move_scan_skip) auto
    then show ?thesis
      using Cons.prems True by (simp add: emplace_eq clean_eq nth_list_update)
  next
    case False
    then show ?thesis using Cons by simp
  qed
qed simp

lemma move_from_eq:
  assumes "i \<noteq> j" "i < length es" "j < length es"
    and "wf_either n (es ! j)" "wf_either n (es ! i)" "e_storage (es ! i) = None"
  shows "move_from n mv j i es =
    (case e_storage (es ! j) of
       None \<Rightarrow> (es[j := either_default], [])
     | Some u \<Rightarrow> (es[j := either_default, i := es ! j],
                 [Ctor (e_state (es ! j)) u, Dtor (e_state (es ! j)) (mv u)]))"
proof (cases "e_storage (es ! j)")
  case None
  then have "e_state (es ! j) = 0"
    using assms(4) by (simp add: wf_either_def)
  then have "move_scan n mv j i [0..<n] es = (es, [])"
    by (intro move_scan_skip) auto
  then show ?thesis
    using assms None by (simp add: move_from_def clean_eq)
next
  case (Some u)
  then obtain k where k: "e_state (es ! j) = Suc k" "k < n"
    using assms(4) by (cases "e_state (es ! j)") (auto simp: wf_either_def)
  have eq: "es ! j = \<lparr>e_storage = Some u, e_state = Suc k\<rparr>"
    using Some k by (metis either.surjective old.unit.exhaust)
  have "move_scan n mv j i [0..<n] es =
    (es[j := (es ! j)\<lparr>e_storage := Some (mv u)\<rparr>, i := \<lparr>e_storage = Some u, e_state = Suc k\<rparr>],
     [Ctor (Suc k) u])"
    using assms Some k by (intro move_scan_hit) auto
  moreover have "clean n (\<lparr>e_storage = Some (mv u), e_state = Suc k\<rparr>)
    = (either_default, [Dtor (Suc k) (mv u)])"
    using k by (simp add: clean_eq wf_either_def)
  ultimately show ?thesis
    using assms(1-3) eq
    by (simp add: move_from_def nth_list_update list_update_swap [of j i])
qed

lemma move_from_self:
  assumes "i < length es" and "es ! i = either_default"
  shows "move_from n mv i i es = (es, [])"
proof -
  have "e_state (es ! i) = 0"
    using assms(2) by (simp add: either_default_def empty_state_def)
  then have "move_scan n mv i i [0..<n] es = (es, [])"
    by (intro move_scan_skip) auto
  moreover have "es[i := either_default] = es"
    using assms(2) list_update_id [of es i] by simp
  ultimately show ?thesis
    using assms by (simp add: move_from_def clean_eq wf_default) (simp add: either_default_def)
qed

text \<open>
  Move assignment, distinct and aliased operands: the target takes the source's
  alternative and the source becomes empty; assigning an object to itself empties it.
\<close>

lemma move_assign_eq:
  assumes "i \<noteq> j" "i < length es" "j < length es" "wf_either n (es ! j)" "wf_either n (es ! i)"
  shows "fst (move_assign n mv j i es) = es[j := either_default, i := es ! j]"
proof -
  let ?es = "es[i := either_default]"
  have m: "move_from n mv j i ?es =
    (case e_storage (?es ! j) of
       None \<Rightarrow> (?es[j := either_default], [])
     | Some u \<Rightarrow> (?es[j := either_default, i := ?es ! j],
                 [Ctor (e_state (?es ! j)) u, Dtor (e_state (?es ! j)) (mv u)]))"
    using assms by (intro move_from_eq) (simp_all add: either_simps, simp add: either_default_def)
  have d: "e_storage (es ! j) = None \<Longrightarrow> es ! j = either_default"
    using assms(4) by (auto simp: wf_either_def either_default_def empty_state_def)
  show ?thesis
    using assms m d
    by (auto simp: move_assign_def clean_eq list_update_swap [of i j] split: option.splits)
qed

lemma move_assign_self:
  assumes "i < length es" "wf_either n (es ! i)"
  shows "move_assign n mv i i es = (es[i := either_default], snd (clean n (es ! i)))"
  using assms move_from_self [of i "es[i := either_default]" n mv]
  by (simp add: move_assign_def clean_eq)

section \<open>Programs over either objects\<close>

text \<open>
  A program constructs objects and applies operations to them, in any order, and
  in the end destroys all of them. An operation that names an object that does
  not exist, or an alternative the type does not have, is not a program.
\<close>

datatype 'u eop =
    New
  | Emplace nat nat "exn + 'u"
  | Clean nat
  | Move_ctor nat
  | Move_assign nat nat

fun valid_ops :: "nat \<Rightarrow> nat \<Rightarrow> 'u eop list \<Rightarrow> bool" where
  "valid_ops n len [] = True"
| "valid_ops n len (New # ops) = valid_ops n (Suc len) ops"
| "valid_ops n len (Emplace i k c # ops) =
     (i < len \<and> 0 < k \<and> k \<le> n \<and> valid_ops n len ops)"
| "valid_ops n len (Clean i # ops) = (i < len \<and> valid_ops n len ops)"
| "valid_ops n len (Move_ctor j # ops) = (j < len \<and> valid_ops n (Suc len) ops)"
| "valid_ops n len (Move_assign j i # ops) = (i < len \<and> j < len \<and> valid_ops n len ops)"

fun either_step ::
  "nat \<Rightarrow> ('u \<Rightarrow> 'u) \<Rightarrow> 'u eop \<Rightarrow> 'u either list \<Rightarrow> 'u either list \<times> 'u lifetime list" where
  "either_step n mv New es = (es @ [either_default], [])"
| "either_step n mv (Emplace i k c) es =
     (case emplace n k c (es ! i) of (_, e, l) \<Rightarrow> (es[i := e], l))"
| "either_step n mv (Clean i) es = (case clean n (es ! i) of (e, l) \<Rightarrow> (es[i := e], l))"
| "either_step n mv (Move_ctor j) es = move_ctor n mv j es"
| "either_step n mv (Move_assign j i) es = move_assign n mv j i es"

fun either_run ::
  "nat \<Rightarrow> ('u \<Rightarrow> 'u) \<Rightarrow> 'u eop list \<Rightarrow> 'u either list \<Rightarrow> 'u either list \<times> 'u lifetime list" where
  "either_run n mv [] es = (es, [])"
| "either_run n mv (op # ops) es =
     (case either_step n mv op es of (es1, l1) \<Rightarrow>
        (case either_run n mv ops es1 of (es2, l2) \<Rightarrow> (es2, l1 @ l2)))"

definition either_program :: "nat \<Rightarrow> ('u \<Rightarrow> 'u) \<Rightarrow> 'u eop list \<Rightarrow> 'u lifetime list" where
  "either_program n mv ops =
     (case either_run n mv ops [] of (es, l) \<Rightarrow> l @ concat (map (either_dtor n) es))"

subsection \<open>Counting live objects\<close>

definition live :: "nat \<Rightarrow> 'u either \<Rightarrow> int" where
  "live k e = (if e_storage e \<noteq> None \<and> e_state e = k then 1 else 0)"

definition total :: "nat \<Rightarrow> 'u either list \<Rightarrow> int" where
  "total k es = sum_list (map (live k) es)"

lemma live_default [simp]: "live k either_default = 0"
  by (simp add: live_def either_default_def)

lemma live_Some [simp]:
  "live k \<lparr>e_storage = Some u, e_state = i\<rparr> = (if i = k then 1 else 0)"
  by (simp add: live_def)

lemma total_simps [simp]:
  "total k [] = 0" "total k (e # es) = live k e + total k es"
  "total k (es @ es') = total k es + total k es'"
  by (simp_all add: total_def)

lemma total_update [simp]:
  "i < length es \<Longrightarrow> total k (es[i := e]) = total k es - live k (es ! i) + live k e"
  by (simp add: total_def sum_list_update_int)

lemma clean_account:
  "wf_either n e \<Longrightarrow> net_sum k (snd (clean n e)) = - live k e"
  "wf_either n e \<Longrightarrow> list_all good_access (snd (clean n e))"
  by (auto simp: clean_eq live_def split: option.splits)

lemma move_from_account:
  assumes "i \<noteq> j" "i < length es" "j < length es"
    and "list_all (wf_either n) es" "es ! i = either_default"
    and "move_from n mv j i es = (es', l)"
  shows "list_all (wf_either n) es' \<and> length es' = length es \<and> list_all good_access l
    \<and> net_sum k l = total k es' - total k es"
proof -
  have w: "wf_either n (es ! j)" "wf_either n (es ! i)" "e_storage (es ! i) = None"
    using assms(2-5) by (auto simp: list_all_length) (simp add: either_default_def)
  show ?thesis
    using move_from_eq [OF assms(1-3) w, of mv] assms w
    by (auto simp: list_all_update either_simps live_def nth_list_update either_default_def
             split: option.splits)
qed

lemma move_ctor_account:
  assumes "j < length es" "list_all (wf_either n) es" "move_ctor n mv j es = (es', l)"
  shows "list_all (wf_either n) es' \<and> length es' = Suc (length es) \<and> list_all good_access l
    \<and> net_sum k l = total k es' - total k es"
  using assms move_from_account [of "length es" j "es @ [either_default]" n mv es' l k]
  by (auto simp: move_ctor_def either_simps)

lemma move_assign_account:
  assumes "i < length es" "j < length es" "list_all (wf_either n) es"
    and "move_assign n mv j i es = (es', l)"
  shows "list_all (wf_either n) es' \<and> length es' = length es \<and> list_all good_access l
    \<and> net_sum k l = total k es' - total k es"
proof (cases "i = j")
  case True
  have "wf_either n (es ! i)" using assms by (simp add: list_all_nth)
  then show ?thesis
    using assms True move_assign_self [of i es n mv] clean_account [of n "es ! i"]
    by (auto simp: list_all_update either_simps)
next
  case False
  let ?es = "es[i := either_default]"
  have wi: "wf_either n (es ! i)" using assms by (simp add: list_all_nth)
  obtain es1 l1 where m: "move_from n mv j i ?es = (es1, l1)" by fastforce
  have l: "l = snd (clean n (es ! i)) @ l1" "es' = es1"
    using assms(4) m wi by (auto simp: move_assign_def clean_eq)
  have "list_all (wf_either n) es1 \<and> length es1 = length ?es \<and> list_all good_access l1
    \<and> net_sum k l1 = total k es1 - total k ?es"
    using False assms m by (intro move_from_account [of i j ?es n mv]) (auto simp: list_all_update either_simps)
  then show ?thesis
    using l clean_account [OF wi] assms(1) by auto
qed

lemma emplace_account:
  assumes "wf_either n e" "0 < i" "i \<le> n" "emplace n i c e = (x, e', l)"
  shows "wf_either n e' \<and> list_all good_access l \<and> net_sum k l = live k e' - live k e"
  using assms clean_account [OF assms(1)]
  by (auto simp: emplace_eq either_simps split: sum.splits)

lemma either_step_account:
  assumes "valid_ops n (length es) (op # ops)" "list_all (wf_either n) es"
    and "either_step n mv op es = (es', l)"
  shows "list_all (wf_either n) es' \<and> valid_ops n (length es') ops \<and> list_all good_access l
    \<and> net_sum k l = total k es' - total k es"
proof (cases op)
  case (Emplace i m c)
  obtain x e l0 where "emplace n m c (es ! i) = (x, e, l0)" using prod_cases3 by blast
  with Emplace show ?thesis
    using assms emplace_account [of n "es ! i" m c x e l0 k] by (auto simp: list_all_update list_all_nth)
next
  case (Clean i)
  then show ?thesis
    using assms clean_account [of n "es ! i"] by (auto simp: list_all_update list_all_nth clean_eq either_simps)
next
  case (Move_ctor j)
  then show ?thesis
    using assms move_ctor_account [of j es n mv es' l k] by auto
next
  case (Move_assign j i)
  then show ?thesis
    using assms move_assign_account [of i es j n mv es' l k] by auto
qed (use assms in \<open>auto simp: either_simps\<close>)

lemma either_run_account:
  "valid_ops n (length es) ops \<Longrightarrow> list_all (wf_either n) es \<Longrightarrow> either_run n mv ops es = (es', l) \<Longrightarrow>
    list_all (wf_either n) es' \<and> list_all good_access l \<and> net_sum k l = total k es' - total k es"
proof (induction ops arbitrary: es l)
  case (Cons op ops)
  obtain es1 l1 where s: "either_step n mv op es = (es1, l1)" by fastforce
  obtain l2 where r: "either_run n mv ops es1 = (es', l2)" "l = l1 @ l2"
    using Cons.prems(3) s by (auto split: prod.splits)
  show ?case
    using either_step_account [OF Cons.prems(1,2) s, of k] Cons.IH [OF _ _ r(1)] r(2) by auto
qed simp

lemma dtors_account:
  "list_all (wf_either n) es \<Longrightarrow>
    list_all good_access (concat (map (either_dtor n) es))
    \<and> net_sum k (concat (map (either_dtor n) es)) = - total k es"
  by (induction es) (auto simp: either_dtor_def clean_account)

section \<open>Properties\<close>

text \<open>
  C15. Lifetimes balance: in every program over \<open>either\<close> objects (construction,
  throwing or succeeding \<open>emplace\<close>, \<open>clean\<close>, move construction, move assignment
  also of an object to itself, and the destructors at the end), for every
  alternative as many objects are destroyed as were constructed, and no
  operation destroys or reads an object that is not alive.
\<close>

theorem either_lifetimes_balance:
  assumes "valid_ops n 0 ops"
  shows "net_sum k (either_program n mv ops) = 0 \<and> list_all good_access (either_program n mv ops)"
proof -
  obtain es l where r: "either_run n mv ops [] = (es, l)" by fastforce
  show ?thesis
    using either_run_account [OF _ _ r, of k] dtors_account [of n es k] assms r
    by (auto simp: either_program_def)
qed

theorem either_lifetimes_balance_witness:
  "net_sum 1 (either_program 2 (\<lambda>_. 0)
     [New, Emplace 0 1 (Inr (7 :: nat)), Move_ctor 0, Move_assign 1 1, Emplace 0 2 (Inl Logic_error)]) = 0"
  using either_lifetimes_balance [of 2 "[New, Emplace 0 1 (Inr (7 :: nat)), Move_ctor 0, Move_assign 1 1,
    Emplace 0 2 (Inl Logic_error)]" 1 "\<lambda>_. 0"] by simp

text \<open>
  C18. Move assignment gives the target exactly the source's alternative and object
  and leaves the source empty; assigning an object to itself leaves it empty; no
  other object changes.
\<close>

theorem either_move_assign:
  assumes "list_all (wf_either n) es" "i < length es" "j < length es"
  shows "fst (move_assign n mv j i es) =
    (if i = j then es[i := either_default] else es[j := either_default, i := es ! j])"
  using assms move_assign_eq [of i j es n mv] move_assign_self [of i es n mv]
  by (auto simp: list_all_nth)

theorem either_move_assign_witness:
  "fst (move_assign 2 (\<lambda>_. 0) 0 1 [\<lparr>e_storage = Some (5 :: nat), e_state = 2\<rparr>, either_default]) =
    [either_default, \<lparr>e_storage = Some 5, e_state = 2\<rparr>]"
  using either_move_assign [of 2 "[\<lparr>e_storage = Some (5 :: nat), e_state = 2\<rparr>, either_default]" 1 0 "\<lambda>_. 0"]
  by (simp add: either_simps)

end
