(* ===== verification/Small_Function.thy ===== *)
theory Small_Function
  imports Prelude
begin

text \<open>
  \<open>detail::small_unique_function\<close> (\<open>bits/small_unique_function.h\<close>, \<open>.hpp\<close>) and
  \<open>unique_function\<close> (\<open>bits/unique_function.h\<close>, \<open>.hpp\<close>): move-only type erasure. A
  small wrapper stores the callable in its own buffer and a pointer to the table
  of operations of the callable's type; \<open>unique_function\<close> stores a callable that
  does not fit through a \<open>unique_ptr\<close>.

  Wrappers live in a list (an address is an index), so that the source and the
  target of an operation can be the same object.
\<close>

section \<open>Callables\<close>

text \<open>What the traits ask of a type: its identity, layout, and null comparison.\<close>

record ftype =
  f_id :: nat
  f_size :: nat
  f_align :: nat
  f_nothrow_move :: bool
  f_null_comparable :: bool

text \<open>
  The state of a callable object: an object of user code, or the closure of
  \<open>unique_function\<close> that owns a heap allocated one (\<open>None\<close> once it is moved from).
  \<open>c_null\<close> is what comparing the object with \<open>nullptr\<close> yields.
\<close>

datatype 'd body =
    Direct 'd
  | Boxed "'d option"

record 'd callable =
  c_type :: ftype
  c_null :: bool
  c_body :: "'d body"

definition small_buffer_size :: nat where
  "small_buffer_size = 5 * 8"

definition small_buffer_align :: nat where
  "small_buffer_align = 8"

definition is_storable :: "ftype \<Rightarrow> bool" where
  "is_storable ty \<longleftrightarrow>
     f_align ty \<le> small_buffer_align \<and> f_size ty \<le> small_buffer_size \<and> f_nothrow_move ty"

definition is_null :: "'d callable \<Rightarrow> bool" where
  "is_null f \<longleftrightarrow> (if f_null_comparable (c_type f) then c_null f else False)"

text \<open>
  Moving a callable leaves \<open>mv d\<close> in a user object and a null pointer in the
  closure. Calling one runs user code (\<open>user\<close>), which may change the object and
  either returns or throws; a closure with a null pointer must not be called.
\<close>

fun moved_from :: "('d \<Rightarrow> 'd) \<Rightarrow> 'd body \<Rightarrow> 'd body" where
  "moved_from mv (Direct d) = Direct (mv d)"
| "moved_from mv (Boxed _) = Boxed None"

datatype 'r outcome =
    Returns 'r
  | Throws exn
  | Undefined

fun call_body ::
  "('d \<Rightarrow> 'a \<Rightarrow> 'd \<times> (exn + 'r)) \<Rightarrow> 'd body \<Rightarrow> 'a \<Rightarrow> 'd body \<times> 'r outcome" where
  "call_body user (Direct d) a =
     (case user d a of (d', r) \<Rightarrow> (Direct d', case r of Inl e \<Rightarrow> Throws e | Inr x \<Rightarrow> Returns x))"
| "call_body user (Boxed (Some d)) a =
     (case user d a of (d', r) \<Rightarrow> (Boxed (Some d'), case r of Inl e \<Rightarrow> Throws e | Inr x \<Rightarrow> Returns x))"
| "call_body user (Boxed None) a = (Boxed None, Undefined)"

section \<open>The small wrapper\<close>

record 'd suf =
  buffer :: "'d callable option"
  vtbl :: "nat option"

definition suf_default :: "'d suf" where
  "suf_default = \<lparr>buffer = None, vtbl = None\<rparr>"

text \<open>The three entries of \<open>callable_vtbl\<close> for type \<open>k\<close>, applied to a buffer.\<close>

definition vtbl_destroy :: "nat \<Rightarrow> 'd callable option \<Rightarrow> 'd callable lifetime list" where
  "vtbl_destroy k b = (case b of None \<Rightarrow> [Bad_access k] | Some f \<Rightarrow> [Dtor k f])"

definition vtbl_move ::
  "('d \<Rightarrow> 'd) \<Rightarrow> nat \<Rightarrow> 'd callable option
    \<Rightarrow> 'd callable option \<times> 'd callable option \<times> 'd callable lifetime list" where
  "vtbl_move mv k src =
     (case src of
        None \<Rightarrow> (None, None, [Bad_access k])
      | Some f \<Rightarrow> (Some (f\<lparr>c_body := moved_from mv (c_body f)\<rparr>), Some f, [Ctor k f]))"

text \<open>Construction from a callable: a null one leaves the wrapper empty.\<close>

definition suf_ctor :: "'d callable \<Rightarrow> 'd suf \<times> 'd callable lifetime list" where
  "suf_ctor f =
     (if is_null f then (suf_default, [])
      else (\<lparr>buffer = Some f, vtbl = Some (f_id (c_type f))\<rparr>, [Ctor (f_id (c_type f)) f]))"

definition suf_dtor :: "'d suf \<Rightarrow> 'd callable lifetime list" where
  "suf_dtor w = (case vtbl w of None \<Rightarrow> [] | Some k \<Rightarrow> vtbl_destroy k (buffer w))"

text \<open>
  Moving the content of the wrapper at \<open>j\<close> into the one at \<open>i\<close>: the source keeps its
  \<open>vtbl_\<close> and a moved-from object.
\<close>

definition suf_take ::
  "('d \<Rightarrow> 'd) \<Rightarrow> nat \<Rightarrow> nat \<Rightarrow> 'd suf list \<Rightarrow> 'd suf list \<times> 'd callable lifetime list" where
  "suf_take mv j i ws =
     (case vtbl (ws ! j) of
        None \<Rightarrow> (ws[i := (ws ! i)\<lparr>vtbl := None\<rparr>], [])
      | Some k \<Rightarrow>
          (case vtbl_move mv k (buffer (ws ! j)) of (src, dst, l) \<Rightarrow>
             (let ws1 = ws[j := (ws ! j)\<lparr>buffer := src\<rparr>]
              in (ws1[i := \<lparr>buffer = dst, vtbl = Some k\<rparr>], l))))"

definition suf_move_ctor ::
  "('d \<Rightarrow> 'd) \<Rightarrow> nat \<Rightarrow> 'd suf list \<Rightarrow> 'd suf list \<times> 'd callable lifetime list" where
  "suf_move_ctor mv j ws = suf_take mv j (length ws) (ws @ [suf_default])"

definition suf_move_assign ::
  "('d \<Rightarrow> 'd) \<Rightarrow> nat \<Rightarrow> nat \<Rightarrow> 'd suf list \<Rightarrow> 'd suf list \<times> 'd callable lifetime list" where
  "suf_move_assign mv j i ws =
     (let l1 = suf_dtor (ws ! i); ws1 = ws[i := (ws ! i)\<lparr>buffer := None\<rparr>]
      in case suf_take mv j i ws1 of (ws2, l2) \<Rightarrow> (ws2, l1 @ l2))"

definition suf_bool :: "'d suf \<Rightarrow> bool" where
  "suf_bool w \<longleftrightarrow> vtbl w \<noteq> None"

text \<open>The call operator; an empty wrapper throws \<open>bad_function_call\<close>.\<close>

definition suf_call ::
  "('d \<Rightarrow> 'a \<Rightarrow> 'd \<times> (exn + 'r)) \<Rightarrow> 'd suf \<Rightarrow> 'a \<Rightarrow> 'd suf \<times> 'r outcome" where
  "suf_call user w a =
     (case vtbl w of
        None \<Rightarrow> (w, Throws Bad_function_call)
      | Some k \<Rightarrow>
          (case buffer w of
             None \<Rightarrow> (w, Undefined)
           | Some f \<Rightarrow>
               (case call_body user (c_body f) a of (b, r) \<Rightarrow>
                  (w\<lparr>buffer := Some (f\<lparr>c_body := b\<rparr>)\<rparr>, r))))"

section \<open>unique\_function\<close>

text \<open>
  The closure type of the second constructor: one \<open>unique_ptr\<close>, and never null. Its
  identity must not be that of a user type; \<open>closure_id\<close> is a parameter.
\<close>

definition closure_type :: "nat \<Rightarrow> ftype" where
  "closure_type cid =
     \<lparr>f_id = cid, f_size = 8, f_align = 8, f_nothrow_move = True, f_null_comparable = False\<rparr>"

text \<open>
  \<open>unique_function(F&&)\<close> dispatches on \<open>is_storable_t\<close>: a storable callable goes into
  the small wrapper, any other one, unless null, into a heap allocated box.
\<close>

definition uf_ctor :: "nat \<Rightarrow> ftype \<Rightarrow> bool \<Rightarrow> 'd \<Rightarrow> 'd suf \<times> 'd callable lifetime list" where
  "uf_ctor cid ty null d =
     (let f = \<lparr>c_type = ty, c_null = null, c_body = Direct d\<rparr>
      in if is_storable ty then suf_ctor f
         else if is_null f then (suf_default, [])
         else suf_ctor \<lparr>c_type = closure_type cid, c_null = False, c_body = Boxed (Some d)\<rparr>)"

definition uf_call ::
  "('d \<Rightarrow> 'a \<Rightarrow> 'd \<times> (exn + 'r)) \<Rightarrow> 'd suf \<Rightarrow> 'a \<Rightarrow> 'd suf \<times> 'r outcome" where
  "uf_call user w a = suf_call user w a"

text \<open>
  The other members forward to those of the member \<open>func_\<close>; the assignments are
  defaulted or pass the other wrapper's \<open>func_\<close> on.
\<close>

definition uf_default :: "'d suf" where
  "uf_default = suf_default"

definition uf_dtor :: "'d suf \<Rightarrow> 'd callable lifetime list" where
  "uf_dtor w = suf_dtor w"

definition uf_move_ctor ::
  "('d \<Rightarrow> 'd) \<Rightarrow> nat \<Rightarrow> 'd suf list \<Rightarrow> 'd suf list \<times> 'd callable lifetime list" where
  "uf_move_ctor mv j ws = suf_move_ctor mv j ws"

definition uf_move_assign ::
  "('d \<Rightarrow> 'd) \<Rightarrow> nat \<Rightarrow> nat \<Rightarrow> 'd suf list \<Rightarrow> 'd suf list \<times> 'd callable lifetime list" where
  "uf_move_assign mv j i ws = suf_move_assign mv j i ws"

definition uf_from_small ::
  "('d \<Rightarrow> 'd) \<Rightarrow> nat \<Rightarrow> 'd suf list \<Rightarrow> 'd suf list \<times> 'd callable lifetime list" where
  "uf_from_small mv j ws = suf_move_ctor mv j ws"

definition uf_assign_small ::
  "('d \<Rightarrow> 'd) \<Rightarrow> nat \<Rightarrow> nat \<Rightarrow> 'd suf list \<Rightarrow> 'd suf list \<times> 'd callable lifetime list" where
  "uf_assign_small mv j i ws = suf_move_assign mv j i ws"

definition uf_bool :: "'d suf \<Rightarrow> bool" where
  "uf_bool w \<longleftrightarrow> suf_bool w"

definition uf_equals_null :: "'d suf \<Rightarrow> bool" where
  "uf_equals_null w \<longleftrightarrow> \<not> suf_bool w"

section \<open>Lifetimes\<close>

definition wf_suf :: "'d suf \<Rightarrow> bool" where
  "wf_suf w \<longleftrightarrow> vtbl w = map_option (\<lambda>f. f_id (c_type f)) (buffer w)"

definition suf_live :: "nat \<Rightarrow> 'd suf \<Rightarrow> int" where
  "suf_live k w = (if vtbl w = Some k then 1 else 0)"

definition suf_total :: "nat \<Rightarrow> 'd suf list \<Rightarrow> int" where
  "suf_total k ws = sum_list (map (suf_live k) ws)"

lemma suf_total_simps [simp]:
  "suf_total k [] = 0" "suf_total k (w # ws) = suf_live k w + suf_total k ws"
  "suf_total k (ws @ ws') = suf_total k ws + suf_total k ws'"
  by (simp_all add: suf_total_def)

lemma suf_total_update [simp]:
  "i < length ws \<Longrightarrow> suf_total k (ws[i := w]) = suf_total k ws - suf_live k (ws ! i) + suf_live k w"
  by (simp add: suf_total_def sum_list_update_int)

lemma wf_suf_cases:
  assumes "wf_suf w"
  obtains "w = suf_default" | f where "w = \<lparr>buffer = Some f, vtbl = Some (f_id (c_type f))\<rparr>"
  using assms by (cases w; cases "buffer w") (auto simp: wf_suf_def suf_default_def)

lemma wf_suf_simps [simp]:
  "wf_suf suf_default" "wf_suf \<lparr>buffer = Some f, vtbl = Some k\<rparr> \<longleftrightarrow> k = f_id (c_type f)"
  by (auto simp: wf_suf_def suf_default_def)

lemma suf_dtor_account:
  "wf_suf w \<Longrightarrow> net_sum k (suf_dtor w) = - suf_live k w \<and> list_all good_access (suf_dtor w)"
  by (erule wf_suf_cases) (auto simp: suf_dtor_def vtbl_destroy_def suf_live_def suf_default_def)

lemma suf_take_eq:
  assumes "i \<noteq> j" "i < length ws" "j < length ws" "wf_suf (ws ! j)" "ws ! i = \<lparr>buffer = None, vtbl = v\<rparr>"
  shows "suf_take mv j i ws =
    (case buffer (ws ! j) of
       None \<Rightarrow> (ws[i := suf_default], [])
     | Some f \<Rightarrow> (ws[j := (ws ! j)\<lparr>buffer := Some (f\<lparr>c_body := moved_from mv (c_body f)\<rparr>)\<rparr>, i := ws ! j],
                 [Ctor (f_id (c_type f)) f]))"
  using assms(4)
proof (cases rule: wf_suf_cases)
  case (2 f)
  then show ?thesis
    using assms by (auto simp: suf_take_def vtbl_move_def suf_default_def)
qed (use assms in \<open>simp add: suf_take_def suf_default_def\<close>)

lemma suf_take_account:
  assumes "i \<noteq> j" "i < length ws" "j < length ws"
    and wf: "\<And>m. m < length ws \<Longrightarrow> m \<noteq> i \<Longrightarrow> wf_suf (ws ! m)" and v: "ws ! i = \<lparr>buffer = None, vtbl = v\<rparr>"
    and t: "suf_take mv j i ws = (ws', l)"
  shows "list_all wf_suf ws' \<and> length ws' = length ws \<and> list_all good_access l
    \<and> net_sum k l = suf_total k ws' - (suf_total k ws - suf_live k (ws ! i))"
proof -
  have wj: "wf_suf (ws ! j)" using wf assms(1,3) by simp
  have all: "list_all wf_suf (xs[i := w])"
    if "xs = ws \<or> (\<exists>u. xs = ws[j := u] \<and> wf_suf u)" "wf_suf w" for xs w
    using that assms(1-3) wf by (auto simp: list_all_length nth_list_update)
  from wj show ?thesis
  proof (cases rule: wf_suf_cases)
    case 1
    then have "ws' = ws[i := suf_default]" "l = []"
      using t suf_take_eq [OF assms(1-3) wj v, of mv] by (simp_all add: suf_default_def)
    then show ?thesis using all [of ws suf_default] assms(2) v by (simp add: suf_live_def suf_default_def wf_suf_def)
  next
    case (2 f)
    let ?src = "\<lparr>buffer = Some (f\<lparr>c_body := moved_from mv (c_body f)\<rparr>), vtbl = Some (f_id (c_type f))\<rparr>"
    have "ws' = ws[j := ?src, i := ws ! j]" "l = [Ctor (f_id (c_type f)) f]"
      using t suf_take_eq [OF assms(1-3) wj v, of mv] 2 by simp_all
    moreover have "list_all wf_suf (ws[j := ?src, i := ws ! j])"
      by (rule all) (use wj in \<open>auto intro!: exI [of _ ?src]\<close>)
    ultimately show ?thesis
      using assms(1-3) wj 2 by (auto simp: suf_live_def)
  qed
qed

lemma suf_move_ctor_account:
  assumes "j < length ws" "list_all wf_suf ws" "suf_move_ctor mv j ws = (ws', l)"
  shows "list_all wf_suf ws' \<and> length ws' = Suc (length ws) \<and> list_all good_access l
    \<and> net_sum k l = suf_total k ws' - suf_total k ws"
proof -
  have "wf_suf ((ws @ [suf_default]) ! m)" if "m < Suc (length ws)" "m \<noteq> length ws" for m
    using that assms(2) by (simp add: nth_append list_all_nth)
  then show ?thesis
    using assms suf_take_account [of "length ws" j "ws @ [suf_default]" None mv ws' l k]
    by (auto simp: suf_move_ctor_def suf_default_def)
qed

lemma suf_move_assign_account:
  assumes "i \<noteq> j" "i < length ws" "j < length ws" "list_all wf_suf ws"
    and "suf_move_assign mv j i ws = (ws', l)"
  shows "list_all wf_suf ws' \<and> length ws' = length ws \<and> list_all good_access l
    \<and> net_sum k l = suf_total k ws' - suf_total k ws"
proof -
  let ?ws = "ws[i := (ws ! i)\<lparr>buffer := None\<rparr>]"
  obtain l2 where t: "suf_take mv j i ?ws = (ws', l2)" and l: "l = suf_dtor (ws ! i) @ l2"
    using assms(5) by (auto simp: suf_move_assign_def Let_def split: prod.splits)
  have wi: "wf_suf (ws ! i)" using assms(2,4) by (simp add: list_all_nth)
  have e: "?ws ! i = \<lparr>buffer = None, vtbl = vtbl (ws ! i)\<rparr>"
    using assms(2) by (cases "ws ! i") simp
  have "list_all wf_suf ws' \<and> length ws' = length ?ws \<and> list_all good_access l2
    \<and> net_sum k l2 = suf_total k ws' - (suf_total k ?ws - suf_live k (?ws ! i))"
    using assms(1-4) suf_take_account [OF assms(1) _ _ _ e t, of k] by (simp add: nth_list_update list_all_nth)
  then show ?thesis using l suf_dtor_account [OF wi, of k] assms(2) by (auto simp: suf_live_def)
qed

section \<open>Programs over wrappers\<close>

text \<open>
  Which function a move from one class of wrapper to one of another class calls. The
  conversion of a \<open>unique_function\<close> to the small class is a reference to its \<open>func_\<close>.
\<close>

datatype wrapper_class =
    Small_class
  | Unique_class

fun move_construct ::
  "wrapper_class \<Rightarrow> wrapper_class \<Rightarrow> ('d \<Rightarrow> 'd) \<Rightarrow> nat \<Rightarrow> 'd suf list \<Rightarrow> 'd suf list \<times> 'd callable lifetime list" where
  "move_construct Small_class _ = suf_move_ctor"
| "move_construct Unique_class Unique_class = uf_move_ctor"
| "move_construct Unique_class Small_class = uf_from_small"

fun assign_move ::
  "wrapper_class \<Rightarrow> wrapper_class \<Rightarrow> ('d \<Rightarrow> 'd) \<Rightarrow> nat \<Rightarrow> nat \<Rightarrow> 'd suf list \<Rightarrow> 'd suf list \<times> 'd callable lifetime list" where
  "assign_move Small_class _ = suf_move_assign"
| "assign_move Unique_class Unique_class = uf_move_assign"
| "assign_move Unique_class Small_class = uf_assign_small"

lemma classes_agree [simp]:
  "move_construct t u = suf_move_ctor" "assign_move t u = suf_move_assign" "uf_dtor = suf_dtor" "uf_default = suf_default"
  by (cases t; cases u; simp add: uf_move_ctor_def uf_from_small_def uf_move_assign_def uf_assign_small_def
      uf_dtor_def uf_default_def fun_eq_iff)+

text \<open>
  The wrappers of a program are created empty, from a callable (directly or through
  \<open>unique_function\<close>), or by move construction; they are called, and assigned by move
  to one another, and all are destroyed in the end.
\<close>

datatype 'd suf_op =
    New_empty wrapper_class
  | New_small "'d callable"
  | New_unique ftype bool 'd
  | Move_construct wrapper_class wrapper_class nat
  | Assign wrapper_class wrapper_class nat nat
  | Call nat

fun suf_step ::
  "('d \<Rightarrow> 'd) \<Rightarrow> nat \<Rightarrow> ('d \<Rightarrow> 'd \<times> (exn + 'r)) \<Rightarrow> 'd suf_op \<Rightarrow> 'd suf list
    \<Rightarrow> 'd suf list \<times> 'd callable lifetime list" where
  "suf_step mv cid user (New_empty u) ws =
     (ws @ [case u of Small_class \<Rightarrow> suf_default | Unique_class \<Rightarrow> uf_default], [])"
| "suf_step mv cid user (New_small f) ws = (case suf_ctor f of (w, l) \<Rightarrow> (ws @ [w], l))"
| "suf_step mv cid user (New_unique ty n d) ws = (case uf_ctor cid ty n d of (w, l) \<Rightarrow> (ws @ [w], l))"
| "suf_step mv cid user (Move_construct t u j) ws = move_construct t u mv j ws"
| "suf_step mv cid user (Assign t u j i) ws = assign_move t u mv j i ws"
| "suf_step mv cid user (Call i) ws =
     (ws[i := fst (suf_call (\<lambda>d (_ :: unit). user d) (ws ! i) ())], [])"

fun suf_run ::
  "('d \<Rightarrow> 'd) \<Rightarrow> nat \<Rightarrow> ('d \<Rightarrow> 'd \<times> (exn + 'r)) \<Rightarrow> 'd suf_op list \<Rightarrow> 'd suf list
    \<Rightarrow> 'd suf list \<times> 'd callable lifetime list" where
  "suf_run mv cid user [] ws = (ws, [])"
| "suf_run mv cid user (x # xs) ws =
     (case suf_step mv cid user x ws of (ws1, l1) \<Rightarrow>
        (case suf_run mv cid user xs ws1 of (ws2, l2) \<Rightarrow> (ws2, l1 @ l2)))"

definition suf_program ::
  "('d \<Rightarrow> 'd) \<Rightarrow> nat \<Rightarrow> ('d \<Rightarrow> 'd \<times> (exn + 'r)) \<Rightarrow> 'd suf_op list \<Rightarrow> 'd callable lifetime list" where
  "suf_program mv cid user xs =
     (case suf_run mv cid user xs [] of (ws, l) \<Rightarrow> l @ concat (map suf_dtor ws))"

text \<open>Operations name existing wrappers, and no wrapper is assigned to itself.\<close>

fun suf_valid :: "nat \<Rightarrow> 'd suf_op list \<Rightarrow> bool" where
  "suf_valid len [] = True"
| "suf_valid len (Move_construct _ _ j # xs) = (j < len \<and> suf_valid (Suc len) xs)"
| "suf_valid len (Assign _ _ j i # xs) = (i < len \<and> j < len \<and> i \<noteq> j \<and> suf_valid len xs)"
| "suf_valid len (Call i # xs) = (i < len \<and> suf_valid len xs)"
| "suf_valid len (_ # xs) = suf_valid (Suc len) xs"

lemma suf_ctor_account:
  "suf_ctor f = (w, l) \<Longrightarrow> wf_suf w \<and> list_all good_access l \<and> net_sum k l = suf_live k w"
  by (auto simp: suf_ctor_def suf_live_def suf_default_def wf_suf_def split: if_splits)

lemma uf_ctor_account:
  "uf_ctor cid ty n d = (w, l) \<Longrightarrow> wf_suf w \<and> list_all good_access l \<and> net_sum k l = suf_live k w"
  by (auto simp: uf_ctor_def Let_def suf_ctor_account split: if_splits)
     (auto simp: suf_live_def suf_default_def)

lemma suf_call_frame:
  assumes "wf_suf w"
  shows "wf_suf (fst (suf_call user w a)) \<and> vtbl (fst (suf_call user w a)) = vtbl w"
  using assms by (auto simp: wf_suf_def suf_call_def split: option.splits prod.splits)

lemma suf_step_account:
  assumes v: "suf_valid (length ws) (x # xs)" and wf: "list_all wf_suf ws"
    and st: "suf_step mv cid user x ws = (ws', l)"
  shows "list_all wf_suf ws' \<and> suf_valid (length ws') xs \<and> list_all good_access l
    \<and> net_sum k l = suf_total k ws' - suf_total k ws"
proof (cases x)
  case (New_small f)
  obtain w l0 where "suf_ctor f = (w, l0)" by fastforce
  with New_small show ?thesis using assms suf_ctor_account [of f w l0 k] by auto
next
  case (New_unique ty n d)
  obtain w l0 where "uf_ctor cid ty n d = (w, l0)" by fastforce
  with New_unique show ?thesis using assms uf_ctor_account [of cid ty n d w l0 k] by auto
next
  case (Call i)
  then show ?thesis
    using assms suf_call_frame [of "ws ! i" "\<lambda>d _. user d" "()"]
    by (auto simp: list_all_update list_all_nth suf_live_def)
next
  case (Move_construct t u j)
  then show ?thesis using assms suf_move_ctor_account [of j ws mv ws' l k] by auto
next
  case (Assign t u j i)
  then show ?thesis using assms suf_move_assign_account [of i j ws mv ws' l k] by auto
qed (use assms in \<open>auto simp: suf_live_def suf_default_def wf_suf_def split: wrapper_class.splits\<close>)

lemma suf_run_account:
  "suf_valid (length ws) xs \<Longrightarrow> list_all wf_suf ws \<Longrightarrow> suf_run mv cid user xs ws = (ws', l) \<Longrightarrow>
    list_all wf_suf ws' \<and> list_all good_access l \<and> net_sum k l = suf_total k ws' - suf_total k ws"
proof (induction xs arbitrary: ws l)
  case (Cons x xs)
  obtain ws1 l1 where s: "suf_step mv cid user x ws = (ws1, l1)" by fastforce
  obtain l2 where r: "suf_run mv cid user xs ws1 = (ws', l2)" "l = l1 @ l2"
    using Cons.prems(3) s by (auto split: prod.splits)
  show ?case
    using suf_step_account [OF Cons.prems(1,2) s, of k] Cons.IH [OF _ _ r(1)] r(2) by auto
qed simp

lemma suf_dtors_account:
  "list_all wf_suf ws \<Longrightarrow>
    list_all good_access (concat (map suf_dtor ws)) \<and>
    net_sum k (concat (map suf_dtor ws)) = - suf_total k ws"
  by (induction ws) (auto simp: suf_dtor_account)

section \<open>Properties\<close>

text \<open>
  C19. In every program over function wrappers that does not assign a wrapper to
  itself, every callable put into a buffer is destroyed exactly once, and the code
  never runs an operation of the table on a buffer that holds no object.
\<close>

theorem wrapper_lifetimes_balance:
  assumes "suf_valid 0 xs"
  shows "net_sum k (suf_program mv cid user xs) = 0 \<and>
    list_all good_access (suf_program mv cid user xs)"
proof -
  obtain ws l where r: "suf_run mv cid user xs [] = (ws, l)" by fastforce
  show ?thesis
    using suf_run_account [OF _ _ r, of k] suf_dtors_account [of ws k] assms r
    by (auto simp: suf_program_def)
qed

theorem wrapper_lifetimes_balance_witness:
  "net_sum 3 (suf_program (\<lambda>_. 0) 9 (\<lambda>d. (d + 1, Inr d))
     [New_small \<lparr>c_type = \<lparr>f_id = 3, f_size = 8, f_align = 8, f_nothrow_move = True,
        f_null_comparable = False\<rparr>, c_null = False, c_body = Direct (1 :: nat)\<rparr>,
      Call 0, Move_construct Unique_class Small_class 0, New_empty Unique_class,
      Assign Unique_class Unique_class 1 2]) = 0"
  using wrapper_lifetimes_balance [of "[New_small \<lparr>c_type = \<lparr>f_id = 3, f_size = 8, f_align = 8,
      f_nothrow_move = True, f_null_comparable = False\<rparr>, c_null = False, c_body = Direct (1 :: nat)\<rparr>,
      Call 0, Move_construct Unique_class Small_class 0, New_empty Unique_class,
      Assign Unique_class Unique_class 1 2]" 3 "\<lambda>_. 0" 9 "\<lambda>d. (d + 1, Inr d)"]
  by simp

text \<open>
  C21. Move assignment has no guard against self assignment: assigning a non-empty
  wrapper to itself destroys its callable and then moves out of the dead buffer.
\<close>

theorem wrapper_self_assign_bad:
  assumes "wf_suf (ws ! i)" and "i < length ws" and "suf_bool (ws ! i)"
  shows "\<not> list_all good_access (snd (suf_move_assign mv i i ws))"
  using assms(1)
proof (cases rule: wf_suf_cases)
  case 1
  then show ?thesis using assms(3) by (simp add: suf_bool_def suf_default_def)
next
  case (2 f)
  then show ?thesis
    using assms(2) by (auto simp: suf_move_assign_def Let_def suf_take_def vtbl_move_def)
qed

definition sample_callable :: "nat callable" where
  "sample_callable =
     \<lparr>c_type = \<lparr>f_id = 3, f_size = 8, f_align = 8, f_nothrow_move = True, f_null_comparable = False\<rparr>,
      c_null = False, c_body = Direct 1\<rparr>"

theorem wrapper_self_assign_bad_witness:
  "\<not> list_all good_access (snd (suf_move_assign (\<lambda>_. 0) 0 0 [fst (suf_ctor sample_callable)]))"
  using wrapper_self_assign_bad [of "[fst (suf_ctor sample_callable)]" 0 "\<lambda>_. 0"]
  by (simp add: sample_callable_def suf_ctor_def is_null_def suf_bool_def)

text \<open>
  C20. Type erasure is transparent: a \<open>unique_function\<close> made from a callable, stored
  in the buffer or on the heap, and also after it was moved into a new wrapper,
  calls that callable and hands on its result or exception; made from a null one it
  throws \<open>bad_function_call\<close>, and only then it is empty, by each of the two checks. The
  moved-from wrapper still claims to hold a function.
\<close>

theorem unique_function_calls:
  assumes "uf_ctor cid ty null d = (w, l)" and "uf_move_ctor mv 0 [w] = (ws, l')"
  shows "snd (uf_call user w a) =
      (if null \<and> f_null_comparable ty then Throws Bad_function_call
       else case snd (user d a) of Inl e \<Rightarrow> Throws e | Inr x \<Rightarrow> Returns x)
    \<and> snd (uf_call user (ws ! 1) a) = snd (uf_call user w a)
    \<and> uf_bool w = (\<not> (null \<and> f_null_comparable ty)) \<and> uf_equals_null w = (\<not> uf_bool w)
    \<and> uf_bool (ws ! 0) = uf_bool w"
  using assms
  by (auto simp: uf_ctor_def uf_move_ctor_def uf_bool_def uf_equals_null_def uf_call_def suf_call_def suf_ctor_def suf_default_def is_null_def
        suf_move_ctor_def suf_take_def vtbl_move_def suf_bool_def closure_type_def Let_def
      split: if_splits prod.splits sum.splits)

theorem unique_function_calls_witness:
  "snd (uf_call (\<lambda>d a. (d, Inr (d + a)))
      (fst (uf_ctor 9 \<lparr>f_id = 3, f_size = 400, f_align = 8, f_nothrow_move = True, f_null_comparable = False\<rparr>
        False (40 :: nat))) 2) = Returns (42 :: nat)"
  using unique_function_calls [of 9 "\<lparr>f_id = 3, f_size = 400, f_align = 8, f_nothrow_move = True,
      f_null_comparable = False\<rparr>" False "40 :: nat" _ _ "\<lambda>_. 0" _ _ "\<lambda>d a. (d, Inr (d + a))" "2 :: nat"]
  by (simp add: prod_eq_iff)

end
