(* ===== verification/Once_Stack.thy ===== *)
theory Once_Stack
  imports Prelude
begin

text \<open>
  \<open>detail::once_consumable_stack\<close> of \<open>bits/once_consumable_stack.h\<close> and
  \<open>bits/once_consumable_stack.hpp\<close>: the lock-free stack of continuations, at the
  level of its atomic operations on \<open>head_\<close> and of its nodes in memory. Any number
  of threads push, consume and ask \<open>is_consumed\<close>, their atomic actions interleaved
  in any order; the allocator may hand out any address that is free, also one that
  was used before. Memory is sequentially consistent.

  The theory proves that nodes are owned by exactly one party, that the stack
  refines the atomic specification \<open>once_spec\<close>, that nothing is lost or
  delivered twice, and that a push is lock-free.
\<close>

section \<open>Memory and threads\<close>

text \<open>
  A value of \<open>head_\<close> or of a \<open>next\<close> field: null, \<open>consumed_marker()\<close> (the address
  of the stack object itself, which is never the address of a node), or a node.
\<close>

datatype ptr = Null | Marker | Ptr addr

record 'a node =
  n_val :: 'a
  n_next :: ptr

text \<open>
  Where a thread is. A push keeps the value it was called with (\<open>v\<close>) and the number
  of failed compare-exchange attempts (\<open>r\<close>); both are only observed, never read by
  the code. A consumer keeps the list head it owns, its iterator position and the
  values it has read so far.
\<close>

datatype 'a thread =
    Idle
  | P_start 'a
  | P_load 'a addr
  | P_cas 'a addr nat
  | P_fail 'a addr
  | P_true 'a nat
  | P_false 'a 'a
  | P_throw 'a
  | C_start
  | C_iter "'a list" ptr ptr "'a list"
  | C_free "'a list" ptr "'a list"
  | C_done "'a list" "'a list"
  | Q_start
  | Q_done bool
  | D_free ptr
  | D_done

record 'a ostack =
  head :: ptr
  mem :: "addr \<Rightarrow> 'a node option"
  threads :: "nat \<Rightarrow> 'a thread"
  destroyed :: bool

datatype 'a op_event =
    Tau
  | Push_true nat 'a
  | Push_false nat 'a
  | Consumed "'a list"
  | Is_consumed bool

definition consumed_marker :: ptr where
  "consumed_marker = Marker"

definition stack_init :: "'a ostack \<Rightarrow> bool" where
  "stack_init s \<longleftrightarrow> head s = Null \<and> mem s = (\<lambda>_. None) \<and> threads s = (\<lambda>_. Idle) \<and> \<not> destroyed s"

definition goto :: "nat \<Rightarrow> 'a thread \<Rightarrow> 'a ostack \<Rightarrow> 'a ostack" where
  "goto t p s = s\<lparr>threads := (threads s)(t := p)\<rparr>"

section \<open>Push\<close>

text \<open>
  \<open>allocate_list_node\<close>: the value is moved into a new node with a null \<open>next\<close>; when
  the allocation or the construction throws, no node remains.
\<close>

definition allocate_list_node :: "nat \<Rightarrow> addr option \<Rightarrow> 'a ostack \<Rightarrow> 'a ostack option" where
  "allocate_list_node t choice s =
     (case threads s t of
        P_start v \<Rightarrow>
          (case choice of
             None \<Rightarrow> Some (goto t (P_throw v) s)
           | Some a \<Rightarrow>
               if mem s a = None
               then Some (goto t (P_load v a) (s\<lparr>mem := (mem s)(a \<mapsto> \<lparr>n_val = v, n_next = Null\<rparr>)\<rparr>))
               else None)
      | _ \<Rightarrow> None)"

text \<open>The first load of \<open>head_\<close> in \<open>push\<close>: give up on the marker, else set \<open>node->next\<close>.\<close>

definition push_load :: "nat \<Rightarrow> 'a ostack \<Rightarrow> ('a op_event \<times> 'a ostack) option" where
  "push_load t s =
     (case threads s t of
        P_load v a \<Rightarrow>
          if head s = consumed_marker then Some (Push_false t v, goto t (P_fail v a) s)
          else (case mem s a of
                  None \<Rightarrow> None
                | Some nd \<Rightarrow>
                    Some (Tau, goto t (P_cas v a 0) (s\<lparr>mem := (mem s)(a \<mapsto> nd\<lparr>n_next := head s\<rparr>)\<rparr>)))
      | _ \<Rightarrow> None)"

text \<open>
  One \<open>compare_exchange_strong(node->next, node.get())\<close>: on success \<open>head_\<close> becomes the
  node; on failure the current \<open>head_\<close> is written to \<open>node->next\<close>, and the loop gives
  up if that is the marker, after resetting \<open>node->next\<close>.
\<close>

definition push_cas :: "nat \<Rightarrow> 'a ostack \<Rightarrow> ('a op_event \<times> 'a ostack) option" where
  "push_cas t s =
     (case threads s t of
        P_cas v a r \<Rightarrow>
          (case mem s a of
             None \<Rightarrow> None
           | Some nd \<Rightarrow>
               if head s = n_next nd then Some (Push_true t v, goto t (P_true v r) (s\<lparr>head := Ptr a\<rparr>))
               else if head s = consumed_marker
               then Some (Push_false t v,
                          goto t (P_fail v a) (s\<lparr>mem := (mem s)(a \<mapsto> nd\<lparr>n_next := Null\<rparr>)\<rparr>))
               else Some (Tau,
                          goto t (P_cas v a (Suc r)) (s\<lparr>mem := (mem s)(a \<mapsto> nd\<lparr>n_next := head s\<rparr>)\<rparr>)))
      | _ \<Rightarrow> None)"

text \<open>
  The outer \<open>push(val, alloc)\<close> after a failed \<open>push(node)\<close>: the value is moved back
  from the node and the node is freed.
\<close>

definition push_give_back :: "nat \<Rightarrow> 'a ostack \<Rightarrow> 'a ostack option" where
  "push_give_back t s =
     (case threads s t of
        P_fail v a \<Rightarrow>
          (case mem s a of
             None \<Rightarrow> None
           | Some nd \<Rightarrow> Some (goto t (P_false v (n_val nd)) (s\<lparr>mem := (mem s)(a := None)\<rparr>)))
      | _ \<Rightarrow> None)"

section \<open>Consume, iterate, free\<close>

definition is_consumed :: "nat \<Rightarrow> 'a ostack \<Rightarrow> ('a op_event \<times> 'a ostack) option" where
  "is_consumed t s =
     (case threads s t of
        Q_start \<Rightarrow>
          (let b = (head s = consumed_marker) in Some (Is_consumed b, goto t (Q_done b) s))
      | _ \<Rightarrow> None)"

text \<open>
  The values of the list a pointer starts, as they are in memory; only used to
  label the atomic exchange with what it takes (\<open>xs\<close> is checked, not computed).
\<close>

fun chain :: "(addr \<Rightarrow> 'a node option) \<Rightarrow> ptr \<Rightarrow> addr list \<Rightarrow> bool" where
  "chain m p [] = (p = Null)"
| "chain m p (a # as) =
     (p = Ptr a \<and> (case m a of None \<Rightarrow> False | Some nd \<Rightarrow> chain m (n_next nd) as))"

fun vals :: "(addr \<Rightarrow> 'a node option) \<Rightarrow> addr list \<Rightarrow> 'a list" where
  "vals m [] = []"
| "vals m (a # as) = (case m a of None \<Rightarrow> [] | Some nd \<Rightarrow> n_val nd # vals m as)"

definition consume :: "nat \<Rightarrow> addr list \<Rightarrow> 'a ostack \<Rightarrow> ('a op_event \<times> 'a ostack) option" where
  "consume t as s =
     (case threads s t of
        C_start \<Rightarrow>
          (if head s = consumed_marker
           then (if as = [] then Some (Consumed [], goto t (C_iter [] Null Null []) (s\<lparr>head := consumed_marker\<rparr>))
                 else None)
           else if chain (mem s) (head s) as
           then (let xs = vals (mem s) as
                 in Some (Consumed xs, goto t (C_iter xs (head s) (head s) []) (s\<lparr>head := consumed_marker\<rparr>)))
           else None)
      | _ \<Rightarrow> None)"

text \<open>
  One round of the range-based loop over the consumed list: stop at \<open>end()\<close> (a null
  node), else read the value and follow \<open>next\<close>.
\<close>

definition list_iterate :: "nat \<Rightarrow> 'a ostack \<Rightarrow> 'a ostack option" where
  "list_iterate t s =
     (case threads s t of
        C_iter xs p h acc \<Rightarrow>
          (case p of
             Null \<Rightarrow> Some (goto t (C_free xs h acc) s)
           | Marker \<Rightarrow> None
           | Ptr a \<Rightarrow>
               (case mem s a of
                  None \<Rightarrow> None
                | Some nd \<Rightarrow> Some (goto t (C_iter xs (n_next nd) h (acc @ [n_val nd])) s)))
      | _ \<Rightarrow> None)"

text \<open>
  \<open>forward_list_deleter\<close>: one round of its loop frees the current node after reading
  its \<open>next\<close>.
\<close>

definition delete_node :: "addr \<Rightarrow> 'a ostack \<Rightarrow> (ptr \<times> 'a ostack) option" where
  "delete_node a s =
     (case mem s a of
        None \<Rightarrow> None
      | Some nd \<Rightarrow> Some (n_next nd, s\<lparr>mem := (mem s)(a := None)\<rparr>))"

definition forward_list_deleter :: "nat \<Rightarrow> 'a ostack \<Rightarrow> 'a ostack option" where
  "forward_list_deleter t s =
     (case threads s t of
        C_free xs Null acc \<Rightarrow> Some (goto t (C_done xs acc) s)
      | C_free xs (Ptr a) acc \<Rightarrow>
          (case delete_node a s of None \<Rightarrow> None | Some (p, s') \<Rightarrow> Some (goto t (C_free xs p acc) s'))
      | D_free Null \<Rightarrow> Some (goto t D_done s)
      | D_free (Ptr a) \<Rightarrow>
          (case delete_node a s of None \<Rightarrow> None | Some (p, s') \<Rightarrow> Some (goto t (D_free p) s'))
      | _ \<Rightarrow> None)"

text \<open>
  The destructor of the stack: one load of \<open>head_\<close>, then the nodes of a stack that was
  not consumed are freed. As for any object, nobody else may be using it; threads
  that still own nodes (a consumed list, a node that was not pushed) do not.
\<close>

fun uses_stack :: "'a thread \<Rightarrow> bool" where
  "uses_stack (P_start _) = True"
| "uses_stack (P_load _ _) = True"
| "uses_stack (P_cas _ _ _) = True"
| "uses_stack C_start = True"
| "uses_stack Q_start = True"
| "uses_stack _ = False"

definition stack_dtor :: "nat \<Rightarrow> 'a ostack \<Rightarrow> 'a ostack" where
  "stack_dtor t s =
     goto t (if head s \<noteq> Null \<and> head s \<noteq> consumed_marker then D_free (head s) else D_done)
       (s\<lparr>destroyed := True\<rparr>)"

section \<open>Steps\<close>

text \<open>
  A thread that is not inside an operation may start one, as long as the object
  lives.
\<close>

fun returned :: "'a thread \<Rightarrow> bool" where
  "returned Idle = True"
| "returned (P_true _ _) = True"
| "returned (P_false _ _) = True"
| "returned (P_throw _) = True"
| "returned (C_done _ _) = True"
| "returned (Q_done _) = True"
| "returned D_done = True"
| "returned _ = False"

inductive ostep :: "'a ostack \<Rightarrow> 'a op_event \<Rightarrow> 'a ostack \<Rightarrow> bool" where
  call_push: "returned (threads s t) \<Longrightarrow> \<not> destroyed s \<Longrightarrow> ostep s Tau (goto t (P_start v) s)"
| call_consume: "returned (threads s t) \<Longrightarrow> \<not> destroyed s \<Longrightarrow> ostep s Tau (goto t C_start s)"
| call_is_consumed: "returned (threads s t) \<Longrightarrow> \<not> destroyed s \<Longrightarrow> ostep s Tau (goto t Q_start s)"
| call_dtor: "returned (threads s t) \<Longrightarrow> \<forall>u. \<not> uses_stack (threads s u) \<Longrightarrow> \<not> destroyed s \<Longrightarrow>
    ostep s Tau (stack_dtor t s)"
| step_alloc: "allocate_list_node t c s = Some s' \<Longrightarrow> ostep s Tau s'"
| step_load: "push_load t s = Some (e, s') \<Longrightarrow> ostep s e s'"
| step_cas: "push_cas t s = Some (e, s') \<Longrightarrow> ostep s e s'"
| step_give_back: "push_give_back t s = Some s' \<Longrightarrow> ostep s Tau s'"
| step_consume: "consume t as s = Some (e, s') \<Longrightarrow> ostep s e s'"
| step_is_consumed: "is_consumed t s = Some (e, s') \<Longrightarrow> ostep s e s'"
| step_iterate: "list_iterate t s = Some s' \<Longrightarrow> ostep s Tau s'"
| step_free: "forward_list_deleter t s = Some s' \<Longrightarrow> ostep s Tau s'"

section \<open>The atomic specification\<close>

text \<open>
  What the class comment promises: \<open>Some xs\<close> is an open stack with the values
  \<open>xs\<close>, last pushed first; \<open>None\<close> is the consumed state.
\<close>

inductive once_spec :: "'a list option \<Rightarrow> 'a op_event \<Rightarrow> 'a list option \<Rightarrow> bool" where
  spec_push: "once_spec (Some xs) (Push_true t v) (Some (v # xs))"
| spec_push_fail: "once_spec None (Push_false t v) None"
| spec_consume: "once_spec (Some xs) (Consumed xs) None"
| spec_consume_again: "once_spec None (Consumed []) None"
| spec_is_consumed: "once_spec st (Is_consumed (st = None)) st"

inductive_cases once_spec_pushE [elim!]: "once_spec st (Push_true t v) st'"
inductive_cases once_spec_failE [elim!]: "once_spec st (Push_false t v) st'"
inductive_cases once_spec_consumeE [elim!]: "once_spec st (Consumed xs) st'"
inductive_cases once_spec_queryE [elim!]: "once_spec st (Is_consumed b) st'"
inductive_cases once_spec_tauE [elim!]: "once_spec st Tau st'"

section \<open>Lists in memory\<close>

lemma chain_cong:
  "(\<And>x. x \<in> set as \<Longrightarrow> m x = m' x) \<Longrightarrow> chain m p as = chain m' p as"
proof (induction as arbitrary: p)
  case (Cons a as)
  then have "m a = m' a" by simp
  moreover have "chain m q as = chain m' q as" for q
    using Cons by simp
  ultimately show ?case by (simp split: option.split)
qed simp

lemma vals_cong: "(\<And>x. x \<in> set as \<Longrightarrow> m x = m' x) \<Longrightarrow> vals m as = vals m' as"
proof (induction as)
  case (Cons a as)
  then have "m a = m' a" and "vals m as = vals m' as" by simp_all
  then show ?case by (simp split: option.split)
qed simp

lemma chain_dom: "chain m p as \<Longrightarrow> set as \<subseteq> dom m"
  by (induction m p as rule: chain.induct) (auto split: option.splits)

lemma chain_start: "chain m p as \<Longrightarrow> p = (case as of [] \<Rightarrow> Null | a # _ \<Rightarrow> Ptr a)"
  by (cases as) auto

lemma chain_not_Marker [simp]: "\<not> chain m Marker as"
  by (cases as) auto

lemma chain_Null [simp]: "chain m Null as \<longleftrightarrow> as = []"
  by (cases as) auto

lemma chain_Ptr:
  "chain m (Ptr a) as \<longleftrightarrow> (\<exists>nd as'. as = a # as' \<and> m a = Some nd \<and> chain m (n_next nd) as')"
  by (cases as) (auto split: option.splits)

lemma vals_append:
  "set as \<subseteq> dom m \<Longrightarrow> vals m (as @ bs) = vals m as @ vals m bs"
  by (induction as) (auto split: option.splits)

section \<open>Ownership\<close>

text \<open>
  The owner of a node is the stack (\<open>None\<close>) or a thread. Every allocated node has
  exactly one owner, and each owner's nodes are as its control state needs them.
\<close>

definition own_ok :: "(addr \<Rightarrow> 'a node option) \<Rightarrow> (nat option \<Rightarrow> addr list) \<Rightarrow> bool" where
  "own_ok m ow \<longleftrightarrow>
     (\<forall>x. x \<in> dom m \<longleftrightarrow> (\<exists>i. x \<in> set (ow i))) \<and>
     (\<forall>i j x. x \<in> set (ow i) \<longrightarrow> x \<in> set (ow j) \<longrightarrow> i = j) \<and>
     (\<forall>i. distinct (ow i))"

fun thread_ok :: "(addr \<Rightarrow> 'a node option) \<Rightarrow> 'a thread \<Rightarrow> addr list \<Rightarrow> bool" where
  "thread_ok m (P_load v a) as = (as = [a] \<and> m a = Some \<lparr>n_val = v, n_next = Null\<rparr>)"
| "thread_ok m (P_cas v a r) as = (as = [a] \<and> (\<exists>nd. m a = Some nd \<and> n_val nd = v))"
| "thread_ok m (P_fail v a) as = (as = [a] \<and> (\<exists>nd. m a = Some nd \<and> n_val nd = v))"
| "thread_ok m (P_false v w) as = (as = [] \<and> w = v)"
| "thread_ok m (C_iter xs p h acc) as =
     (\<exists>as1 as2. as = as1 @ as2 \<and> chain m h as \<and> chain m p as2 \<and> acc = vals m as1 \<and> xs = vals m as)"
| "thread_ok m (C_free xs p acc) as = (chain m p as \<and> acc = xs)"
| "thread_ok m (C_done xs acc) as = (as = [] \<and> acc = xs)"
| "thread_ok m (D_free p) as = chain m p as"
| "thread_ok m _ as = (as = [])"

definition stack_ok :: "'a ostack \<Rightarrow> addr list \<Rightarrow> bool" where
  "stack_ok s as \<longleftrightarrow>
     (if destroyed s then as = [] \<and> (\<forall>t. \<not> uses_stack (threads s t))
      else if head s = Marker then as = [] else chain (mem s) (head s) as)"

text \<open>
  What a pushing thread last saw as \<open>head_\<close> is still a suffix of the stack, at
  least as long as the number of its failed attempts.
\<close>

definition cas_ok :: "'a ostack \<Rightarrow> addr list \<Rightarrow> bool" where
  "cas_ok s as \<longleftrightarrow>
     (\<forall>t v a r nd. threads s t = P_cas v a r \<longrightarrow> mem s a = Some nd \<longrightarrow> n_next nd \<noteq> Marker \<and>
        (\<not> destroyed s \<longrightarrow> head s \<noteq> Marker \<longrightarrow>
          (\<exists>pre zs. as = pre @ zs \<and> chain (mem s) (n_next nd) zs \<and> r \<le> length zs)))"

definition owns :: "'a ostack \<Rightarrow> (nat option \<Rightarrow> addr list) \<Rightarrow> bool" where
  "owns s ow \<longleftrightarrow> own_ok (mem s) ow \<and> stack_ok s (ow None) \<and> cas_ok s (ow None) \<and>
     (\<forall>t. thread_ok (mem s) (threads s t) (ow (Some t)))"

definition stack_inv :: "'a ostack \<Rightarrow> bool" where
  "stack_inv s \<longleftrightarrow> (\<exists>ow. owns s ow)"

lemma thread_ok_cong:
  assumes "\<And>x. x \<in> set as \<Longrightarrow> m x = m' x"
  shows "thread_ok m th as = thread_ok m' th as"
proof (cases th)
  case (C_iter xs p h acc)
  have "chain m q bs = chain m' q bs" if "set bs \<subseteq> set as" for q bs
    by (rule chain_cong) (use assms that in auto)
  moreover have "vals m bs = vals m' bs" if "set bs \<subseteq> set as" for bs
    by (rule vals_cong) (use assms that in auto)
  ultimately show ?thesis
    using C_iter by (auto 0 4 simp del: chain.simps)
next
  case (P_cas v a r)
  then show ?thesis using assms by (auto intro: sym) (metis+)
next
  case (P_fail v a)
  then show ?thesis using assms by (auto intro: sym) (metis+)
qed (use assms in \<open>auto simp: chain_cong [OF assms]\<close>)

section \<open>Every atomic action keeps the ownership\<close>

lemma goto_simps [simp]:
  "head (goto t p s) = head s" "mem (goto t p s) = mem s" "destroyed (goto t p s) = destroyed s"
  "threads (goto t p s) = (threads s)(t := p)"
  by (simp_all add: goto_def)

text \<open>An action of \<open>t\<close> that changes memory only at its own nodes: the other threads keep theirs.\<close>

lemma owns_thread_step:
  assumes "owns s ow" and "own_ok m' ow'"
    and "\<And>u. u \<noteq> t \<Longrightarrow> ow' (Some u) = ow (Some u)"
    and "\<And>u x. u \<noteq> t \<Longrightarrow> x \<in> set (ow (Some u)) \<Longrightarrow> m' x = mem s x"
    and "thread_ok m' th (ow' (Some t))"
    and "mem s' = m'" and "threads s' = (threads s)(t := th)"
    and "stack_ok s' (ow' None)" and "cas_ok s' (ow' None)"
  shows "owns s' ow'"
proof -
  have "thread_ok (mem s') (threads s' u) (ow' (Some u))" for u
  proof (cases "u = t")
    case False
    have "thread_ok (mem s) (threads s u) (ow (Some u))" using assms(1) by (simp add: owns_def)
    moreover have "thread_ok m' (threads s u) (ow (Some u)) = thread_ok (mem s) (threads s u) (ow (Some u))"
      using assms(4) [OF False] by (intro thread_ok_cong) auto
    ultimately show ?thesis using False assms by simp
  qed (use assms in simp)
  then show ?thesis using assms by (simp add: owns_def)
qed

lemma own_ok_disjoint:
  "own_ok m ow \<Longrightarrow> x \<in> set (ow i) \<Longrightarrow> i \<noteq> j \<Longrightarrow> x \<notin> set (ow j)"
  by (auto simp: own_ok_def)

lemma own_ok_upd:
  "own_ok m ow \<Longrightarrow> a \<in> set (ow i) \<Longrightarrow> own_ok (m(a \<mapsto> nd)) ow"
  unfolding own_ok_def by (auto simp: dom_def)

lemma own_ok_memD: "own_ok m ow \<Longrightarrow> x \<in> set (ow i) \<Longrightarrow> \<exists>nd. m x = Some nd"
  unfolding own_ok_def by blast

lemma own_ok_freshD: "own_ok m ow \<Longrightarrow> m x = None \<Longrightarrow> x \<notin> set (ow i)"
  using own_ok_memD by fastforce

lemma own_ok_alloc:
  assumes ok: "own_ok m ow" and a: "m a = None" and e: "ow i = []"
  shows "own_ok (m(a \<mapsto> nd)) (ow(i := [a]))"
proof -
  have "(\<exists>j. x \<in> set (ow j)) \<or> x = a \<longleftrightarrow> (\<exists>j. x \<in> set ((ow(i := [a])) j))" for x
    using e by (metis empty_iff empty_set fun_upd_apply list.set_intros(1) set_ConsD)
  then have "x \<in> dom (m(a \<mapsto> nd)) \<longleftrightarrow> (\<exists>j. x \<in> set ((ow(i := [a])) j))" for x
    using ok unfolding own_ok_def by (metis dom_fun_upd insert_iff option.simps(3))
  moreover have "a \<notin> set (ow j)" for j
    using own_ok_freshD [OF ok a] .
  then have "k = l" if "x \<in> set ((ow(i := [a])) k)" "x \<in> set ((ow(i := [a])) l)" for k l x
    using that ok unfolding own_ok_def by (auto split: if_splits)
  moreover have "distinct ((ow(i := [a])) k)" for k
    using ok unfolding own_ok_def by simp
  ultimately show ?thesis unfolding own_ok_def by blast
qed

lemma own_ok_free:
  assumes ok: "own_ok m ow" and i: "ow i = a # as"
  shows "own_ok (m(a := None)) (ow(i := as))"
proof -
  have dom: "x \<in> dom m \<longleftrightarrow> (\<exists>j. x \<in> set (ow j))" for x
    using ok by (simp add: own_ok_def)
  have a: "a \<notin> set as" "j \<noteq> i \<Longrightarrow> a \<notin> set (ow j)" for j
    using ok i unfolding own_ok_def by (metis distinct.simps(2)) (use ok i own_ok_disjoint in fastforce)
  have "x \<in> dom (m(a := None)) \<longleftrightarrow> (\<exists>j. x \<in> set ((ow(i := as)) j))" for x
  proof (cases "x = a")
    case False
    then have "(\<exists>j. x \<in> set (ow j)) \<longleftrightarrow> (\<exists>j. x \<in> set ((ow(i := as)) j))"
      using i by (metis fun_upd_apply list.set_intros(2) set_ConsD)
    then show ?thesis using dom [of x] False by simp
  qed (use a in auto)
  then show ?thesis
    using ok i unfolding own_ok_def by (metis distinct.simps(2) fun_upd_apply list.set_intros(2))
qed

lemma own_ok_move:
  assumes ok: "own_ok m ow" and "i \<noteq> j"
    and u: "set as' \<union> set bs' = set (ow i) \<union> set (ow j)"
    and d: "set as' \<inter> set bs' = {}" "distinct as'" "distinct bs'"
  shows "own_ok m (ow(i := as', j := bs'))"
proof -
  let ?ow = "ow(i := as', j := bs')"
  have "(\<exists>k. x \<in> set (?ow k)) \<longleftrightarrow> (\<exists>k. x \<in> set (ow k))" for x
    using u \<open>i \<noteq> j\<close> by (metis Un_iff fun_upd_apply)
  moreover have "k = l" if "x \<in> set (?ow k)" "x \<in> set (?ow l)" for k l x
  proof -
    have "k \<noteq> i \<Longrightarrow> k \<noteq> j \<Longrightarrow> l \<in> {i, j} \<Longrightarrow> False"
      using that own_ok_disjoint [OF ok, of x k] u \<open>i \<noteq> j\<close> by (auto split: if_splits)
    moreover have "l \<noteq> i \<Longrightarrow> l \<noteq> j \<Longrightarrow> k \<in> {i, j} \<Longrightarrow> False"
      using that own_ok_disjoint [OF ok, of x l] u \<open>i \<noteq> j\<close> by (auto split: if_splits)
    moreover have "k \<notin> {i, j} \<Longrightarrow> l \<notin> {i, j} \<Longrightarrow> k = l"
      using that ok unfolding own_ok_def by auto
    moreover have "k \<in> {i, j} \<Longrightarrow> l \<in> {i, j} \<Longrightarrow> k = l"
      using that d(1) \<open>i \<noteq> j\<close> by (auto split: if_splits)
    ultimately show ?thesis by blast
  qed
  moreover have "distinct (?ow k)" for k
    using ok d unfolding own_ok_def by simp
  ultimately show ?thesis
    using ok unfolding own_ok_def by blast
qed


text \<open>
  An action of thread \<open>t\<close> that touches only its own nodes and its own control state,
  with the state of a pushing thread (\<open>P_cas\<close>) justified by the current stack.
\<close>

definition seen_ok :: "'a ostack \<Rightarrow> addr list \<Rightarrow> ptr \<Rightarrow> nat \<Rightarrow> bool" where
  "seen_ok s as p r \<longleftrightarrow> p \<noteq> Marker \<and>
     (\<not> destroyed s \<longrightarrow> head s \<noteq> Marker \<longrightarrow>
       (\<exists>pre zs. as = pre @ zs \<and> chain (mem s) p zs \<and> r \<le> length zs))"

lemma cas_ok_seen:
  "cas_ok s as \<longleftrightarrow> (\<forall>t v a r nd. threads s t = P_cas v a r \<longrightarrow> mem s a = Some nd \<longrightarrow>
     seen_ok s as (n_next nd) r)"
  by (simp add: cas_ok_def seen_ok_def)

lemma seen_ok_frame:
  assumes "seen_ok s as p r" and "head s' = head s" and "destroyed s' = destroyed s"
    and "\<And>x. x \<in> set as \<Longrightarrow> mem s' x = mem s x"
  shows "seen_ok s' as p r"
proof -
  have "chain (mem s') p zs" if "chain (mem s) p zs" "as = pre @ zs" for pre zs
    using that assms(4) chain_cong [of zs "mem s'" "mem s" p] by auto
  then show ?thesis using assms(1-3) unfolding seen_ok_def by metis
qed

lemma stack_ok_frame:
  assumes "stack_ok s as" and "head s' = head s" and "destroyed s' = destroyed s"
    and "\<And>x. x \<in> set as \<Longrightarrow> mem s' x = mem s x"
    and "threads s' = (threads s)(t := th)" and "uses_stack th \<Longrightarrow> \<not> destroyed s"
  shows "stack_ok s' as"
  using assms chain_cong [of as "mem s'" "mem s" "head s"]
  by (auto simp: stack_ok_def split: if_splits)

lemma owns_local:
  assumes o: "owns s ow"
    and ok: "own_ok m' (ow(Some t := as'))"
    and m: "\<And>i x. i \<noteq> Some t \<Longrightarrow> x \<in> set (ow i) \<Longrightarrow> m' x = mem s x"
    and th: "thread_ok m' th as'" "uses_stack th \<Longrightarrow> \<not> destroyed s"
    and c: "\<And>v a r. th = P_cas v a r \<Longrightarrow> \<exists>nd. m' a = Some nd \<and> seen_ok s (ow None) (n_next nd) r"
  shows "owns (goto t th (s\<lparr>mem := m'\<rparr>)) (ow(Some t := as'))"
proof (rule owns_thread_step [OF o ok])
  let ?s = "goto t th (s\<lparr>mem := m'\<rparr>)"
  have st: "stack_ok s (ow None)" "cas_ok s (ow None)" using o by (simp_all add: owns_def)
  have mN: "m' x = mem s x" if "x \<in> set (ow None)" for x
    using m [of None x] that by simp
  have "stack_ok ?s (ow None)"
    by (rule stack_ok_frame [OF st(1), of _ t th]) (use mN th(2) in simp_all)
  then show "stack_ok ?s ((ow(Some t := as')) None)" by simp
  have frame: "seen_ok ?s (ow None) p r" if "seen_ok s (ow None) p r" for p r
    by (rule seen_ok_frame [OF that]) (use mN in simp_all)
  have "seen_ok ?s (ow None) (n_next nd) r"
    if u: "threads ?s u = P_cas v a r" "mem ?s a = Some nd" for u v a r nd
  proof (cases "u = t")
    case True
    then show ?thesis using u c [of v a r] frame by auto
  next
    case False
    then have "threads s u = P_cas v a r" using u by simp
    moreover from this have "ow (Some u) = [a]"
      using o unfolding owns_def by (metis thread_ok.simps(2))
    then have "m' a = mem s a" using m [of "Some u" a] False by simp
    ultimately show ?thesis
      using u st(2) frame unfolding cas_ok_seen by simp
  qed
  then show "cas_ok ?s ((ow(Some t := as')) None)" by (simp add: cas_ok_seen)
qed (use m th in auto)

lemma owns_thread: "owns s ow \<Longrightarrow> thread_ok (mem s) (threads s t) (ow (Some t))"
  by (simp add: owns_def)

text \<open>The same for an action that leaves memory and nodes alone.\<close>

lemma owns_goto:
  assumes o: "owns s ow" and "thread_ok (mem s) th (ow (Some t))"
    and "uses_stack th \<Longrightarrow> \<not> destroyed s" and "\<And>v a r. th \<noteq> P_cas v a r"
  shows "owns (goto t th s) ow"
proof -
  have "owns (goto t th (s\<lparr>mem := mem s\<rparr>)) (ow(Some t := ow (Some t)))"
    using assms by (intro owns_local) (auto simp: owns_def)
  then show ?thesis by simp
qed


lemma returned_owns: "thread_ok m th as \<Longrightarrow> returned th \<Longrightarrow> as = []"
  by (cases th) auto

lemma owns_call:
  assumes o: "owns s ow" and r: "returned (threads s t)" and "\<not> destroyed s"
    and th: "th \<in> {P_start v, C_start, Q_start}"
  shows "owns (goto t th s) ow"
proof -
  have "ow (Some t) = []" using returned_owns [OF owns_thread [OF o] r] .
  then show ?thesis using assms by (intro owns_goto) auto
qed

lemma uses_stack_alive: "owns s ow \<Longrightarrow> uses_stack (threads s t) \<Longrightarrow> \<not> destroyed s"
  unfolding owns_def stack_ok_def by meson

lemma owns_alloc:
  assumes o: "owns s ow" and st: "allocate_list_node t c s = Some s'"
  shows "stack_inv s'"
proof -
  obtain v where v: "threads s t = P_start v"
    using st by (auto simp: allocate_list_node_def split: thread.splits)
  then have e: "ow (Some t) = []" and al: "\<not> destroyed s"
    using owns_thread [OF o, of t] uses_stack_alive [OF o, of t] by simp_all
  show ?thesis
  proof (cases c)
    case None
    then show ?thesis
      using st v e owns_goto [OF o, of "P_throw v" t]
      by (auto simp: allocate_list_node_def stack_inv_def)
  next
    case (Some a)
    let ?m = "(mem s)(a \<mapsto> \<lparr>n_val = v, n_next = Null\<rparr>)"
    have a: "mem s a = None" and s': "s' = goto t (P_load v a) (s\<lparr>mem := ?m\<rparr>)"
      using st v Some by (auto simp: allocate_list_node_def split: if_splits)
    have ok: "own_ok (mem s) ow" using o by (simp add: owns_def)
    have "owns s' (ow(Some t := [a]))"
      unfolding s'
      by (rule owns_local [OF o own_ok_alloc [OF ok a e]])
         (use own_ok_freshD [OF ok a] al in auto)
    then show ?thesis by (auto simp: stack_inv_def)
  qed
qed

lemma owns_own_node:
  assumes o: "owns s ow" and e: "ow (Some t) = [a]" and th: "thread_ok ((mem s)(a \<mapsto> nd)) th [a]"
    and "uses_stack th \<Longrightarrow> \<not> destroyed s"
    and "\<And>v b r. th = P_cas v b r \<Longrightarrow> b = a \<and> seen_ok s (ow None) (n_next nd) r"
  shows "owns (goto t th (s\<lparr>mem := (mem s)(a \<mapsto> nd)\<rparr>)) ow"
proof -
  have ok: "own_ok (mem s) ow" using o by (simp add: owns_def)
  have d: "x \<noteq> a" if "i \<noteq> Some t" "x \<in> set (ow i)" for i x
    using own_ok_disjoint [OF ok, of x i "Some t"] that e by auto
  have ok': "own_ok ((mem s)(a \<mapsto> nd)) (ow(Some t := [a]))"
    using own_ok_upd [OF ok, of a "Some t" nd] e by (metis fun_upd_triv list.set_intros(1))
  have "owns (goto t th (s\<lparr>mem := (mem s)(a \<mapsto> nd)\<rparr>)) (ow(Some t := [a]))"
    by (rule owns_local [OF o ok']) (use assms d in auto)
  then show ?thesis using e by (metis fun_upd_triv)
qed

lemma owns_load:
  assumes o: "owns s ow" and st: "push_load t s = Some (e, s')"
  shows "stack_inv s'"
proof -
  obtain v a where v: "threads s t = P_load v a"
    using st by (auto simp: push_load_def split: thread.splits)
  let ?nd = "\<lparr>n_val = v, n_next = Null\<rparr>"
  have a: "ow (Some t) = [a]" "mem s a = Some ?nd" and al: "\<not> destroyed s"
    using owns_thread [OF o, of t] uses_stack_alive [OF o, of t] v by simp_all
  show ?thesis
  proof (cases "head s = Marker")
    case True
    then show ?thesis
      using st v a owns_goto [OF o, of "P_fail v a" t]
      by (auto simp: push_load_def consumed_marker_def stack_inv_def)
  next
    case False
    let ?nd' = "?nd\<lparr>n_next := head s\<rparr>"
    have s': "s' = goto t (P_cas v a 0) (s\<lparr>mem := (mem s)(a \<mapsto> ?nd')\<rparr>)"
      using st v a False by (auto simp: push_load_def consumed_marker_def)
    have "chain (mem s) (head s) (ow None)"
      using o al False by (simp add: owns_def stack_ok_def)
    then have "seen_ok s (ow None) (head s) 0"
      using False unfolding seen_ok_def by (metis append_Nil le0)
    then have "owns s' ow"
      unfolding s' using a al by (intro owns_own_node [OF o]) auto
    then show ?thesis by (auto simp: stack_inv_def)
  qed
qed

lemma chain_same_start: "chain m p as \<Longrightarrow> chain m q as \<Longrightarrow> p = q"
  by (auto dest!: chain_start)

lemma owns_cas_fail:
  assumes o: "owns s ow" and v: "threads s t = P_cas v a r" and nd: "mem s a = Some nd"
    and ne: "head s \<noteq> n_next nd" and st: "push_cas t s = Some (e, s')"
  shows "stack_inv s'"
proof -
  have a: "ow (Some t) = [a]" "n_val nd = v" and al: "\<not> destroyed s"
    using owns_thread [OF o, of t] uses_stack_alive [OF o, of t] v nd by auto
  show ?thesis
  proof (cases "head s = Marker")
    case True
    have "s' = goto t (P_fail v a) (s\<lparr>mem := (mem s)(a \<mapsto> nd\<lparr>n_next := Null\<rparr>)\<rparr>)"
      using st v nd ne True by (auto simp: push_cas_def consumed_marker_def)
    then have "owns s' ow"
      using a owns_own_node [OF o a(1), of "nd\<lparr>n_next := Null\<rparr>" "P_fail v a"] by simp
    then show ?thesis by (auto simp: stack_inv_def)
  next
    case False
    let ?nd' = "nd\<lparr>n_next := head s\<rparr>"
    have s': "s' = goto t (P_cas v a (Suc r)) (s\<lparr>mem := (mem s)(a \<mapsto> ?nd')\<rparr>)"
      using st v nd ne False by (auto simp: push_cas_def consumed_marker_def)
    have ch: "chain (mem s) (head s) (ow None)"
      using o al False by (simp add: owns_def stack_ok_def)
    obtain pre zs where zs: "ow None = pre @ zs" "chain (mem s) (n_next nd) zs" "r \<le> length zs"
      using o v nd al False unfolding owns_def cas_ok_def by metis
    then have "pre \<noteq> []" using chain_same_start ch ne by (metis append_Nil)
    then have "Suc r \<le> length (ow None)" using zs by (cases pre) auto
    then have "seen_ok s (ow None) (head s) (Suc r)"
      using ch False unfolding seen_ok_def by (metis append_Nil)
    then have "owns s' ow"
      unfolding s' using a al by (intro owns_own_node [OF o]) auto
    then show ?thesis by (auto simp: stack_inv_def)
  qed
qed

lemma owns_distinct: "owns s ow \<Longrightarrow> distinct (ow i)"
  by (simp add: owns_def own_ok_def)

lemma owns_cas_success:
  assumes o: "owns s ow" and v: "threads s t = P_cas v a r" and nd: "mem s a = Some nd"
    and eq: "head s = n_next nd"
  shows "stack_inv (goto t (P_true v r) (s\<lparr>head := Ptr a\<rparr>))"
proof -
  let ?s = "goto t (P_true v r) (s\<lparr>head := Ptr a\<rparr>)"
  let ?ow = "ow(None := a # ow None, Some t := [])"
  have a: "ow (Some t) = [a]" and al: "\<not> destroyed s" and ok: "own_ok (mem s) ow"
    using owns_thread [OF o, of t] uses_stack_alive [OF o, of t] v o by (auto simp: owns_def)
  have ck: "cas_ok s (ow None)" using o by (simp add: owns_def)
  have nm: "head s \<noteq> Marker" using ck v nd eq by (auto simp: cas_ok_def)
  have "a \<notin> set (ow None)" using own_ok_disjoint [OF ok, of a "Some t" None] a by simp
  then have ok': "own_ok (mem s) ?ow"
    using a owns_distinct [OF o, of None] \<open>a \<notin> set (ow None)\<close> by (intro own_ok_move [OF ok]) auto
  have ch: "chain (mem s) (n_next nd) (ow None)"
    using o al nm eq by (simp add: owns_def stack_ok_def)
  have "seen_ok ?s (a # ow None) p r'" if seen: "seen_ok s (ow None) p r'" for p r'
  proof -
    obtain pre zs where z: "p \<noteq> Marker" "ow None = pre @ zs" "chain (mem s) p zs" "r' \<le> length zs"
      using seen al nm by (auto simp: seen_ok_def)
    then have "a # ow None = (a # pre) @ zs" by simp
    with z show ?thesis unfolding seen_ok_def by (intro conjI impI exI [of _ "a # pre"] exI [of _ zs]) simp_all
  qed
  then have "cas_ok ?s (a # ow None)"
    using ck unfolding cas_ok_seen by auto
  then have "owns ?s ?ow"
    using a al ch nd by (intro owns_thread_step [OF o ok']) (auto simp: stack_ok_def)
  then show ?thesis by (auto simp: stack_inv_def)
qed

lemma owns_cas:
  assumes o: "owns s ow" and st: "push_cas t s = Some (e, s')"
  shows "stack_inv s'"
proof -
  obtain v a r nd where v: "threads s t = P_cas v a r" "mem s a = Some nd"
    using st by (auto simp: push_cas_def split: thread.splits option.splits)
  show ?thesis
  proof (cases "head s = n_next nd")
    case True
    then show ?thesis
      using owns_cas_success [OF o v True] st v by (simp add: push_cas_def)
  next
    case False
    then show ?thesis using owns_cas_fail [OF o v False st] by simp
  qed
qed

text \<open>Freeing the first node a thread owns.\<close>

lemma owns_free_node:
  assumes o: "owns s ow" and e: "ow (Some t) = a # as"
    and th: "thread_ok ((mem s)(a := None)) th as" "\<not> uses_stack th"
  shows "stack_inv (goto t th (s\<lparr>mem := (mem s)(a := None)\<rparr>))"
proof -
  have ok: "own_ok (mem s) ow" using o by (simp add: owns_def)
  have d: "x \<noteq> a" if "i \<noteq> Some t" "x \<in> set (ow i)" for i x
    using own_ok_disjoint [OF ok, of x i "Some t"] that e by auto
  have "owns (goto t th (s\<lparr>mem := (mem s)(a := None)\<rparr>)) (ow(Some t := as))"
    by (rule owns_local [OF o own_ok_free [OF ok e]]) (use th d in auto)
  then show ?thesis by (auto simp: stack_inv_def)
qed

lemma owns_give_back:
  assumes o: "owns s ow" and st: "push_give_back t s = Some s'"
  shows "stack_inv s'"
proof -
  obtain v a nd where v: "threads s t = P_fail v a" "mem s a = Some nd"
    and s': "s' = goto t (P_false v (n_val nd)) (s\<lparr>mem := (mem s)(a := None)\<rparr>)"
    using st by (auto simp: push_give_back_def split: thread.splits option.splits)
  then show ?thesis
    using owns_thread [OF o, of t] owns_free_node [OF o, of t a "[]"] by auto
qed

lemma chain_free_head:
  "chain m (Ptr a) as \<Longrightarrow> distinct as \<Longrightarrow> m a = Some nd \<Longrightarrow>
    \<exists>as'. as = a # as' \<and> chain (m(a := None)) (n_next nd) as'"
  using chain_cong [of _ m "m(a := None)" "n_next nd"] by (fastforce simp: chain_Ptr)

lemma owns_free:
  assumes o: "owns s ow" and st: "forward_list_deleter t s = Some s'"
  shows "stack_inv s'"
proof (cases "threads s t")
  case (C_free xs p acc)
  show ?thesis
  proof (cases p)
    case Null
    then show ?thesis
      using st C_free owns_thread [OF o, of t] owns_goto [OF o, of "C_done xs acc" t]
      by (auto simp: forward_list_deleter_def stack_inv_def)
  next
    case (Ptr a)
    obtain nd where nd: "mem s a = Some nd"
      and s': "s' = goto t (C_free xs (n_next nd) acc) (s\<lparr>mem := (mem s)(a := None)\<rparr>)"
      using st C_free Ptr by (auto simp: forward_list_deleter_def delete_node_def split: option.splits)
    obtain as' where "ow (Some t) = a # as'" "chain ((mem s)(a := None)) (n_next nd) as'"
      using chain_free_head [of "mem s" a "ow (Some t)" nd] owns_thread [OF o, of t]
        owns_distinct [OF o] nd C_free Ptr by auto
    then show ?thesis
      unfolding s' using owns_thread [OF o, of t] C_free by (intro owns_free_node [OF o]) auto
  qed (use st C_free in \<open>simp add: forward_list_deleter_def\<close>)
next
  case (D_free p)
  show ?thesis
  proof (cases p)
    case Null
    then show ?thesis
      using st D_free owns_thread [OF o, of t] owns_goto [OF o, of D_done t]
      by (auto simp: forward_list_deleter_def stack_inv_def)
  next
    case (Ptr a)
    obtain nd where nd: "mem s a = Some nd"
      and s': "s' = goto t (D_free (n_next nd)) (s\<lparr>mem := (mem s)(a := None)\<rparr>)"
      using st D_free Ptr by (auto simp: forward_list_deleter_def delete_node_def split: option.splits)
    obtain as' where "ow (Some t) = a # as'" "chain ((mem s)(a := None)) (n_next nd) as'"
      using chain_free_head [of "mem s" a "ow (Some t)" nd] owns_thread [OF o, of t]
        owns_distinct [OF o] nd D_free Ptr by auto
    then show ?thesis
      unfolding s' by (intro owns_free_node [OF o]) auto
  qed (use st D_free in \<open>simp add: forward_list_deleter_def\<close>)
qed (use st in \<open>simp_all add: forward_list_deleter_def\<close>)


lemma thread_ok_iterI:
  "as = as1 @ as2 \<Longrightarrow> chain m h as \<Longrightarrow> chain m p as2 \<Longrightarrow> acc = vals m as1 \<Longrightarrow> xs = vals m as \<Longrightarrow>
    thread_ok m (C_iter xs p h acc) as"
  by auto

lemma chain_unique: "chain m p as \<Longrightarrow> chain m p bs \<Longrightarrow> as = bs"
proof (induction m p as arbitrary: bs rule: chain.induct)
  case (2 m p a as)
  then show ?case by (cases bs) (auto split: option.splits)
qed auto

lemma owns_iterate:
  assumes o: "owns s ow" and st: "list_iterate t s = Some s'"
  shows "stack_inv s'"
proof -
  obtain xs p h acc where v: "threads s t = C_iter xs p h acc"
    using st by (auto simp: list_iterate_def split: thread.splits)
  obtain as1 as2 where as: "ow (Some t) = as1 @ as2" "chain (mem s) h (as1 @ as2)"
    "chain (mem s) p as2" "acc = vals (mem s) as1" "xs = vals (mem s) (as1 @ as2)"
    using owns_thread [OF o, of t] v by auto
  show ?thesis
  proof (cases p)
    case Null
    then have "owns (goto t (C_free xs h acc) s) ow"
      using as by (intro owns_goto [OF o]) auto
    then show ?thesis
      using st v Null by (auto simp: list_iterate_def stack_inv_def)
  next
    case (Ptr a)
    obtain nd where nd: "mem s a = Some nd"
      and s': "s' = goto t (C_iter xs (n_next nd) h (acc @ [n_val nd])) s"
      using st v Ptr by (auto simp: list_iterate_def split: option.splits)
    obtain as2' where as2: "as2 = a # as2'" "chain (mem s) (n_next nd) as2'"
      using as(3) Ptr nd by (auto simp: chain_Ptr)
    have "vals (mem s) (as1 @ [a]) = acc @ [n_val nd]"
      using vals_append [of as1 "mem s" "[a]"] chain_dom [OF as(2)] as(4) nd by simp
    then have "thread_ok (mem s) (C_iter xs (n_next nd) h (acc @ [n_val nd])) (ow (Some t))"
      using as as2 by (intro thread_ok_iterI [of _ "as1 @ [a]" as2']) auto
    then have "owns s' ow" unfolding s' by (intro owns_goto [OF o]) auto
    then show ?thesis by (auto simp: stack_inv_def)
  qed (use st v in \<open>simp add: list_iterate_def\<close>)
qed

text \<open>The stack's nodes pass to the thread that consumed it.\<close>

lemma owns_take:
  assumes o: "owns s ow" and e: "ow (Some t) = []"
    and th: "thread_ok (mem s) th (ow None)" "\<not> uses_stack th" "\<And>v a r. th \<noteq> P_cas v a r"
    and s': "mem s' = mem s" "threads s' = (threads s)(t := th)"
    and gone: "destroyed s' \<and> (\<forall>u. \<not> uses_stack (threads s u)) \<or> \<not> destroyed s' \<and> head s' = Marker"
  shows "owns s' (ow(None := [], Some t := ow None))"
proof -
  have ok: "own_ok (mem s) ow" and ck: "cas_ok s (ow None)" using o by (simp_all add: owns_def)
  have ok': "own_ok (mem s) (ow(None := [], Some t := ow None))"
    using e owns_distinct [OF o, of None] by (intro own_ok_move [OF ok]) auto
  have "cas_ok s' []"
    using ck s' th(3) gone unfolding cas_ok_def by (auto split: if_splits)
  moreover have "stack_ok s' []"
    using gone s' th(2) by (auto simp: stack_ok_def)
  ultimately show ?thesis
    using th(1) s' by (intro owns_thread_step [OF o ok']) auto
qed

lemma owns_consume:
  assumes o: "owns s ow" and st: "consume t as s = Some (e, s')"
  shows "stack_inv s'"
proof -
  have v: "threads s t = C_start" using st by (auto simp: consume_def split: thread.splits)
  have e: "ow (Some t) = []" and al: "\<not> destroyed s"
    using owns_thread [OF o, of t] uses_stack_alive [OF o, of t] v by simp_all
  show ?thesis
  proof (cases "head s = Marker")
    case True
    then have s': "s' = goto t (C_iter [] Null Null []) (s\<lparr>head := Marker\<rparr>)"
      using st v by (auto simp: consume_def consumed_marker_def split: if_splits)
    have "ow None = []" using o al True by (simp add: owns_def stack_ok_def)
    then have "owns s' (ow(None := [], Some t := ow None))"
      using al e unfolding s' by (intro owns_take [OF o e, of "C_iter [] Null Null []"]) auto
    then show ?thesis by (auto simp: stack_inv_def)
  next
    case False
    let ?th = "C_iter (vals (mem s) as) (head s) (head s) []"
    have s': "s' = goto t ?th (s\<lparr>head := Marker\<rparr>)" and ch: "chain (mem s) (head s) as"
      using st v False by (auto simp: consume_def consumed_marker_def Let_def split: if_splits)
    have "chain (mem s) (head s) (ow None)"
      using o al False by (simp add: owns_def stack_ok_def)
    then have as: "as = ow None" using chain_unique ch by blast
    have "owns s' (ow(None := [], Some t := ow None))"
      unfolding s' using al ch as
      by (intro owns_take [OF o e, of ?th]) (auto intro!: thread_ok_iterI [of _ "[]" as] simp del: thread_ok.simps)
    then show ?thesis by (auto simp: stack_inv_def)
  qed
qed

lemma owns_dtor:
  assumes o: "owns s ow" and r: "returned (threads s t)"
    and u: "\<forall>u. \<not> uses_stack (threads s u)" and al: "\<not> destroyed s"
  shows "stack_inv (stack_dtor t s)"
proof -
  let ?th = "if head s \<noteq> Null \<and> head s \<noteq> consumed_marker then D_free (head s) else D_done"
  have e: "ow (Some t) = []" using returned_owns [OF owns_thread [OF o] r] .
  have "stack_ok s (ow None)" using o by (simp add: owns_def)
  then have "thread_ok (mem s) ?th (ow None)"
    using al by (auto simp: stack_ok_def consumed_marker_def split: if_splits)
  then have "owns (stack_dtor t s) (ow(None := [], Some t := ow None))"
    using u by (intro owns_take [OF o e, of ?th]) (auto simp: stack_dtor_def)
  then show ?thesis by (auto simp: stack_inv_def)
qed

section \<open>The interfaces, discharged\<close>

lemma stack_init_inv: "stack_init s \<Longrightarrow> stack_inv s"
proof -
  assume "stack_init s"
  then have "owns s (\<lambda>_. [])"
    by (simp add: stack_init_def owns_def own_ok_def stack_ok_def cas_ok_def)
  then show ?thesis by (auto simp: stack_inv_def)
qed

lemma ostep_inv: "stack_inv s \<Longrightarrow> ostep s e s' \<Longrightarrow> stack_inv s'"
proof -
  assume "stack_inv s" and st: "ostep s e s'"
  then obtain ow where o: "owns s ow" by (auto simp: stack_inv_def)
  note calls = owns_call [OF o]
  show ?thesis
    using st
  proof cases
    case (step_is_consumed t)
    have "uses_stack (threads s t)" "ow (Some t) = []"
      using step_is_consumed owns_thread [OF o, of t]
      by (auto simp: is_consumed_def split: thread.splits)
    then show ?thesis
      using step_is_consumed owns_goto [OF o, of "Q_done b" t for b]
      by (auto simp: is_consumed_def stack_inv_def Let_def split: thread.splits)
  qed (use calls owns_alloc [OF o] owns_load [OF o] owns_cas [OF o] owns_give_back [OF o]
        owns_consume [OF o] owns_iterate [OF o] owns_free [OF o] owns_dtor [OF o]
       in \<open>auto simp: stack_inv_def\<close>)
qed


section \<open>Refinement of the atomic specification\<close>

definition silent :: "'a op_event \<Rightarrow> bool" where
  "silent e \<longleftrightarrow> e = Tau"

text \<open>The abstract value of a stack that has not been destroyed.\<close>

definition stack_sim :: "'a ostack \<Rightarrow> 'a list option \<Rightarrow> bool" where
  "stack_sim s st \<longleftrightarrow> destroyed s \<or>
     (if head s = Marker then st = None
      else (\<exists>as. chain (mem s) (head s) as \<and> st = Some (vals (mem s) as)))"

lemma stack_simI:
  "chain (mem s) (head s) as \<Longrightarrow> head s \<noteq> Marker \<Longrightarrow> vals (mem s) as = xs \<Longrightarrow> stack_sim s (Some xs)"
  by (auto simp: stack_sim_def)

lemma owned_chain:
  "owns s ow \<Longrightarrow> \<not> destroyed s \<Longrightarrow> head s \<noteq> Marker \<Longrightarrow>
    chain (mem s) (head s) as \<longleftrightarrow> as = ow None"
  unfolding owns_def stack_ok_def using chain_unique [of "mem s" "head s"] by auto

lemma stack_sim_owned:
  "owns s ow \<Longrightarrow> stack_sim s st \<longleftrightarrow>
    destroyed s \<or> (if head s = Marker then st = None else st = Some (vals (mem s) (ow None)))"
  by (auto simp: stack_sim_def owned_chain)

lemma sim_frame:
  assumes o: "owns s ow" and "destroyed s' \<or> (head s' = head s \<and> destroyed s' = destroyed s \<and>
      (\<forall>x \<in> set (ow None). mem s' x = mem s x))"
    and "stack_sim s st"
  shows "stack_sim s' st"
proof (cases "destroyed s' \<or> head s = Marker")
  case False
  then have f: "head s' = head s" "\<not> destroyed s" "\<forall>x \<in> set (ow None). mem s' x = mem s x"
    using assms(2) by auto
  then have "chain (mem s') (head s') (ow None)" "vals (mem s') (ow None) = vals (mem s) (ow None)"
    using o False chain_cong [of "ow None" "mem s'" "mem s"] vals_cong [of "ow None" "mem s'" "mem s"]
    by (auto simp: owns_def stack_ok_def)
  moreover have "st = Some (vals (mem s) (ow None))"
    using assms(3) stack_sim_owned [OF o] False f by simp
  ultimately show ?thesis using False f unfolding stack_sim_def by auto
qed (use assms in \<open>auto simp: stack_sim_def\<close>)

lemma own_node_apart:
  "owns s ow \<Longrightarrow> x \<in> set (ow (Some t)) \<Longrightarrow> x \<notin> set (ow None)"
  unfolding owns_def using own_ok_disjoint by fastforce

lemma tau_frame:
  assumes o: "owns s ow" and st: "ostep s Tau s'"
  shows "destroyed s' \<or> (head s' = head s \<and> destroyed s' = destroyed s \<and>
      (\<forall>x \<in> set (ow None). mem s' x = mem s x))"
  using st
proof cases
  case (step_alloc t c)
  have "mem s a = None \<Longrightarrow> a \<notin> set (ow None)" for a
    using o own_ok_freshD [of "mem s" ow a None] by (simp add: owns_def)
  then show ?thesis
    using step_alloc by (auto simp: allocate_list_node_def split: thread.splits option.splits if_splits)
next
  case (step_load t)
  then show ?thesis
    using owns_thread [OF o, of t] own_node_apart [OF o, of _ t]
    by (auto simp: push_load_def split: thread.splits option.splits if_splits)
next
  case (step_cas t)
  then show ?thesis
    using owns_thread [OF o, of t] own_node_apart [OF o, of _ t]
    by (auto simp: push_cas_def split: thread.splits option.splits if_splits)
next
  case (step_give_back t)
  then show ?thesis
    using owns_thread [OF o, of t] own_node_apart [OF o, of _ t]
    by (auto simp: push_give_back_def split: thread.splits option.splits if_splits)
next
  case (step_free t)
  have "a \<notin> set (ow None)" if "chain (mem s) (Ptr a) (ow (Some t))" for a
    using own_node_apart [OF o, of a t] that by (auto simp: chain_Ptr)
  then show ?thesis
    using step_free owns_thread [OF o, of t]
    by (auto simp: forward_list_deleter_def delete_node_def split: thread.splits ptr.splits option.splits)
qed (auto simp: stack_dtor_def list_iterate_def consume_def is_consumed_def Let_def
       split: thread.splits ptr.splits option.splits if_splits)

lemma silent_sim:
  "stack_inv s \<Longrightarrow> ostep s e s' \<Longrightarrow> silent e \<Longrightarrow> stack_sim s st \<Longrightarrow> stack_sim s' st"
  using sim_frame tau_frame unfolding stack_inv_def silent_def by blast

lemma visible_sim:
  assumes i: "stack_inv s" and st: "ostep s e s'" and v: "\<not> silent e" and sim: "stack_sim s a"
  shows "\<exists>b. once_spec a e b \<and> stack_sim s' b"
proof -
  obtain ow where o: "owns s ow" using i by (auto simp: stack_inv_def)
  have own: "destroyed s \<or>
      (if head s = Marker then a = None else a = Some (vals (mem s) (ow None)))"
    using sim stack_sim_owned [OF o] by simp
  note alive = uses_stack_alive [OF o]
  show ?thesis
    using st
  proof cases
    case (step_load t)
    then obtain w b where "threads s t = P_load w b" "head s = Marker"
      "e = Push_false t w" "s' = goto t (P_fail w b) s"
      using v by (auto simp: push_load_def silent_def consumed_marker_def
                       split: thread.splits option.splits if_splits)
    then show ?thesis
      using sim alive [of t] by (intro exI [of _ None]) (simp add: stack_sim_def once_spec.intros)
  next
    case (step_cas t)
    then obtain w b r nd where w: "threads s t = P_cas w b r" "mem s b = Some nd"
      by (auto simp: push_cas_def split: thread.splits option.splits)
    then have nm: "n_next nd \<noteq> Marker" "n_val nd = w" "\<not> destroyed s"
      using o owns_thread [OF o, of t] alive [of t] by (auto simp: owns_def cas_ok_def)
    show ?thesis
    proof (cases "head s = n_next nd")
      case True
      have ch: "chain (mem s) (head s) (ow None)"
        using o nm True by (simp add: owns_def stack_ok_def)
      have e: "e = Push_true t w" and s': "s' = goto t (P_true w r) (s\<lparr>head := Ptr b\<rparr>)"
        using step_cas w True by (simp_all add: push_cas_def)
      have "chain (mem s') (head s') (b # ow None)" "head s' \<noteq> Marker"
        "vals (mem s') (b # ow None) = w # vals (mem s) (ow None)"
        using w ch True nm(2) unfolding s' by simp_all
      then have "stack_sim s' (Some (w # vals (mem s) (ow None)))"
        using stack_simI by metis
      moreover have "a = Some (vals (mem s) (ow None))"
        using own nm(1,3) True by simp
      ultimately show ?thesis
        by (intro exI [of _ "Some (w # vals (mem s) (ow None))"]) (simp add: e once_spec.intros(1))
    next
      case False
      then have "head s = Marker" "e = Push_false t w" "head s' = Marker"
        using step_cas w v by (auto simp: push_cas_def silent_def consumed_marker_def split: if_splits)
      then show ?thesis
        using sim nm(3) by (intro exI [of _ None]) (simp add: stack_sim_def once_spec.intros)
    qed
  next
    case (step_consume t as)
    then have v: "threads s t = C_start" by (auto simp: consume_def split: thread.splits)
    then have al: "\<not> destroyed s" using alive [of t] by simp
    show ?thesis
    proof (cases "head s = Marker")
      case True
      then have "a = None" "e = Consumed []" "head s' = Marker"
        using step_consume v own al by (auto simp: consume_def consumed_marker_def split: if_splits)
      then show ?thesis by (intro exI [of _ None]) (simp add: stack_sim_def once_spec.intros)
    next
      case False
      have "chain (mem s) (head s) as" "e = Consumed (vals (mem s) as)" "head s' = Marker"
        using step_consume v False
        by (simp_all add: consume_def consumed_marker_def Let_def split: if_splits) auto
      moreover from this have "as = ow None" using owned_chain [OF o al False] by simp
      moreover have "a = Some (vals (mem s) (ow None))" using own al False by simp
      ultimately have "a = Some (vals (mem s) (ow None))" "e = Consumed (vals (mem s) (ow None))"
        "head s' = Marker" by simp_all
      then show ?thesis by (intro exI [of _ None]) (simp add: stack_sim_def once_spec.intros)
    qed
  next
    case (step_is_consumed t)
    then have q: "e = Is_consumed (head s = Marker)" "s' = goto t (Q_done (head s = Marker)) s"
      "\<not> destroyed s"
      using alive [of t] by (auto simp: is_consumed_def consumed_marker_def Let_def split: thread.splits)
    then have "stack_sim s' a" and eq: "(head s = Marker) = (a = None)"
      using sim by (auto simp: stack_sim_def split: if_splits)
    moreover have "once_spec a e a"
      unfolding q(1) eq by (rule once_spec.intros)
    ultimately show ?thesis by (intro exI [of _ a]) simp
  qed (use v in \<open>simp_all add: silent_def\<close>)
qed

interpretation treiber: simulation stack_init ostep stack_inv stack_sim once_spec silent
  by unfold_locales (blast intro: stack_init_inv ostep_inv silent_sim visible_sim)+


section \<open>Consequences of the specification\<close>

fun pushed :: "'a op_event list \<Rightarrow> 'a list" where
  "pushed [] = []"
| "pushed (Push_true t v # ls) = v # pushed ls"
| "pushed (_ # ls) = pushed ls"

fun deliveries :: "'a op_event list \<Rightarrow> 'a list list" where
  "deliveries [] = []"
| "deliveries (Consumed xs # ls) = xs # deliveries ls"
| "deliveries (_ # ls) = deliveries ls"

lemma pushed_append [simp]: "pushed (ls @ ls') = pushed ls @ pushed ls'"
  by (induction ls rule: pushed.induct) auto

lemma deliveries_append [simp]: "deliveries (ls @ ls') = deliveries ls @ deliveries ls'"
  by (induction ls rule: deliveries.induct) auto

lemma pushed_filter [simp]: "pushed (filter (\<lambda>l. \<not> silent l) ls) = pushed ls"
  by (induction ls rule: pushed.induct) (auto simp: silent_def)

lemma deliveries_filter [simp]: "deliveries (filter (\<lambda>l. \<not> silent l) ls) = deliveries ls"
  by (induction ls rule: deliveries.induct) (auto simp: silent_def)

lemma spec_run_history:
  assumes "run once_spec (Some []) ls b"
  shows "case b of
      Some xs \<Rightarrow> xs = rev (pushed ls) \<and> deliveries ls = []
    | None \<Rightarrow> \<exists>n. deliveries ls = rev (pushed ls) # replicate n []"
  using assms
proof (induction "Some [] :: 'a list option" ls b rule: run.induct)
  case (run_snoc ls t l u)
  from run_snoc(3,2) show ?case
  proof cases
    case spec_consume_again
    then obtain n where "deliveries ls = rev (pushed ls) # replicate n []"
      using run_snoc(2) by auto
    then have "deliveries (ls @ [l]) = rev (pushed (ls @ [l])) # replicate (Suc n) []"
      using spec_consume_again by (simp add: replicate_append_same)
    then show ?thesis using spec_consume_again by (auto simp del: replicate_Suc)
  qed (auto split: option.splits)
qed simp

section \<open>A concrete execution\<close>

definition stack0 :: "nat ostack" where
  "stack0 = \<lparr>head = Null, mem = (\<lambda>_. None), threads = (\<lambda>_. Idle), destroyed = False\<rparr>"

lemma stack0_init: "stack_init stack0"
  by (simp add: stack_init_def stack0_def)

text \<open>
  Threads 0 and 1 both read an empty stack; thread 0 succeeds, thread 1's first
  attempt fails and its second succeeds; thread 2 consumes; thread 0 comes too late.
\<close>

definition example_labels :: "nat op_event list" where
  "example_labels = [Tau, Tau, Tau, Tau, Tau, Tau, Push_true 0 5, Tau, Push_true 1 6,
     Tau, Consumed [6, 5], Tau, Tau, Push_false 0 7]"

definition example_state :: "nat ostack" where
  "example_state =
     \<lparr>head = Marker,
      mem = (\<lambda>_. None)(10 \<mapsto> \<lparr>n_val = 5, n_next = Null\<rparr>, 11 \<mapsto> \<lparr>n_val = 6, n_next = Ptr 10\<rparr>,
        12 \<mapsto> \<lparr>n_val = 7, n_next = Null\<rparr>),
      threads = (\<lambda>_. Idle)(0 := P_fail 7 12, 1 := P_true 6 1, 2 := C_iter [6, 5] (Ptr 11) (Ptr 11) []),
      destroyed = False\<rparr>"

text \<open>A schedule names the next action of some thread; running it is running the steps.\<close>

datatype 'a action =
    Call_push nat 'a
  | Call_consume nat
  | Call_dtor nat
  | Alloc nat "addr option"
  | Load nat
  | Cas nat
  | Give_back nat
  | Consume nat "addr list"
  | Iterate nat
  | Free nat

fun act :: "'a action \<Rightarrow> 'a ostack \<Rightarrow> ('a op_event \<times> 'a ostack) option" where
  "act (Call_push t v) s =
     (if returned (threads s t) \<and> \<not> destroyed s then Some (Tau, goto t (P_start v) s) else None)"
| "act (Call_consume t) s =
     (if returned (threads s t) \<and> \<not> destroyed s then Some (Tau, goto t C_start s) else None)"
| "act (Call_dtor t) s =
     (if returned (threads s t) \<and> (\<forall>u. \<not> uses_stack (threads s u)) \<and> \<not> destroyed s
      then Some (Tau, stack_dtor t s) else None)"
| "act (Alloc t c) s = map_option (Pair Tau) (allocate_list_node t c s)"
| "act (Load t) s = push_load t s"
| "act (Cas t) s = push_cas t s"
| "act (Give_back t) s = map_option (Pair Tau) (push_give_back t s)"
| "act (Consume t as) s = consume t as s"
| "act (Iterate t) s = map_option (Pair Tau) (list_iterate t s)"
| "act (Free t) s = map_option (Pair Tau) (forward_list_deleter t s)"

fun acts :: "'a action list \<Rightarrow> 'a ostack \<Rightarrow> ('a op_event list \<times> 'a ostack) option" where
  "acts [] s = Some ([], s)"
| "acts (a # as) s =
     (case act a s of
        None \<Rightarrow> None
      | Some (e, s') \<Rightarrow> map_option (\<lambda>(ls, s''). (e # ls, s'')) (acts as s'))"

lemma act_step: "act a s = Some (e, s') \<Longrightarrow> ostep s e s'"
  by (cases a) (auto intro: ostep.intros split: if_splits)

lemma acts_run: "acts as s = Some (ls, s') \<Longrightarrow> run ostep s ls s'"
proof (induction as arbitrary: s ls)
  case (Cons a as)
  then obtain e s1 ls1 where "act a s = Some (e, s1)" "acts as s1 = Some (ls1, s')" "ls = e # ls1"
    by (auto split: option.splits)
  then show ?case using Cons.IH run_prepend act_step by metis
qed (auto intro: run_nil)

lemmas action_defs = goto_def allocate_list_node_def push_load_def push_cas_def push_give_back_def
  consume_def list_iterate_def forward_list_deleter_def delete_node_def stack_dtor_def
  consumed_marker_def Let_def

lemma example_run: "run ostep stack0 example_labels example_state"
  by (rule acts_run [of "[Call_push 0 5, Alloc 0 (Some 10), Call_push 1 6, Alloc 1 (Some 11), Load 0,
        Load 1, Cas 0, Cas 1, Cas 1, Call_consume 2, Consume 2 [11, 10], Call_push 0 7,
        Alloc 0 (Some 12), Load 0]"])
     (simp add: action_defs stack0_def example_labels_def example_state_def fun_eq_iff)

section \<open>Properties\<close>

text \<open>
  A thread that is inside an operation has a next action: none of its actions reads
  or frees a node that is not alive (each action is undefined, \<open>None\<close>, on a dead node).
\<close>

definition can_act :: "nat \<Rightarrow> 'a ostack \<Rightarrow> bool" where
  "can_act t s \<longleftrightarrow>
     allocate_list_node t None s \<noteq> None \<or> push_load t s \<noteq> None \<or> push_cas t s \<noteq> None \<or>
     push_give_back t s \<noteq> None \<or> (\<exists>as. consume t as s \<noteq> None) \<or> is_consumed t s \<noteq> None \<or>
     list_iterate t s \<noteq> None \<or> forward_list_deleter t s \<noteq> None"

lemma owns_can_act:
  assumes o: "owns s ow" and r: "\<not> returned (threads s t)"
  shows "can_act t s"
proof -
  note th = owns_thread [OF o, of t]
  show ?thesis
  proof (cases "threads s t")
    case (C_iter xs p h acc)
    then show ?thesis
      using th by (cases p) (auto simp: can_act_def list_iterate_def chain_Ptr)
  next
    case (C_free xs p acc)
    then show ?thesis
      using th by (cases p) (auto simp: can_act_def forward_list_deleter_def delete_node_def chain_Ptr)
  next
    case (D_free p)
    then show ?thesis
      using th by (cases p) (auto simp: can_act_def forward_list_deleter_def delete_node_def chain_Ptr)
  next
    case C_start
    then have "\<not> destroyed s" using uses_stack_alive [OF o, of t] by simp
    then have "head s = Marker \<or> chain (mem s) (head s) (ow None)"
      using o by (auto simp: owns_def stack_ok_def split: if_splits)
    then have "consume t [] s \<noteq> None \<or> consume t (ow None) s \<noteq> None"
      using C_start by (auto simp: consume_def consumed_marker_def Let_def)
    then show ?thesis by (auto simp: can_act_def)
  next
    case (P_cas v a r)
    then have "push_cas t s \<noteq> None" using th by (auto simp: push_cas_def)
    then show ?thesis by (simp add: can_act_def)
  qed (use r th in \<open>auto simp: can_act_def allocate_list_node_def push_load_def push_cas_def
         push_give_back_def is_consumed_def Let_def\<close>)
qed

text \<open>
  C10. Memory safety of the lock-free stack: in every reachable state, whatever the
  interleaving and the reuse of node addresses, a thread inside an operation can
  perform its next action; it never follows a pointer to a node that was freed and
  never frees a node twice.
\<close>

theorem stack_memory_safe:
  assumes "stack_init s0" and "run ostep s0 ls s" and "\<not> returned (threads s t)"
  shows "can_act t s"
  using treiber.run_inv [OF assms(1,2)] owns_can_act assms(3) by (auto simp: stack_inv_def)

theorem stack_memory_safe_witness: "\<not> returned (threads example_state 2) \<and> can_act 2 example_state"
  using stack_memory_safe [OF stack0_init example_run, of 2] by (simp add: example_state_def)

text \<open>
  C13. No leak: when the stack has been destroyed and every thread has returned, no
  node is allocated any more, whether the stack was consumed, partly or never.
\<close>

theorem stack_no_leak:
  assumes "stack_init s0" and "run ostep s0 ls s" and "destroyed s" and "\<forall>t. returned (threads s t)"
  shows "mem s = (\<lambda>_. None)"
proof -
  obtain ow where o: "owns s ow" using treiber.run_inv [OF assms(1,2)] by (auto simp: stack_inv_def)
  have "ow i = []" for i
  proof (cases i)
    case None
    then show ?thesis using o assms(3) by (simp add: owns_def stack_ok_def)
  next
    case (Some t)
    then show ?thesis using returned_owns [OF owns_thread [OF o, of t]] assms(4) by simp
  qed
  then have "x \<notin> dom (mem s)" for x
    using o by (simp add: owns_def own_ok_def)
  then show ?thesis by auto
qed

text \<open>A stack with one value that is destroyed without having been consumed.\<close>

definition destroyed_state :: "nat ostack" where
  "destroyed_state =
     \<lparr>head = Ptr 10, mem = (\<lambda>_. None), threads = (\<lambda>_. Idle)(0 := P_true 5 0, 1 := D_done), destroyed = True\<rparr>"

lemma destroyed_run:
  "run ostep stack0 [Tau, Tau, Tau, Push_true 0 5, Tau, Tau, Tau] destroyed_state"
  by (rule acts_run [of "[Call_push 0 5, Alloc 0 (Some 10), Load 0, Cas 0, Call_dtor 1, Free 1, Free 1]"])
     (simp add: action_defs stack0_def destroyed_state_def fun_eq_iff)

theorem stack_no_leak_witness:
  "destroyed destroyed_state \<and> mem destroyed_state = (\<lambda>_. None)"
  using stack_no_leak [OF stack0_init destroyed_run] by (simp add: destroyed_state_def)

text \<open>
  C11. The lock-free stack refines its atomic specification: the results of all
  operations, in the order of their linearisation points, are those of a stack
  whose operations are atomic.
\<close>

theorem stack_refines_spec:
  assumes "stack_init s0" and "run ostep s0 ls s"
  shows "\<exists>st. run once_spec (Some []) (filter (\<lambda>e. \<not> silent e) ls) st \<and> stack_sim s st"
proof -
  have "stack_sim s0 (Some [])" using assms(1) by (auto simp: stack_init_def stack_sim_def)
  then show ?thesis
    using treiber.run_simulates [OF assms(2)] stack_init_inv assms(1) by blast
qed

theorem stack_refines_spec_witness:
  "\<exists>st. run once_spec (Some [])
      [Push_true 0 5, Push_true 1 6, Consumed [6, 5], Push_false 0 7] st \<and> stack_sim example_state st"
  using stack_refines_spec [OF stack0_init example_run]
  by (simp add: example_labels_def silent_def)

text \<open>
  C12. Nothing is lost and nothing is delivered twice: as long as no consumer has run,
  the stack holds exactly the successfully pushed values, last one first; the first
  consumer receives exactly these, every later one nothing, and no push succeeds after it.
\<close>

theorem stack_delivers_once:
  assumes "stack_init s0" and "run ostep s0 ls s" and "\<not> destroyed s"
  shows "if head s = Marker
    then \<exists>n. deliveries ls = rev (pushed ls) # replicate n []
    else deliveries ls = [] \<and>
      (\<exists>as. chain (mem s) (head s) as \<and> vals (mem s) as = rev (pushed ls))"
proof -
  have "stack_sim s0 (Some [])" using assms(1) by (auto simp: stack_init_def stack_sim_def)
  then obtain st where st: "run once_spec (Some []) (filter (\<lambda>e. \<not> silent e) ls) st" "stack_sim s st"
    using treiber.run_simulates [OF assms(2)] stack_init_inv assms(1) by blast
  show ?thesis
    using spec_run_history [OF st(1)] st(2) assms(3)
    by (auto simp: stack_sim_def split: option.splits if_splits)
qed

theorem stack_delivers_once_witness:
  "head example_state = Marker \<and>
    (\<exists>n. deliveries example_labels = rev (pushed example_labels) # replicate n [])"
  using stack_delivers_once [OF stack0_init example_run] by (simp add: example_state_def)

text \<open>
  What the operations hand back: a push that fails leaves the caller's value as it
  was, and a consumer's iteration reads the values of the list it took, all of them,
  in the stack's order.
\<close>

theorem stack_results:
  assumes "stack_init s0" and "run ostep s0 ls s"
  shows "(threads s t = P_false v w \<longrightarrow> w = v) \<and> (threads s t = C_done xs acc \<longrightarrow> acc = xs)"
proof -
  obtain ow where o: "owns s ow" using treiber.run_inv [OF assms(1,2)] by (auto simp: stack_inv_def)
  show ?thesis using owns_thread [OF o, of t] by auto
qed

text \<open>The example continued: the late push returns, the consumer iterates and frees its list.\<close>

definition final_state :: "nat ostack" where
  "final_state =
     \<lparr>head = Marker, mem = (\<lambda>_. None),
      threads = (\<lambda>_. Idle)(0 := P_false 7 7, 1 := P_true 6 1, 2 := C_done [6, 5] [6, 5]),
      destroyed = False\<rparr>"

lemma final_run: "\<exists>ls. run ostep stack0 ls final_state"
proof -
  have "acts [Give_back 0, Iterate 2, Iterate 2, Iterate 2, Free 2, Free 2, Free 2] example_state =
      Some (replicate 7 Tau, final_state)"
    by (simp add: action_defs example_state_def final_state_def fun_eq_iff numeral_eq_Suc)
  then show ?thesis using acts_run run_trans example_run by metis
qed

theorem stack_results_witness:
  "threads final_state 0 = P_false 7 7 \<and> threads final_state 2 = C_done [6, 5] [6, 5]"
proof -
  obtain ls where "run ostep stack0 ls final_state" using final_run by blast
  then show ?thesis
    using stack_results [OF stack0_init, of ls final_state 0 7 7]
      stack_results [OF stack0_init, of ls final_state 2 7 7 "[6, 5]" "[6, 5]"]
    by (simp add: final_state_def)
qed

text \<open>
  C14. A push is lock-free: its failed attempts never outnumber the values other threads
  have put on the stack since (they are bounded by the size of the open stack), and an
  attempt that directly follows a failed one succeeds.
\<close>

theorem push_lock_free:
  assumes "stack_init s0" and "run ostep s0 ls s"
    and "threads s t = P_cas v a r" and "head s \<noteq> Marker"
  shows "r \<le> length (pushed ls)
    \<and> (\<forall>s'. push_cas t s = Some (Tau, s') \<longrightarrow>
        (\<exists>s''. push_cas t s' = Some (Push_true t v, s'')))"
proof -
  obtain ow where o: "owns s ow" using treiber.run_inv [OF assms(1,2)] by (auto simp: stack_inv_def)
  have al: "\<not> destroyed s" using uses_stack_alive [OF o, of t] assms(3) by simp
  obtain nd where nd: "mem s a = Some nd" using owns_thread [OF o, of t] assms(3) by auto
  obtain pre zs where "ow None = pre @ zs" "r \<le> length zs"
    using o assms(3,4) nd al unfolding owns_def cas_ok_def by metis
  then have "r \<le> length (ow None)" by simp
  moreover have len: "length (vals m as) = length as" if "chain m p as" for m :: "addr \<Rightarrow> 'a node option" and p as
    using that by (induction m p as rule: chain.induct) (auto split: option.splits)
  have "stack_sim s0 (Some [])" using assms(1) by (auto simp: stack_init_def stack_sim_def)
  then obtain st where st: "run once_spec (Some []) (filter (\<lambda>e. \<not> silent e) ls) st" "stack_sim s st"
    using treiber.run_simulates [OF assms(2)] stack_init_inv assms(1) by blast
  have "st = Some (vals (mem s) (ow None))" using stack_sim_owned [OF o, of st] st(2) al assms(4) by simp
  then have "vals (mem s) (ow None) = rev (pushed ls)"
    using spec_run_history [OF st(1)] by simp
  then have "length (ow None) = length (pushed ls)"
    using len [of "mem s" "head s" "ow None"] owned_chain [OF o al assms(4)] by (metis length_rev)
  moreover have "\<exists>s''. push_cas t s' = Some (Push_true t v, s'')" if "push_cas t s = Some (Tau, s')" for s'
    using that assms(3,4) nd by (auto simp: push_cas_def consumed_marker_def split: if_splits)
  ultimately show ?thesis by simp
qed

text \<open>A state of the example in which thread 1 has failed once.\<close>

definition contended_state :: "nat ostack" where
  "contended_state =
     \<lparr>head = Ptr 10,
      mem = (\<lambda>_. None)(10 \<mapsto> \<lparr>n_val = 5, n_next = Null\<rparr>, 11 \<mapsto> \<lparr>n_val = 6, n_next = Ptr 10\<rparr>),
      threads = (\<lambda>_. Idle)(0 := P_true 5 0, 1 := P_cas 6 11 1),
      destroyed = False\<rparr>"

lemma contended_run:
  "run ostep stack0 [Tau, Tau, Tau, Tau, Tau, Tau, Push_true 0 5, Tau] contended_state"
  by (rule acts_run [of "[Call_push 0 5, Alloc 0 (Some 10), Call_push 1 6, Alloc 1 (Some 11), Load 0,
        Load 1, Cas 0, Cas 1]"])
     (simp add: action_defs stack0_def contended_state_def fun_eq_iff)

theorem push_lock_free_witness:
  "(1 :: nat) \<le> length (pushed [Tau, Tau, Tau, Tau, Tau, Tau, Push_true 0 5, Tau :: nat op_event])
    \<and> threads contended_state 1 = P_cas 6 11 1"
  using push_lock_free [OF stack0_init contended_run, of 1 6 11 1]
  by (simp add: contended_state_def)

end
