(* ===== verification/Heap.thy ===== *)
theory Heap
  imports Prelude
begin

text \<open>
  The data of the future machine: the objects that \<open>std::shared_ptr\<close> manages, the
  values that own or observe them, and the frames of the threads' call stacks.

  A shared state is an object of the heap, known by its address. Addresses are
  never reused, as the control block of a shared pointer outlives its object while
  weak pointers remain. The library's type-erased functions are defunctionalised:
  every closure the library creates is a constructor that carries what the closure
  captures. Closures of the user are an identity and the handles they capture; what
  they do when called is not fixed, so the machine takes their actions as input.
\<close>

section \<open>Handles\<close>

text \<open>
  \<open>either<monostate, shared_ptr, weak_ptr>\<close>: the \<open>state_\<close> member of \<open>promise_common\<close>
  and of \<open>packaged_task\<close>.
\<close>

datatype owner =
    No_owner
  | Shared addr
  | Weak addr

text \<open>
  The objects of the API that user code holds: \<open>promise\<close>, \<open>packaged_task\<close>, \<open>future\<close>
  and \<open>shared_future\<close> (a possibly null shared pointer); \<open>H_gone\<close> is a variable whose
  object was destroyed or moved into a closure.
\<close>

datatype handle =
    H_promise owner
  | H_task owner
  | H_future "addr option"
  | H_shared "addr option"
  | H_gone

text \<open>
  A function object of the user: its code, the handles it captures, and its result
  type, \<open>R\<close>, \<open>future<R>\<close> or \<open>shared_future<R>\<close> with \<open>R\<close> an object type, \<open>void\<close> or a
  reference. Overloads of the library depend on it.
\<close>

datatype result_kind =
    Object_result
  | Void_result
  | Ref_result

datatype wrapping =
    Direct
  | Of_future
  | Of_shared

record closure =
  code :: nat
  caps :: "handle list"
  result :: result_kind
  wrap :: wrapping

datatype exec =
    Inplace
  | Executor nat

section \<open>Closures of the library\<close>

text \<open>
  The functors that \<open>then.hpp\<close>, \<open>future.hpp\<close> and \<open>shared_future.hpp\<close> build around a
  continuation: \<open>decorate_unique_then\<close>, \<open>decorate_shared_then\<close>,
  \<open>decorate_unique_next\<close>, \<open>decorate_shared_next\<close>, \<open>decorate_void_next\<close> and the
  closures of the interruptible overloads of \<open>then\<close>.
\<close>

datatype deco =
    Unique_then
  | Shared_then
  | Unique_next
  | Shared_next
  | Void_next
  | Unique_interrupt
  | Shared_interrupt

record action =
  a_deco :: deco
  a_func :: closure
  a_parent :: addr

text \<open>
  What a \<open>continuations_stack\<close> holds: the closures of \<open>make_then_state\<close> (a weak pointer
  to the continuation's state), of \<open>shared_state::unwrap\<close> (a weak pointer to the outer
  state), of \<open>detach\<close>, of \<open>when_all_state::make\<close> and \<open>when_any_state::make\<close> (shared
  pointers), of \<open>detail::wait\<close> (the waiting call), and of the two overloads of
  \<open>notify\<close>. \<open>C_moved\<close> is a notification whose function was moved to an executor.
\<close>

datatype cont =
    C_schedule addr
  | C_unwrap addr
  | C_detach addr
  | C_all addr
  | C_any addr nat
  | C_wait nat
  | C_user closure
  | C_post exec closure
  | C_moved

text \<open>
  Function objects handed to an executor: a \<open>cnt_action\<close> (its weak pointer, null after
  the call), a \<open>packaged_task\<close> (from \<open>async\<close>), a notification.
\<close>

datatype task =
    T_cnt "addr option"
  | T_task owner
  | T_user closure

section \<open>Objects\<close>

text \<open>\<open>either<monostate, T, shared_ptr<future_state<T>>, exception_ptr>\<close>.\<close>

datatype 'v storage =
    S_empty
  | S_value 'v
  | S_fwd addr
  | S_error exn

text \<open>The function of a task: absent, ready to be called, or being called.\<close>

datatype func_state =
    Fn_empty
  | Fn_ready closure
  | Fn_running

text \<open>
  The dynamic type of an object and its members beside the storage and the
  continuations stack: \<open>shared_state\<close>, \<open>cancellable_state\<close>, \<open>cnt_state\<close> (its
  executor and action), \<open>task_state\<close>, \<open>when_all_state\<close> (futures and counter),
  \<open>when_any_state\<close> (futures, index and ready flag). While a task's function is being
  called, its captures are with the caller's frame.
\<close>

datatype body =
    B_plain
  | B_cancel closure
  | B_cnt "exec option" "action option"
  | B_task func_state
  | B_all "handle list" nat
  | B_any "handle list" nat bool

record 'v obj =
  store :: "'v storage"
  conts :: "cont list option"
  body :: body

section \<open>Threads\<close>

text \<open>
  User code runs at the bottom of every thread (\<open>U_main\<close>), in functions whose result
  is not used (\<open>U_call\<close>: notifications, interruptible continuations, cancel
  actions), and in functions whose result goes to a shared state (\<open>U_set a c\<close>: \<open>c\<close>
  tells if storing the result is inside the try block of the call).
\<close>

datatype user_ctx =
    U_main
  | U_call
  | U_set addr bool

text \<open>
  The frames of a call stack. \<open>F_user x n hs\<close> is running user code with its variables
  \<open>hs\<close>, of which the first \<open>n\<close> are the captures of the function object that is
  called; \<open>F_home\<close> is a function object in a local variable, which gets its
  captures back when the call returns. \<open>F_release\<close> is a local shared pointer at the
  end of its scope. The other frames are pending calls of library functions.
\<close>

datatype 'v frame =
    F_user user_ctx nat "handle list"
  | F_home "handle list"
  | F_release addr
  | F_drop handle
  | F_drop_conts "cont list"
  | F_drop_task task
  | F_emplace addr 'v
  | F_set_exn addr exn
  | F_unwrap addr "addr option" bool
  | F_abandon addr
  | F_execute addr
  | F_loop "cont list" "cont list"
  | F_post exec task
  | F_run addr
  | F_apply action addr
  | F_cnt_abandon addr
  | F_clean_action addr
  | F_task_run addr
  | F_clean_func addr "handle list"
  | F_task_abandon addr
  | F_subscribe_all addr nat
  | F_subscribe_any addr nat
  | F_notify_all addr
  | F_notify_any addr nat
  | F_give handle
  | F_await nat
  | F_get nat
  | F_catch addr
  | F_noexcept
  | F_raise exn

text \<open>
  How an execution ends early: \<open>std::terminate\<close>, an access to an object after its
  end, or another operation whose precondition or assertion fails.
\<close>

datatype crash =
    Terminated
  | Use_after_free
  | Undefined_behaviour

text \<open>
  What \<open>value_ref\<close> refers to: the value in a storage, or the members of a
  \<open>when_all\<close> or \<open>when_any\<close> state.
\<close>

datatype 'v vref =
    V_value 'v
  | V_all addr
  | V_any addr

text \<open>Observations; they are only written.\<close>

datatype 'v event =
    E_ready addr
  | E_dead addr
  | E_call nat
  | E_arg "'v vref"
  | E_got "'v vref"
  | E_threw exn
  | E_bool bool

record 'v cfg =
  heap :: "'v obj option list"
  posted :: "(nat \<times> task) list"
  stacks :: "'v frame list list"
  waits :: "addr list"
  signalled :: "nat set"
  log :: "'v event list"
  crashed :: "crash option"

text \<open>
  A call of the library changes the configuration and pushes frames on the stack of
  the thread that performs it; the first one is performed next.
\<close>

type_synonym 'v op = "'v cfg \<Rightarrow> 'v cfg \<times> 'v frame list"

definition obj_at :: "'v cfg \<Rightarrow> addr \<Rightarrow> 'v obj option" where
  "obj_at c a = (if a < length (heap c) then heap c ! a else None)"

definition set_obj :: "addr \<Rightarrow> 'v obj \<Rightarrow> 'v cfg \<Rightarrow> 'v cfg" where
  "set_obj a w c = c\<lparr>heap := (heap c)[a := Some w]\<rparr>"

definition kill :: "addr \<Rightarrow> 'v cfg \<Rightarrow> 'v cfg" where
  "kill a c = c\<lparr>heap := (heap c)[a := None]\<rparr>"

definition new_obj :: "'v obj \<Rightarrow> 'v cfg \<Rightarrow> 'v cfg" where
  "new_obj w c = c\<lparr>heap := heap c @ [Some w]\<rparr>"

definition fresh :: "'v cfg \<Rightarrow> addr" where
  "fresh c = length (heap c)"

text \<open>\<open>weak_ptr::lock\<close> succeeds and \<open>expired\<close> is false.\<close>

definition alive :: "'v cfg \<Rightarrow> addr \<Rightarrow> bool" where
  "alive c a \<longleftrightarrow> obj_at c a \<noteq> None"

definition observe :: "'v event \<Rightarrow> 'v cfg \<Rightarrow> 'v cfg" where
  "observe e c = c\<lparr>log := log c @ [e]\<rparr>"

definition crash_with :: "crash \<Rightarrow> 'v op" where
  "crash_with k c = (c\<lparr>crashed := Some k\<rparr>, [])"

text \<open>Access to an object through a raw pointer or reference: the object must be alive.\<close>

definition with_obj :: "addr \<Rightarrow> ('v obj \<Rightarrow> 'v op) \<Rightarrow> 'v op" where
  "with_obj a g c = (case obj_at c a of
     None \<Rightarrow> crash_with Use_after_free c
   | Some w \<Rightarrow> g w c)"

text \<open>\<open>weak_ptr::lock\<close>: the calls \<open>fs\<close> on the locked object, if it still exists.\<close>

definition lock :: "addr \<Rightarrow> 'v frame list \<Rightarrow> 'v op" where
  "lock a fs c = (c, if alive c a then fs @ [F_release a] else [])"

text \<open>A call of a function object of the user with some arguments.\<close>

definition invoke :: "closure \<Rightarrow> user_ctx \<Rightarrow> handle list \<Rightarrow> 'v frame" where
  "invoke f x args = F_user x (length (caps f)) (caps f @ args)"

section \<open>Object kinds\<close>

datatype kind =
    K_state
  | K_cnt
  | K_task
  | K_all
  | K_any

text \<open>Which dynamic types a pointer of a given static type can point to.\<close>

fun fits :: "kind \<Rightarrow> body \<Rightarrow> bool" where
  "fits K_cnt (B_cnt _ _) = True"
| "fits K_task (B_task _) = True"
| "fits K_all (B_all _ _) = True"
| "fits K_any (B_any _ _ _) = True"
| "fits K_state (B_all _ _) = False"
| "fits K_state (B_any _ _ _) = False"
| "fits K_state _ = True"
| "fits _ _ = False"

section \<open>References\<close>

text \<open>
  The references that a configuration holds: \<open>A_strong a\<close> is a shared pointer to \<open>a\<close>,
  \<open>A_future a\<close> one of a future, or that can become one, \<open>A_promise a\<close> a promise for \<open>a\<close>, \<open>A_writer a\<close> a pending call that checks the
  storage of \<open>a\<close> and writes it, \<open>A_kind k a\<close> a pointer to \<open>a\<close> of static type \<open>k\<close>. An
  object lives exactly as long as somebody holds a shared pointer to it.
\<close>

datatype atom =
    A_strong addr
  | A_future addr
  | A_promise addr
  | A_writer addr
  | A_kind kind addr

fun strong_atoms :: "owner \<Rightarrow> atom set" where
  "strong_atoms (Shared a) = {A_strong a}"
| "strong_atoms _ = {}"

fun owner_addrs :: "owner \<Rightarrow> addr set" where
  "owner_addrs (Shared a) = {a}"
| "owner_addrs (Weak a) = {a}"
| "owner_addrs No_owner = {}"

fun future_atoms :: "addr option \<Rightarrow> atom set" where
  "future_atoms None = {}"
| "future_atoms (Some a) = {A_strong a, A_future a}"

fun handle_atoms :: "handle \<Rightarrow> atom set" where
  "handle_atoms (H_promise w) =
     strong_atoms w \<union> A_promise ` owner_addrs w \<union> A_kind K_state ` owner_addrs w"
| "handle_atoms (H_task w) = strong_atoms w \<union> A_kind K_task ` owner_addrs w"
| "handle_atoms (H_future p) = future_atoms p"
| "handle_atoms (H_shared p) = future_atoms p"
| "handle_atoms H_gone = {}"

definition handles_atoms :: "handle list \<Rightarrow> atom set" where
  "handles_atoms hs = (\<Union>h \<in> set hs. handle_atoms h)"

definition closure_atoms :: "closure \<Rightarrow> atom set" where
  "closure_atoms f = handles_atoms (caps f)"

definition action_atoms :: "action \<Rightarrow> atom set" where
  "action_atoms k = future_atoms (Some (a_parent k)) \<union> closure_atoms (a_func k)"

fun cont_atoms :: "cont \<Rightarrow> atom set" where
  "cont_atoms (C_schedule a) = {A_kind K_cnt a}"
| "cont_atoms (C_unwrap a) = {A_kind K_state a}"
| "cont_atoms (C_detach a) = {A_strong a}"
| "cont_atoms (C_all a) = {A_strong a, A_kind K_all a}"
| "cont_atoms (C_any a _) = {A_strong a, A_kind K_any a}"
| "cont_atoms (C_wait _) = {}"
| "cont_atoms (C_user f) = closure_atoms f"
| "cont_atoms (C_post _ f) = closure_atoms f"
| "cont_atoms C_moved = {}"

definition conts_atoms :: "cont list \<Rightarrow> atom set" where
  "conts_atoms ks = (\<Union>k \<in> set ks. cont_atoms k)"

fun task_atoms :: "task \<Rightarrow> atom set" where
  "task_atoms (T_cnt p) = A_kind K_cnt ` set_option p"
| "task_atoms (T_task w) = handle_atoms (H_task w)"
| "task_atoms (T_user f) = closure_atoms f"

fun storage_atoms :: "'v storage \<Rightarrow> atom set" where
  "storage_atoms (S_fwd b) = future_atoms (Some b)"
| "storage_atoms _ = {}"

fun func_atoms :: "func_state \<Rightarrow> atom set" where
  "func_atoms (Fn_ready f) = closure_atoms f"
| "func_atoms _ = {}"

fun body_atoms :: "body \<Rightarrow> atom set" where
  "body_atoms B_plain = {}"
| "body_atoms (B_cancel f) = closure_atoms f"
| "body_atoms (B_cnt _ k) = (case k of None \<Rightarrow> {} | Some k \<Rightarrow> action_atoms k)"
| "body_atoms (B_task g) = func_atoms g"
| "body_atoms (B_all hs _) = handles_atoms hs"
| "body_atoms (B_any hs _ _) = handles_atoms hs"

definition obj_atoms :: "'v obj \<Rightarrow> atom set" where
  "obj_atoms w = storage_atoms (store w) \<union>
     (case conts w of None \<Rightarrow> {} | Some ks \<Rightarrow> conts_atoms ks) \<union> body_atoms (body w)"

fun ctx_atoms :: "user_ctx \<Rightarrow> atom set" where
  "ctx_atoms (U_set a _) = {A_kind K_state a}"
| "ctx_atoms _ = {}"

fun frame_atoms :: "'v frame \<Rightarrow> atom set" where
  "frame_atoms (F_user x _ hs) = ctx_atoms x \<union> handles_atoms hs"
| "frame_atoms (F_home hs) = handles_atoms hs"
| "frame_atoms (F_release a) = {A_strong a}"
| "frame_atoms (F_drop h) = handle_atoms h"
| "frame_atoms (F_drop_conts ks) = conts_atoms ks"
| "frame_atoms (F_drop_task k) = task_atoms k"
| "frame_atoms (F_emplace a _) = {A_writer a, A_kind K_state a}"
| "frame_atoms (F_set_exn a _) = {A_writer a, A_kind K_state a}"
| "frame_atoms (F_unwrap a p _) = insert (A_kind K_state a) (future_atoms p)"
| "frame_atoms (F_abandon a) = {A_writer a, A_kind K_state a}"
| "frame_atoms (F_execute a) = {}"
| "frame_atoms (F_loop ks ks') = conts_atoms ks \<union> conts_atoms ks'"
| "frame_atoms (F_post _ k) = task_atoms k"
| "frame_atoms (F_run a) = {A_kind K_cnt a}"
| "frame_atoms (F_apply k a) = {A_strong a, A_kind K_cnt a} \<union> action_atoms k"
| "frame_atoms (F_cnt_abandon a) = {A_writer a, A_kind K_cnt a}"
| "frame_atoms (F_clean_action a) = {A_writer a, A_kind K_cnt a}"
| "frame_atoms (F_task_run a) = {A_kind K_task a}"
| "frame_atoms (F_clean_func a hs) = insert (A_kind K_task a) (handles_atoms hs)"
| "frame_atoms (F_task_abandon a) = {A_kind K_task a}"
| "frame_atoms (F_subscribe_all a _) = {A_strong a, A_kind K_all a}"
| "frame_atoms (F_subscribe_any a _) = {A_strong a, A_kind K_any a}"
| "frame_atoms (F_notify_all a) = {A_kind K_all a}"
| "frame_atoms (F_notify_any a _) = {A_kind K_any a}"
| "frame_atoms (F_give h) = handle_atoms h"
| "frame_atoms (F_await _) = {}"
| "frame_atoms (F_get _) = {}"
| "frame_atoms (F_catch a) = {A_writer a, A_kind K_state a}"
| "frame_atoms F_noexcept = {}"
| "frame_atoms (F_raise _) = {}"

definition frames_atoms :: "'v frame list \<Rightarrow> atom set" where
  "frames_atoms fs = (\<Union>f \<in> set fs. frame_atoms f)"

definition heap_atoms :: "'v cfg \<Rightarrow> atom set" where
  "heap_atoms c = (\<Union>p \<in> set (heap c). case p of None \<Rightarrow> {} | Some w \<Rightarrow> obj_atoms w)"

definition atoms :: "'v cfg \<Rightarrow> atom set" where
  "atoms c = heap_atoms c \<union> (\<Union>p \<in> set (posted c). task_atoms (snd p)) \<union>
     (\<Union>fs \<in> set (stacks c). frames_atoms fs)"

definition owned :: "'v cfg \<Rightarrow> addr \<Rightarrow> bool" where
  "owned c a \<longleftrightarrow> A_strong a \<in> atoms c"

end
