(* ===== verification/Shared_State.thy ===== *)
theory Shared_State
  imports Heap
begin

text \<open>
  \<open>detail::shared_state\<close> of \<open>bits/shared_state.h\<close>, \<open>detail::continuations_stack\<close> and
  \<open>detail::wait\<close> of \<open>bits/portable_concurrency.cpp\<close>, and \<open>set_state_value\<close> of
  \<open>bits/utils.h\<close>. An operation on a state performs its accesses to the storage and
  the continuations stack and leaves the calls it makes as frames.

  A step of an operation has at most one access to the continuations stack, the
  only part of a state that several threads may access at a time; it is a step of
  the specification that the lock-free stack of \<open>Once_Stack\<close> refines.
\<close>

section \<open>Continuations stack\<close>

text \<open>
  \<open>push\<close>: a continuation that comes after \<open>execute\<close> is called at once, by the thread
  that pushes it, and destroyed after the call like a list of one.
\<close>

definition push :: "addr \<Rightarrow> cont \<Rightarrow> 'v op" where
  "push a k = with_obj a (\<lambda>w c. case conts w of
     Some ks \<Rightarrow> (set_obj a (w\<lparr>conts := Some (k # ks)\<rparr>) c, [])
   | None \<Rightarrow> (c, [F_loop [k] []]))"

definition execute :: "addr \<Rightarrow> 'v op" where
  "execute a = with_obj a (\<lambda>w c. case conts w of
     Some ks \<Rightarrow> (observe (E_ready a) (set_obj a (w\<lparr>conts := None\<rparr>) c), [F_loop ks []])
   | None \<Rightarrow> (c, []))"

definition executed :: "'v cfg \<Rightarrow> addr \<Rightarrow> bool" where
  "executed c a \<longleftrightarrow> (case obj_at c a of None \<Rightarrow> False | Some w \<Rightarrow> conts w = None)"

section \<open>Storage\<close>

fun is_empty :: "'v storage \<Rightarrow> bool" where
  "is_empty S_empty = True"
| "is_empty _ = False"

definition already_satisfied :: exn where
  "already_satisfied = Future_error Promise_already_satisfied"

definition broken_promise :: exn where
  "broken_promise = Future_error Broken_promise"

definition emplace :: "addr \<Rightarrow> 'v \<Rightarrow> 'v op" where
  "emplace a v = with_obj a (\<lambda>w c.
     if \<not> is_empty (store w) then (c, [F_raise already_satisfied])
     else (set_obj a (w\<lparr>store := S_value v\<rparr>) c, [F_execute a]))"

definition set_exception :: "addr \<Rightarrow> exn \<Rightarrow> 'v op" where
  "set_exception a e = with_obj a (\<lambda>w c.
     if \<not> is_empty (store w) then (c, [F_raise already_satisfied])
     else (set_obj a (w\<lparr>store := S_error e\<rparr>) c, [F_execute a]))"

fun forwards :: "'v storage \<Rightarrow> bool" where
  "forwards (S_fwd _) = True"
| "forwards _ = False"

definition abandon :: "addr \<Rightarrow> 'v op" where
  "abandon a = with_obj a (\<lambda>w c.
     if conts w \<noteq> None \<and> \<not> forwards (store w) then (c, [F_set_exn a broken_promise])
     else (c, []))"

text \<open>The destructor of the storage.\<close>

fun drop_storage :: "'v storage \<Rightarrow> 'v frame list" where
  "drop_storage (S_fwd b) = [F_release b]"
| "drop_storage _ = []"

text \<open>
  \<open>unwrap\<close> stores the inner state without a look at what the storage holds. The
  handlers of the callers' try blocks, if any, are below the calls.
\<close>

fun unwrap :: "addr \<Rightarrow> addr option \<Rightarrow> 'v op" where
  "unwrap a None c = (c, [F_set_exn a broken_promise])"
| "unwrap a (Some b) c = with_obj a (\<lambda>w c.
     let (c', fs) = push b (C_unwrap a) (set_obj a (w\<lparr>store := S_fwd b\<rparr>) c)
     in (c', drop_storage (store w) @ fs)) c"

text \<open>The continuation that \<open>unwrap\<close> leaves with the inner state.\<close>

definition unwrap_cont :: "addr \<Rightarrow> 'v op" where
  "unwrap_cont a = lock a [F_execute a]"

section \<open>Reading the result\<close>

text \<open>
  What \<open>value_ref\<close> and \<open>exception\<close> do: fail an assertion, throw, or return. They
  follow the states that are stored in the storage of other states, so that a
  cycle of states would make them loop; not returning is the value \<open>None\<close>. The
  overrides of \<open>when_all_state\<close> and \<open>when_any_state\<close> are their first two branches.
\<close>

datatype 'r access =
    Asserts
  | Throws exn
  | Gives 'r

partial_function (option) value_ref :: "'v cfg \<Rightarrow> addr \<Rightarrow> 'v vref access option" where
  "value_ref c a = (if \<not> executed c a then Some Asserts else
     case obj_at c a of None \<Rightarrow> Some Asserts | Some w \<Rightarrow>
     (case body w of
        B_all _ _ \<Rightarrow> Some (Gives (V_all a))
      | B_any _ _ _ \<Rightarrow> Some (Gives (V_any a))
      | _ \<Rightarrow> (case store w of
          S_empty \<Rightarrow> Some Asserts
        | S_value v \<Rightarrow> Some (Gives (V_value v))
        | S_fwd b \<Rightarrow> value_ref c b
        | S_error e \<Rightarrow> Some (Throws e))))"

partial_function (option) exception_of :: "'v cfg \<Rightarrow> addr \<Rightarrow> exn option access option" where
  "exception_of c a = (if \<not> executed c a then Some Asserts else
     case obj_at c a of None \<Rightarrow> Some Asserts | Some w \<Rightarrow>
     (case body w of
        B_all _ _ \<Rightarrow> Some (Gives None)
      | B_any _ _ _ \<Rightarrow> Some (Gives None)
      | _ \<Rightarrow> (case store w of
          S_empty \<Rightarrow> Some Asserts
        | S_value v \<Rightarrow> Some (Gives None)
        | S_fwd b \<Rightarrow> exception_of c b
        | S_error e \<Rightarrow> Some (Gives (Some e)))))"

declare value_ref.simps [code] exception_of.simps [code]

section \<open>Waiting\<close>

text \<open>
  \<open>wait\<close> pushes a continuation that sets the flag of this call and blocks until the
  flag is set.
\<close>

definition wait :: "addr \<Rightarrow> 'v op" where
  "wait a c = (let (c', fs) = push a (C_wait (length (waits c))) (c\<lparr>waits := waits c @ [a]\<rparr>)
     in (c', fs @ [F_await (length (waits c))]))"

definition wait_cont :: "nat \<Rightarrow> 'v op" where
  "wait_cont n c = (c\<lparr>signalled := insert n (signalled c)\<rparr>, [])"

section \<open>Storing the result of a function\<close>

text \<open>
  How a function of the user ends: with a value (for \<open>void\<close>, the unit that
  \<open>emplace()\<close> stores), with a future, or by an exception. \<open>set_state_value\<close> forwards
  each to the state. The overloads for \<open>future<void>\<close> and \<open>future<R&>\<close> never leave
  their try block (\<open>executed\<close> stays false, or is not there), the others do before
  they store the result.
\<close>

datatype 'v returned =
    R_value 'v
  | R_future "addr option"
  | R_throw exn

definition unwraps_in_try :: "closure \<Rightarrow> bool" where
  "unwraps_in_try f \<longleftrightarrow> wrap f \<noteq> Direct \<and> result f \<noteq> Object_result"

fun set_state_value :: "addr \<Rightarrow> bool \<Rightarrow> 'v returned \<Rightarrow> 'v frame list" where
  "set_state_value a t (R_value v) = [F_emplace a v]"
| "set_state_value a t (R_future p) = [F_unwrap a p t]"
| "set_state_value a t (R_throw e) = [F_set_exn a e]"

definition new_state :: "body \<Rightarrow> 'v obj" where
  "new_state b = \<lparr>store = S_empty, conts = Some [], body = b\<rparr>"

end
