(* ===== verification/Promise.thy ===== *)
theory Promise
  imports Shared_State
begin

text \<open>
  \<open>promise\<close>, \<open>detail::promise_common\<close> and \<open>make_promise\<close> of \<open>bits/promise.h\<close>, and the
  functions of \<open>bits/make_future.h\<close>. A promise is its \<open>state_\<close> member: before
  \<open>get_future\<close> it owns the state, afterwards it only observes it.
\<close>

section \<open>The members of promise-common\<close>

definition get_state :: "owner \<Rightarrow> 'v cfg \<Rightarrow> errc + addr option" where
  "get_state w c = (case w of
     No_owner \<Rightarrow> Inl No_state
   | Shared a \<Rightarrow> Inr (Some a)
   | Weak a \<Rightarrow> Inr (if alive c a then Some a else None))"

definition raise :: "errc \<Rightarrow> 'v op" where
  "raise e c = (c, [F_raise (Future_error e)])"

text \<open>\<open>set_value\<close> and \<open>set_exception\<close> do nothing when nobody can see the result.\<close>

definition promise_set_value :: "owner \<Rightarrow> 'v \<Rightarrow> 'v op" where
  "promise_set_value w v c = (case get_state w c of
     Inl e \<Rightarrow> raise e c
   | Inr None \<Rightarrow> (c, [])
   | Inr (Some a) \<Rightarrow> (c, [F_emplace a v, F_release a]))"

definition promise_set_exception :: "owner \<Rightarrow> exn \<Rightarrow> 'v op" where
  "promise_set_exception w x c = (case get_state w c of
     Inl e \<Rightarrow> raise e c
   | Inr None \<Rightarrow> (c, [])
   | Inr (Some a) \<Rightarrow> (c, [F_set_exn a x, F_release a]))"

definition promise_get_future :: "owner \<Rightarrow> errc + owner \<times> addr" where
  "promise_get_future w = (case w of
     Weak _ \<Rightarrow> Inl Future_already_retrieved
   | No_owner \<Rightarrow> Inl No_state
   | Shared a \<Rightarrow> Inr (Weak a, a))"

definition is_awaiten :: "owner \<Rightarrow> 'v cfg \<Rightarrow> errc + bool" where
  "is_awaiten w c = (case w of
     No_owner \<Rightarrow> Inl No_state
   | Shared _ \<Rightarrow> Inr True
   | Weak a \<Rightarrow> Inr (alive c a))"

text \<open>
  The destructor, also the first half of the move assignment: \<open>abandon\<close>, in a
  \<open>noexcept\<close> function, then the member \<open>state_\<close>.
\<close>

definition promise_abandon :: "owner \<Rightarrow> 'v op" where
  "promise_abandon w c = (case w of
     Weak a \<Rightarrow> lock a [F_abandon a] c
   | _ \<Rightarrow> (c, []))"

fun drop_owner :: "owner \<Rightarrow> 'v frame list" where
  "drop_owner (Shared a) = [F_release a]"
| "drop_owner _ = []"

definition promise_dtor :: "owner \<Rightarrow> 'v op" where
  "promise_dtor w c = (let (c', fs) = promise_abandon w c in (c', fs @ F_noexcept # drop_owner w))"

section \<open>Construction\<close>

definition promise_ctor :: "body \<Rightarrow> 'v cfg \<Rightarrow> 'v cfg \<times> handle" where
  "promise_ctor b c = (new_obj (new_state b) c, H_promise (Shared (fresh c)))"

definition make_promise :: "body \<Rightarrow> 'v cfg \<Rightarrow> 'v cfg \<times> handle \<times> handle" where
  "make_promise b c =
     (new_obj (new_state b) c, H_promise (Weak (fresh c)), H_future (Some (fresh c)))"

text \<open>The state of a promise with a cancel action, and without.\<close>

definition canceler_body :: "closure option \<Rightarrow> body" where
  "canceler_body p = (case p of None \<Rightarrow> B_plain | Some f \<Rightarrow> B_cancel f)"

definition make_ready_future :: "'v \<Rightarrow> 'v op" where
  "make_ready_future v c = (let (c', p, f) = make_promise B_plain c; a = fresh c
     in (c', [F_emplace a v, F_drop p, F_give f]))"

definition make_exceptional_future :: "exn \<Rightarrow> 'v op" where
  "make_exceptional_future e c = (let a = fresh c; (c', p) = promise_ctor B_plain c
     in (c', [F_set_exn a e, F_drop (H_promise (Weak a)), F_give (H_future (Some a))]))"

end
