(* ===== verification/Then_State.thy ===== *)
theory Then_State
  imports Promise
begin

text \<open>
  Continuations: \<open>cnt_state\<close>, \<open>cnt_action\<close>, \<open>make_then_state\<close> and the decorators of
  \<open>bits/then.hpp\<close>, with the closures of the interruptible overloads of \<open>then\<close> in
  \<open>bits/future.hpp\<close> and \<open>bits/shared_future.hpp\<close>.
\<close>

section \<open>Attaching\<close>

definition make_then_state :: "addr \<Rightarrow> exec \<Rightarrow> action \<Rightarrow> handle \<Rightarrow> 'v op" where
  "make_then_state p ex k h c =
     (let (c', fs) = push p (C_schedule (fresh c))
            (new_obj (new_state (B_cnt (Some ex) (Some k))) c)
      in (c', fs @ [F_give h]))"

text \<open>The future of the continuation: \<open>cnt_future_t\<close> depends on what the function returns.\<close>

definition cnt_future :: "closure \<Rightarrow> addr \<Rightarrow> handle" where
  "cnt_future f a = (case wrap f of Of_shared \<Rightarrow> H_shared (Some a) | _ \<Rightarrow> H_future (Some a))"

section \<open>Running\<close>

text \<open>
  The continuation that \<open>make_then_state\<close> leaves with the parent: take the executor
  out of the state, let go of the state, and post a \<open>cnt_action\<close>.
\<close>

definition schedule :: "addr \<Rightarrow> 'v op" where
  "schedule a c = (case obj_at c a of
     None \<Rightarrow> (c, [])
   | Some w \<Rightarrow> (case body w of
       B_cnt (Some ex) k \<Rightarrow>
         (set_obj a (w\<lparr>body := B_cnt None k\<rparr>) c, [F_release a, F_post ex (T_cnt (Some a))])
     | _ \<Rightarrow> crash_with Undefined_behaviour c))"

text \<open>\<open>cnt_state::run\<close> takes the action out of the state and calls it.\<close>

definition run_cnt :: "addr \<Rightarrow> 'v op" where
  "run_cnt a c = (case obj_at c a of
     None \<Rightarrow> (c, [])
   | Some w \<Rightarrow> (case body w of
       B_cnt ex (Some k) \<Rightarrow>
         (set_obj a (w\<lparr>body := B_cnt ex None\<rparr>) c, [F_apply k a, F_noexcept])
     | _ \<Rightarrow> crash_with Undefined_behaviour c))"

text \<open>
  The decorated functors, called with the state of the continuation. The functions
  of \<open>then\<close> get the parent as a future or shared future; those of \<open>next\<close> get its
  value, and an exception of the parent goes to the state directly. The parent and
  the function, members of the functor, are destroyed after the state is let go of
  at the end of \<open>run\<close>. The interruptible variants let go of the state first and
  call the function with a promise for it.
\<close>

definition apply_then :: "closure \<Rightarrow> addr \<Rightarrow> handle \<Rightarrow> 'v op" where
  "apply_then f a h c = (observe (E_call (code f)) c,
     [invoke f (U_set a (wrap f \<noteq> Direct)) [h], F_release a, F_home []])"

definition apply_next :: "closure \<Rightarrow> addr \<Rightarrow> addr \<Rightarrow> 'v op" where
  "apply_next f a p c = (case exception_of c p of
     Some (Gives (Some e)) \<Rightarrow> (c, [F_set_exn a e, F_release a, F_release p, F_home (caps f)])
   | Some (Gives None) \<Rightarrow> (case value_ref c p of
         Some (Gives r) \<Rightarrow> (observe (E_arg r) (observe (E_call (code f)) c),
           [invoke f (U_set a (wrap f \<noteq> Direct)) [], F_release a, F_release p, F_home []])
       | _ \<Rightarrow> crash_with Undefined_behaviour c)
   | _ \<Rightarrow> crash_with Undefined_behaviour c)"

definition apply_void_next :: "closure \<Rightarrow> addr \<Rightarrow> addr \<Rightarrow> 'v op" where
  "apply_void_next f a p c = (case exception_of c p of
     Some (Gives (Some e)) \<Rightarrow> (c, [F_set_exn a e, F_release a, F_release p, F_home (caps f)])
   | Some (Gives None) \<Rightarrow> (observe (E_call (code f)) c,
       [invoke f (U_set a (wrap f \<noteq> Direct)) [], F_release a, F_release p, F_home []])
   | _ \<Rightarrow> crash_with Undefined_behaviour c)"

definition apply_interruptible :: "closure \<Rightarrow> addr \<Rightarrow> handle \<Rightarrow> 'v op" where
  "apply_interruptible f a h c = (observe (E_call (code f)) c,
     [F_release a, invoke f U_call [H_promise (Weak a), h], F_home []])"

definition apply_action :: "action \<Rightarrow> addr \<Rightarrow> 'v op" where
  "apply_action k a = (case a_deco k of
     Unique_then \<Rightarrow> apply_then (a_func k) a (H_future (Some (a_parent k)))
   | Shared_then \<Rightarrow> apply_then (a_func k) a (H_shared (Some (a_parent k)))
   | Unique_next \<Rightarrow> apply_next (a_func k) a (a_parent k)
   | Shared_next \<Rightarrow> apply_next (a_func k) a (a_parent k)
   | Void_next \<Rightarrow> apply_void_next (a_func k) a (a_parent k)
   | Unique_interrupt \<Rightarrow> apply_interruptible (a_func k) a (H_future (Some (a_parent k)))
   | Shared_interrupt \<Rightarrow> apply_interruptible (a_func k) a (H_shared (Some (a_parent k))))"

section \<open>Abandoning\<close>

text \<open>The members of the functor, destroyed last first.\<close>

definition drop_action :: "action option \<Rightarrow> 'v frame list" where
  "drop_action p = (case p of
     None \<Rightarrow> []
   | Some k \<Rightarrow> [F_release (a_parent k), F_home (caps (a_func k))])"

definition cnt_abandon :: "addr \<Rightarrow> 'v op" where
  "cnt_abandon a c = (c, [F_abandon a, F_clean_action a])"

definition clean_action :: "addr \<Rightarrow> 'v op" where
  "clean_action a = with_obj a (\<lambda>w c. case body w of
     B_cnt ex k \<Rightarrow> (set_obj a (w\<lparr>body := B_cnt ex None\<rparr>) c, drop_action k)
   | _ \<Rightarrow> crash_with Undefined_behaviour c)"

text \<open>The destructor of \<open>cnt_action\<close>.\<close>

definition cnt_action_dtor :: "addr option \<Rightarrow> 'v op" where
  "cnt_action_dtor p c = (case p of
     None \<Rightarrow> (c, [])
   | Some a \<Rightarrow> (let (c', fs) = lock a [F_cnt_abandon a] c in (c', fs @ [F_noexcept])))"

end
