(* ===== verification/Task.thy ===== *)
theory Task
  imports Then_State
begin

text \<open>
  \<open>packaged_task\<close> and \<open>detail::task_state\<close> of \<open>bits/packaged_task.h\<close>, and \<open>async\<close> of
  \<open>bits/async.h\<close>. Like a promise, a task owns its state until \<open>get_future\<close> and observes
  it afterwards.
\<close>

section \<open>The state of a task\<close>

text \<open>
  \<open>run\<close>: the function is called in place and cleaned at the end of the scope. To call
  or destroy it while it is being called is undefined behaviour.
\<close>

definition task_run :: "addr \<Rightarrow> 'v op" where
  "task_run a = with_obj a (\<lambda>w c. case body w of
     B_task Fn_empty \<Rightarrow> (c, [F_raise already_satisfied])
   | B_task (Fn_ready f) \<Rightarrow>
       (observe (E_call (code f)) (set_obj a (w\<lparr>body := B_task Fn_running\<rparr>) c),
        [invoke f (U_set a (unwraps_in_try f)) [], F_clean_func a []])
   | _ \<Rightarrow> crash_with Undefined_behaviour c)"

text \<open>The scope guard of \<open>run\<close>, with the captures that the call left.\<close>

definition clean_func :: "addr \<Rightarrow> handle list \<Rightarrow> 'v op" where
  "clean_func a hs = with_obj a (\<lambda>w c. case body w of
     B_task _ \<Rightarrow> (set_obj a (w\<lparr>body := B_task Fn_empty\<rparr>) c, [F_home hs])
   | _ \<Rightarrow> crash_with Undefined_behaviour c)"

definition task_abandon :: "addr \<Rightarrow> 'v op" where
  "task_abandon a = with_obj a (\<lambda>w c. case body w of
     B_task Fn_empty \<Rightarrow> (c, [F_abandon a])
   | B_task (Fn_ready f) \<Rightarrow>
       (set_obj a (w\<lparr>body := B_task Fn_empty\<rparr>) c, [F_home (caps f), F_abandon a])
   | _ \<Rightarrow> crash_with Undefined_behaviour c)"

section \<open>The task object\<close>

definition packaged_task :: "closure \<Rightarrow> 'v cfg \<Rightarrow> 'v cfg \<times> handle" where
  "packaged_task f c = (new_obj (new_state (B_task (Fn_ready f))) c, H_task (Shared (fresh c)))"

definition task_get_future :: "owner \<Rightarrow> errc + owner \<times> addr" where
  "task_get_future w = (case w of
     Weak _ \<Rightarrow> Inl Future_already_retrieved
   | No_owner \<Rightarrow> Inl No_state
   | Shared a \<Rightarrow> Inr (Weak a, a))"

definition task_call :: "owner \<Rightarrow> 'v op" where
  "task_call w c = (case w of
     No_owner \<Rightarrow> raise No_state c
   | Shared a \<Rightarrow> (c, [F_task_run a, F_release a])
   | Weak a \<Rightarrow> lock a [F_task_run a] c)"

definition task_valid :: "owner \<Rightarrow> bool" where
  "task_valid w \<longleftrightarrow> w \<noteq> No_owner"

text \<open>The destructor, also the first half of the move assignment.\<close>

definition task_dtor :: "owner \<Rightarrow> 'v op" where
  "task_dtor w c = (case w of
     No_owner \<Rightarrow> (c, [])
   | Shared a \<Rightarrow> (c, [F_task_abandon a, F_noexcept, F_release a])
   | Weak a \<Rightarrow> (let (c', fs) = lock a [F_task_abandon a] c in (c', fs @ [F_noexcept])))"

section \<open>async\<close>

definition async :: "exec \<Rightarrow> closure \<Rightarrow> 'v op" where
  "async ex f c = (let a = fresh c; (c', h) = packaged_task f c
     in (c', [F_post ex (T_task (Weak a)), F_give (cnt_future f a)]))"

end
