(* ===== verification/When.thy ===== *)
theory When
  imports Promise
begin

text \<open>
  \<open>when_all_state\<close> of \<open>bits/when_all.h\<close>, \<open>when_any_state\<close> of \<open>bits/when_any.h\<close> and
  the iteration over futures of \<open>bits/future_sequence.h\<close>.
\<close>

section \<open>Sequences of futures\<close>

definition size_max :: nat where
  "size_max = 2 ^ 64"

text \<open>\<open>state_of\<close>\<close>

fun state_of :: "handle \<Rightarrow> addr option" where
  "state_of (H_future p) = p"
| "state_of (H_shared p) = p"
| "state_of _ = None"

section \<open>when\_all\<close>

text \<open>
  The counter has one unit for each future and one for the subscription itself; who
  takes the last one executes the continuations.
\<close>

definition when_all_make :: "handle list \<Rightarrow> 'v op" where
  "when_all_make hs c =
     (new_obj (new_state (B_all hs ((length hs + 1) mod size_max))) c, [F_subscribe_all (fresh c) 0])"

text \<open>The overload for a range; \<open>v\<close> is the empty sequence.\<close>

definition when_all_range :: "handle list \<Rightarrow> 'v \<Rightarrow> 'v op" where
  "when_all_range hs v = (if hs = [] then make_ready_future v else when_all_make hs)"

definition subscribe_all :: "addr \<Rightarrow> nat \<Rightarrow> 'v op" where
  "subscribe_all a i = with_obj a (\<lambda>w c. case body w of
     B_all hs n \<Rightarrow>
       if i < length hs then
         (case state_of (hs ! i) of
            None \<Rightarrow> crash_with Undefined_behaviour c
          | Some b \<Rightarrow> (let (c', fs) = push b (C_all a) c in (c', fs @ [F_subscribe_all a (i + 1)])))
       else (c, [F_notify_all a, F_give (H_future (Some a))])
   | _ \<Rightarrow> crash_with Undefined_behaviour c)"

definition notify_all :: "addr \<Rightarrow> 'v op" where
  "notify_all a = with_obj a (\<lambda>w c. case body w of
     B_all hs n \<Rightarrow> (let n' = (n + size_max - 1) mod size_max in
       (set_obj a (w\<lparr>body := B_all hs n'\<rparr>) c, if n' \<noteq> 0 then [] else [F_execute a]))
   | _ \<Rightarrow> crash_with Undefined_behaviour c)"

section \<open>when\_any\<close>

text \<open>The first notification sets the flag and the index; an empty sequence has the index \<open>size_t(-1)\<close>.\<close>

definition when_any_make :: "handle list \<Rightarrow> 'v op" where
  "when_any_make hs c =
     (new_obj (new_state (B_any hs (size_max - 1) False)) c, [F_subscribe_any (fresh c) 0])"

definition subscribe_any :: "addr \<Rightarrow> nat \<Rightarrow> 'v op" where
  "subscribe_any a i = with_obj a (\<lambda>w c. case body w of
     B_any hs n r \<Rightarrow>
       if i < length hs then
         (case state_of (hs ! i) of
            None \<Rightarrow> crash_with Undefined_behaviour c
          | Some b \<Rightarrow> (let (c', fs) = push b (C_any a i) c in (c', fs @ [F_subscribe_any a (i + 1)])))
       else (c, (if length hs = 0 then [F_execute a] else []) @ [F_give (H_future (Some a))])
   | _ \<Rightarrow> crash_with Undefined_behaviour c)"

definition notify_any :: "addr \<Rightarrow> nat \<Rightarrow> 'v op" where
  "notify_any a i = with_obj a (\<lambda>w c. case body w of
     B_any hs n r \<Rightarrow>
       if r then (c, [])
       else (set_obj a (w\<lparr>body := B_any hs i True\<rparr>) c, [F_execute a])
   | _ \<Rightarrow> crash_with Undefined_behaviour c)"

end
