(* ===== verification/Future.thy ===== *)
theory Future
  imports Task When
begin

text \<open>
  The member functions of \<open>future\<close> (\<open>bits/future.hpp\<close>, here \<open>unique_\<close>) and of
  \<open>shared_future\<close> (\<open>bits/shared_future.hpp\<close>, here \<open>shared_\<close>) on their pointer \<open>state_\<close>. The
  closures that are passed to a call that throws are destroyed with the call's
  arguments. Functions on handles choose between the two classes.
\<close>

section \<open>Observers\<close>

definition no_state :: "handle list \<Rightarrow> 'v op" where
  "no_state hs c = (c, [F_raise (Future_error No_state), F_home hs])"

definition unique_valid :: "addr option \<Rightarrow> bool" where
  "unique_valid p \<longleftrightarrow> p \<noteq> None"

definition shared_valid :: "addr option \<Rightarrow> bool" where
  "shared_valid p \<longleftrightarrow> p \<noteq> None"

definition unique_is_ready :: "addr option \<Rightarrow> 'v op" where
  "unique_is_ready p c = (case p of
     None \<Rightarrow> no_state [] c
   | Some a \<Rightarrow> (observe (E_bool (executed c a)) c, []))"

definition shared_is_ready :: "addr option \<Rightarrow> 'v op" where
  "shared_is_ready p c = (case p of
     None \<Rightarrow> no_state [] c
   | Some a \<Rightarrow> (observe (E_bool (executed c a)) c, []))"

definition unique_wait :: "addr option \<Rightarrow> 'v op" where
  "unique_wait p c = (case p of None \<Rightarrow> no_state [] c | Some a \<Rightarrow> wait a c)"

definition shared_wait :: "addr option \<Rightarrow> 'v op" where
  "shared_wait p c = (case p of None \<Rightarrow> no_state [] c | Some a \<Rightarrow> wait a c)"

text \<open>\<open>get\<close> waits and then reads the value; \<open>i\<close> is the variable of the receiver.\<close>

definition unique_get :: "nat \<Rightarrow> addr option \<Rightarrow> 'v op" where
  "unique_get i p c = (case p of
     None \<Rightarrow> no_state [] c
   | Some _ \<Rightarrow> (let (c', fs) = unique_wait p c in (c', fs @ [F_get i])))"

definition shared_get :: "nat \<Rightarrow> addr option \<Rightarrow> 'v op" where
  "shared_get i p c = (case p of
     None \<Rightarrow> no_state [] c
   | Some _ \<Rightarrow> (let (c', fs) = shared_wait p c in (c', fs @ [F_get i])))"

section \<open>Moves\<close>

text \<open>What a moved-from object is.\<close>

fun moved :: "handle \<Rightarrow> handle" where
  "moved (H_promise _) = H_promise No_owner"
| "moved (H_task _) = H_task No_owner"
| "moved (H_future _) = H_future None"
| "moved (H_shared _) = H_shared None"
| "moved H_gone = H_gone"

text \<open>The constructor of a shared future from a future, which \<open>share\<close> calls.\<close>

definition shared_future :: "addr option \<Rightarrow> handle" where
  [simp]: "shared_future p = H_shared p"

fun share :: "handle \<Rightarrow> handle" where
  "share (H_future p) = shared_future p"
| "share h = h"

section \<open>Notifications\<close>

definition unique_notify :: "addr option \<Rightarrow> closure \<Rightarrow> 'v op" where
  "unique_notify p f c = (case p of
     None \<Rightarrow> no_state (caps f) c
   | Some a \<Rightarrow> push a (C_user f) c)"

definition shared_notify :: "addr option \<Rightarrow> closure \<Rightarrow> 'v op" where
  "shared_notify p f c = (case p of
     None \<Rightarrow> no_state (caps f) c
   | Some a \<Rightarrow> push a (C_user f) c)"

definition unique_notify_on :: "addr option \<Rightarrow> exec \<Rightarrow> closure \<Rightarrow> 'v op" where
  "unique_notify_on p ex f c = (case p of
     None \<Rightarrow> no_state (caps f) c
   | Some a \<Rightarrow> push a (C_post ex f) c)"

definition shared_notify_on :: "addr option \<Rightarrow> exec \<Rightarrow> closure \<Rightarrow> 'v op" where
  "shared_notify_on p ex f c = (case p of
     None \<Rightarrow> no_state (caps f) c
   | Some a \<Rightarrow> push a (C_post ex f) c)"

text \<open>
  \<open>detach\<close> adds a continuation that holds the state until it is ready, and moves the
  future into the result.
\<close>

definition unique_detach :: "addr option \<Rightarrow> 'v op" where
  "unique_detach p c = (case p of
     None \<Rightarrow> no_state [] c
   | Some a \<Rightarrow> (let (c', fs) = push a (C_detach a) c in (c', fs @ [F_give (H_future p)])))"

definition shared_detach :: "addr option \<Rightarrow> 'v op" where
  "shared_detach p c = (case p of
     None \<Rightarrow> no_state [] c
   | Some a \<Rightarrow> (let (c', fs) = push a (C_detach a) c in (c', fs @ [F_give (H_shared p)])))"

text \<open>
  The functions of a coroutine's awaiter that are not just another name: the handle
  of the coroutine, a function object, is added like a notification. The state is not
  checked; the compiler's code has asked \<open>await_ready\<close> before.
\<close>

definition unique_await_suspend :: "addr \<Rightarrow> closure \<Rightarrow> 'v op" where
  "unique_await_suspend a f = push a (C_user f)"

definition shared_await_suspend :: "addr \<Rightarrow> closure \<Rightarrow> 'v op" where
  "shared_await_suspend a f = push a (C_user f)"

section \<open>Continuations\<close>

definition attach :: "deco \<Rightarrow> handle \<Rightarrow> exec \<Rightarrow> closure \<Rightarrow> handle \<Rightarrow> 'v op" where
  "attach d h ex f g c = (case state_of h of
     None \<Rightarrow> no_state (caps f) c
   | Some p \<Rightarrow> make_then_state p ex \<lparr>a_deco = d, a_func = f, a_parent = p\<rparr> g c)"

text \<open>
  Each gives what the receiver is after the call and the call itself. \<open>then\<close> and \<open>next\<close>
  move the state out of a future, and copy the pointer of a shared future; the
  interruptible \<open>then\<close> moves the state out of both. \<open>vd\<close> selects the specialisation
  for \<open>void\<close>.
\<close>

definition unique_then :: "addr option \<Rightarrow> exec \<Rightarrow> closure \<Rightarrow> 'v cfg \<Rightarrow> handle \<times> 'v cfg \<times> 'v frame list" where
  "unique_then p ex f c =
     (H_future None, attach Unique_then (H_future p) ex f (cnt_future f (fresh c)) c)"

definition shared_then :: "addr option \<Rightarrow> exec \<Rightarrow> closure \<Rightarrow> 'v cfg \<Rightarrow> handle \<times> 'v cfg \<times> 'v frame list" where
  "shared_then p ex f c =
     (H_shared p, attach Shared_then (H_shared p) ex f (cnt_future f (fresh c)) c)"

definition unique_then_promise ::
    "addr option \<Rightarrow> exec \<Rightarrow> closure \<Rightarrow> 'v cfg \<Rightarrow> handle \<times> 'v cfg \<times> 'v frame list" where
  "unique_then_promise p ex f c =
     (H_future None, attach Unique_interrupt (H_future p) ex f (H_future (Some (fresh c))) c)"

definition shared_then_promise ::
    "addr option \<Rightarrow> exec \<Rightarrow> closure \<Rightarrow> 'v cfg \<Rightarrow> handle \<times> 'v cfg \<times> 'v frame list" where
  "shared_then_promise p ex f c =
     (H_shared None, attach Shared_interrupt (H_shared p) ex f (H_future (Some (fresh c))) c)"

definition unique_next ::
    "addr option \<Rightarrow> bool \<Rightarrow> exec \<Rightarrow> closure \<Rightarrow> 'v cfg \<Rightarrow> handle \<times> 'v cfg \<times> 'v frame list" where
  "unique_next p vd ex f c =
     (H_future None, attach (if vd then Void_next else Unique_next) (H_future p) ex f (cnt_future f (fresh c)) c)"

definition shared_next ::
    "addr option \<Rightarrow> bool \<Rightarrow> exec \<Rightarrow> closure \<Rightarrow> 'v cfg \<Rightarrow> handle \<times> 'v cfg \<times> 'v frame list" where
  "shared_next p vd ex f c =
     (H_shared p, attach (if vd then Void_next else Shared_next) (H_shared p) ex f (cnt_future f (fresh c)) c)"

section \<open>Functions on handles\<close>

text \<open>Overload resolution between the two classes.\<close>

definition on_future :: "handle \<Rightarrow> (addr option \<Rightarrow> 'a) \<Rightarrow> (addr option \<Rightarrow> 'a) \<Rightarrow> 'a" where
  "on_future h u s = (case h of H_shared p \<Rightarrow> s p | _ \<Rightarrow> u (state_of h))"

definition valid :: "handle \<Rightarrow> bool" where
  "valid h = on_future h unique_valid shared_valid"

definition is_ready :: "handle \<Rightarrow> 'v op" where
  "is_ready h = on_future h unique_is_ready shared_is_ready"

definition future_wait :: "handle \<Rightarrow> 'v op" where
  "future_wait h = on_future h unique_wait shared_wait"

definition future_get :: "nat \<Rightarrow> handle \<Rightarrow> 'v op" where
  "future_get i h = on_future h (unique_get i) (shared_get i)"

definition notify :: "handle \<Rightarrow> closure \<Rightarrow> 'v op" where
  "notify h = on_future h unique_notify shared_notify"

definition notify_on :: "handle \<Rightarrow> exec \<Rightarrow> closure \<Rightarrow> 'v op" where
  "notify_on h = on_future h unique_notify_on shared_notify_on"

definition detach :: "handle \<Rightarrow> 'v op" where
  "detach h = on_future h unique_detach shared_detach"

definition await_suspend :: "handle \<Rightarrow> closure \<Rightarrow> 'v op" where
  "await_suspend h f = (case state_of h of
     None \<Rightarrow> crash_with Undefined_behaviour
   | Some a \<Rightarrow> on_future h (\<lambda>_. unique_await_suspend a f) (\<lambda>_. shared_await_suspend a f))"

definition future_then :: "handle \<Rightarrow> exec \<Rightarrow> closure \<Rightarrow> 'v cfg \<Rightarrow> handle \<times> 'v cfg \<times> 'v frame list" where
  "future_then h = on_future h unique_then shared_then"

definition future_then_promise ::
    "handle \<Rightarrow> exec \<Rightarrow> closure \<Rightarrow> 'v cfg \<Rightarrow> handle \<times> 'v cfg \<times> 'v frame list" where
  "future_then_promise h = on_future h unique_then_promise shared_then_promise"

definition future_next ::
    "handle \<Rightarrow> bool \<Rightarrow> exec \<Rightarrow> closure \<Rightarrow> 'v cfg \<Rightarrow> handle \<times> 'v cfg \<times> 'v frame list" where
  "future_next h = on_future h unique_next shared_next"

text \<open>What the two classes have in common.\<close>

definition after_attach :: "deco \<Rightarrow> handle \<Rightarrow> handle" where
  "after_attach d h = (case h of
     H_shared p \<Rightarrow> if d = Shared_interrupt then H_shared None else h
   | _ \<Rightarrow> H_future None)"

lemma future_eq:
  "valid h \<longleftrightarrow> state_of h \<noteq> None"
  "is_ready h c = (case state_of h of
     None \<Rightarrow> no_state [] c | Some a \<Rightarrow> (observe (E_bool (executed c a)) c, []))"
  "future_wait h c = (case state_of h of None \<Rightarrow> no_state [] c | Some a \<Rightarrow> wait a c)"
  "future_get i h c = (case state_of h of
     None \<Rightarrow> no_state [] c | Some a \<Rightarrow> (let (c', fs) = wait a c in (c', fs @ [F_get i])))"
  "notify h f c = (case state_of h of None \<Rightarrow> no_state (caps f) c | Some a \<Rightarrow> push a (C_user f) c)"
  "notify_on h ex f c = (case state_of h of None \<Rightarrow> no_state (caps f) c | Some a \<Rightarrow> push a (C_post ex f) c)"
  by (cases h; auto simp: on_future_def valid_def unique_valid_def shared_valid_def is_ready_def unique_is_ready_def
      shared_is_ready_def future_wait_def unique_wait_def shared_wait_def future_get_def unique_get_def shared_get_def
      notify_def unique_notify_def shared_notify_def notify_on_def unique_notify_on_def shared_notify_on_def
      split: option.splits)+

lemma detach_eq:
  "detach h c = (case state_of h of
     None \<Rightarrow> no_state [] c
   | Some a \<Rightarrow> (let (c', fs) = push a (C_detach a) c in (c', fs @ [F_give h])))"
  by (cases h) (auto simp: detach_def on_future_def unique_detach_def shared_detach_def split: option.splits)

lemma await_suspend_eq: "state_of h = Some a \<Longrightarrow> await_suspend h f = push a (C_user f)"
  by (cases h) (auto simp: await_suspend_def on_future_def unique_await_suspend_def shared_await_suspend_def)

lemma await_suspend_notify: "valid h \<Longrightarrow> await_suspend h f c = notify h f c"
  by (auto simp: future_eq await_suspend_eq)

lemma attach_other: "state_of h = None \<Longrightarrow> attach d h ex f g = attach d (H_future None) ex f g"
  by (simp add: attach_def fun_eq_iff)

lemma future_then_eq:
  "future_then h ex f c =
     (let d = (case h of H_shared _ \<Rightarrow> Shared_then | _ \<Rightarrow> Unique_then)
      in (after_attach d h, attach d h ex f (cnt_future f (fresh c)) c))"
  "future_then_promise h ex f c =
     (let d = (case h of H_shared _ \<Rightarrow> Shared_interrupt | _ \<Rightarrow> Unique_interrupt)
      in (after_attach d h, attach d h ex f (H_future (Some (fresh c))) c))"
  "future_next h vd ex f c =
     (let d = (if vd then Void_next else case h of H_shared _ \<Rightarrow> Shared_next | _ \<Rightarrow> Unique_next)
      in (after_attach d h, attach d h ex f (cnt_future f (fresh c)) c))"
  by (simp_all add: attach_other [of "H_promise _"] attach_other [of "H_task _"] attach_other [of H_gone]
      future_then_def unique_then_def shared_then_def future_then_promise_def unique_then_promise_def
      shared_then_promise_def future_next_def unique_next_def shared_next_def after_attach_def on_future_def
      Let_def split: handle.split)

end
