(* ===== verification/Machine.thy ===== *)
theory Machine
  imports Future
begin

text \<open>
  The future machine: threads that run user code, which calls the library, whose
  calls are the frames of \<open>Heap\<close>. A step of a thread performs its top frame; when
  that is user code, the step is a command, an input of the machine. Threads are
  interleaved at the accesses of the library to shared memory.
\<close>

section \<open>Destructors\<close>

definition handle_dtor :: "handle \<Rightarrow> 'v op" where
  "handle_dtor h c = (case h of
     H_promise w \<Rightarrow> promise_dtor w c
   | H_task w \<Rightarrow> task_dtor w c
   | H_future p \<Rightarrow> (c, case p of None \<Rightarrow> [] | Some a \<Rightarrow> [F_release a])
   | H_shared p \<Rightarrow> (c, case p of None \<Rightarrow> [] | Some a \<Rightarrow> [F_release a])
   | H_gone \<Rightarrow> (c, []))"

definition drop_handles :: "handle list \<Rightarrow> 'v frame list" where
  "drop_handles hs = map F_drop (rev hs)"

definition cont_dtor :: "cont \<Rightarrow> 'v frame list" where
  "cont_dtor k = (case k of
     C_detach a \<Rightarrow> [F_release a]
   | C_all a \<Rightarrow> [F_release a]
   | C_any a _ \<Rightarrow> [F_release a]
   | C_user f \<Rightarrow> [F_home (caps f)]
   | C_post _ f \<Rightarrow> [F_home (caps f)]
   | _ \<Rightarrow> [])"

text \<open>A list of continuations destroys its nodes first to last.\<close>

fun drop_conts :: "cont list \<Rightarrow> 'v frame list" where
  "drop_conts [] = []"
| "drop_conts (k # ks) = cont_dtor k @ [F_drop_conts ks]"

definition task_dtor_frames :: "task \<Rightarrow> 'v op" where
  "task_dtor_frames k c = (case k of
     T_cnt p \<Rightarrow> cnt_action_dtor p c
   | T_task w \<Rightarrow> task_dtor w c
   | T_user f \<Rightarrow> (c, [F_home (caps f)]))"

text \<open>
  The destructor of a state: the body of \<open>~cancellable_state\<close>, then the members of
  the derived class and of \<open>shared_state\<close>, last declared first.
\<close>

definition state_dtor :: "'v obj \<Rightarrow> 'v frame list" where
  "state_dtor w = (case conts w of None \<Rightarrow> [] | Some ks \<Rightarrow> [F_drop_conts ks]) @ drop_storage (store w)"

definition obj_dtor :: "'v obj \<Rightarrow> 'v op" where
  "obj_dtor w c = (case body w of
     B_plain \<Rightarrow> (c, state_dtor w)
   | B_cancel f \<Rightarrow>
       if conts w \<noteq> None
       then (observe (E_call (code f)) c, [invoke f U_call [], F_noexcept, F_home []] @ state_dtor w)
       else (c, F_home (caps f) # state_dtor w)
   | B_cnt _ k \<Rightarrow> (c, state_dtor w @ drop_action k)
   | B_task (Fn_ready f) \<Rightarrow> (c, state_dtor w @ [F_home (caps f)])
   | B_task _ \<Rightarrow> (c, state_dtor w)
   | B_all hs _ \<Rightarrow> (c, state_dtor w @ map F_drop hs)
   | B_any hs _ _ \<Rightarrow> (c, state_dtor w @ map F_drop hs))"

text \<open>
  The end of a shared pointer's life, performed after it is gone: the last one
  destroys the object. While the destructor runs no weak pointer can be locked.
\<close>

definition release :: "addr \<Rightarrow> 'v op" where
  "release a c = (if owned c a then (c, []) else
     case obj_at c a of
       None \<Rightarrow> crash_with Use_after_free c
     | Some w \<Rightarrow> obj_dtor w (observe (E_dead a) (kill a c)))"

section \<open>Calls through type-erased functions\<close>

definition call_closure :: "closure \<Rightarrow> 'v op" where
  "call_closure f c = (observe (E_call (code f)) c, [invoke f U_call []])"

definition call_cont :: "cont \<Rightarrow> 'v op" where
  "call_cont k = (case k of
     C_schedule a \<Rightarrow> schedule a
   | C_unwrap a \<Rightarrow> unwrap_cont a
   | C_detach _ \<Rightarrow> (\<lambda>c. (c, []))
   | C_all a \<Rightarrow> (\<lambda>c. (c, [F_notify_all a]))
   | C_any a i \<Rightarrow> (\<lambda>c. (c, [F_notify_any a i]))
   | C_wait n \<Rightarrow> wait_cont n
   | C_user f \<Rightarrow> call_closure f
   | C_post Inplace f \<Rightarrow> call_closure f
   | C_post (Executor n) f \<Rightarrow> (\<lambda>c. (c, [F_post (Executor n) (T_user f)]))
   | C_moved \<Rightarrow> (\<lambda>c. (c, [])))"

text \<open>
  What a called continuation leaves in its node: a notification's captures are with
  the call until it returns.
\<close>

definition no_caps :: "closure \<Rightarrow> closure" where
  "no_caps f = f\<lparr>caps := []\<rparr>"

definition called_cont :: "cont \<Rightarrow> cont" where
  "called_cont k = (case k of
     C_user f \<Rightarrow> C_user (no_caps f)
   | C_post Inplace f \<Rightarrow> C_post Inplace (no_caps f)
   | C_post (Executor _) _ \<Rightarrow> C_moved
   | k' \<Rightarrow> k')"

text \<open>
  The loop of \<open>continuations_stack::execute\<close>. The list is destroyed after the loop,
  not node by node.
\<close>

fun loop :: "cont list \<Rightarrow> cont list \<Rightarrow> 'v op" where
  "loop [] done c = (c, [F_drop_conts done])"
| "loop (k # ks) done c = (let (c', fs) = call_cont k c in (c', fs @ [F_loop ks (done @ [called_cont k])]))"

text \<open>
  A function object that an executor received is called once and then destroyed.
  The inplace executor does it at once.
\<close>

definition run_task :: "task \<Rightarrow> 'v op" where
  "run_task k c = (case k of
     T_cnt None \<Rightarrow> (c, [F_drop_task k])
   | T_cnt (Some a) \<Rightarrow> (c, [F_run a, F_drop_task (T_cnt None)])
   | T_task w \<Rightarrow> (let (c', fs) = task_call w c in (c', fs @ [F_drop_task k]))
   | T_user f \<Rightarrow> (let (c', fs) = call_closure f c in (c', fs @ [F_home []])))"

definition post :: "exec \<Rightarrow> task \<Rightarrow> 'v op" where
  "post ex k c = (case ex of
     Inplace \<Rightarrow> run_task k c
   | Executor n \<Rightarrow> (c\<lparr>posted := posted c @ [(n, k)]\<rparr>, []))"

section \<open>Library frames\<close>

text \<open>The frames whose effect does not depend on the frames below.\<close>

fun perform :: "'v frame \<Rightarrow> 'v op" where
  "perform (F_home hs) c = (c, drop_handles hs)"
| "perform (F_release a) c = release a c"
| "perform (F_drop h) c = handle_dtor h c"
| "perform (F_drop_conts ks) c = (c, drop_conts ks)"
| "perform (F_drop_task k) c = task_dtor_frames k c"
| "perform (F_emplace a v) c = emplace a v c"
| "perform (F_set_exn a e) c = set_exception a e c"
| "perform (F_unwrap a p t) c = (let (c', fs) = unwrap a p c in (c', fs @ (if t then [F_catch a] else [])))"
| "perform (F_abandon a) c = abandon a c"
| "perform (F_execute a) c = execute a c"
| "perform (F_loop ks done) c = loop ks done c"
| "perform (F_post ex k) c = post ex k c"
| "perform (F_run a) c = run_cnt a c"
| "perform (F_apply k a) c = apply_action k a c"
| "perform (F_cnt_abandon a) c = cnt_abandon a c"
| "perform (F_clean_action a) c = clean_action a c"
| "perform (F_task_run a) c = task_run a c"
| "perform (F_clean_func a hs) c = clean_func a hs c"
| "perform (F_task_abandon a) c = task_abandon a c"
| "perform (F_subscribe_all a i) c = subscribe_all a i c"
| "perform (F_subscribe_any a i) c = subscribe_any a i c"
| "perform (F_notify_all a) c = notify_all a c"
| "perform (F_notify_any a i) c = notify_any a i c"
| "perform _ c = (c, [])"

text \<open>
  Unwinding: what an exception leaves of a frame. Local objects are destroyed,
  pending calls are not made.
\<close>

fun cleanup :: "'v frame \<Rightarrow> 'v frame list" where
  "cleanup (F_home hs) = [F_home hs]"
| "cleanup (F_release a) = [F_release a]"
| "cleanup (F_drop h) = [F_drop h]"
| "cleanup (F_drop_conts ks) = [F_drop_conts ks]"
| "cleanup (F_drop_task k) = [F_drop_task k]"
| "cleanup (F_unwrap _ p _) = (case p of None \<Rightarrow> [] | Some b \<Rightarrow> [F_release b])"
| "cleanup (F_loop ks done) = [F_drop_conts (done @ ks)]"
| "cleanup (F_post _ k) = [F_drop_task k]"
| "cleanup (F_apply k a) = F_release a # drop_action (Some k)"
| "cleanup (F_clean_func a hs) = [F_clean_func a hs]"
| "cleanup (F_subscribe_all a _) = [F_release a]"
| "cleanup (F_subscribe_any a _) = [F_release a]"
| "cleanup (F_give h) = [F_drop h]"
| "cleanup _ = []"

text \<open>
  An exception ends the program at a \<open>noexcept\<close> boundary, is turned into the result
  of a state by a handler, or reaches user code, which has to deal with it; the
  destructors that run on the way are \<open>noexcept\<close>.
\<close>

fun unwind :: "exn \<Rightarrow> 'v frame list \<Rightarrow> 'v cfg \<Rightarrow> 'v cfg \<times> 'v frame list" where
  "unwind e [] c = crash_with Terminated c"
| "unwind e (F_noexcept # fs) c = crash_with Terminated c"
| "unwind e (F_catch a # fs) c = (c, F_set_exn a e # fs)"
| "unwind e (F_user x n hs # fs) c = (observe (E_threw e) c, F_user x n hs # fs)"
| "unwind e (f # fs) c = (c, cleanup f @ (if cleanup f = [] then [] else [F_noexcept]) @ F_raise e # fs)"

text \<open>
  The end of \<open>get\<close>: \<open>future::get\<close> moves the state into a local variable and the
  value, or the futures of a \<open>when_all\<close> or \<open>when_any\<close> result, out of the state;
  \<open>shared_future::get\<close> returns a reference.
\<close>

definition take_futures :: "addr \<Rightarrow> 'v cfg \<Rightarrow> 'v cfg \<times> handle list" where
  "take_futures a c = (case obj_at c a of
     None \<Rightarrow> (c, [])
   | Some w \<Rightarrow> (case body w of
       B_all hs n \<Rightarrow> (set_obj a (w\<lparr>body := B_all (map moved hs) n\<rparr>) c, hs)
     | B_any hs n r \<Rightarrow> (set_obj a (w\<lparr>body := B_any (map moved hs) n r\<rparr>) c, hs)
     | _ \<Rightarrow> (c, [])))"

definition take_result :: "'v vref \<Rightarrow> 'v cfg \<Rightarrow> 'v cfg \<times> handle list" where
  "take_result r c = (case r of V_value v \<Rightarrow> (c, []) | V_all b \<Rightarrow> take_futures b c | V_any b \<Rightarrow> take_futures b c)"

definition var :: "nat \<Rightarrow> handle list \<Rightarrow> handle" where
  "var i hs = (if i < length hs then hs ! i else H_gone)"

definition finish_get ::
    "nat \<Rightarrow> user_ctx \<Rightarrow> nat \<Rightarrow> handle list \<Rightarrow> 'v frame list \<Rightarrow> 'v cfg \<Rightarrow> ('v cfg \<times> 'v frame list) option" where
  "finish_get i x n hs rest c = (case var i hs of
     H_future (Some a) \<Rightarrow> (case value_ref c a of
         None \<Rightarrow> None
       | Some (Gives r) \<Rightarrow> (let (c', gs) = take_result r c in
           Some (observe (E_got r) c', F_release a # F_user x n (hs[i := H_future None] @ gs) # rest))
       | Some (Throws e) \<Rightarrow>
           Some (c, F_release a # F_raise e # F_user x n (hs[i := H_future None]) # rest)
       | Some Asserts \<Rightarrow> Some (crash_with Undefined_behaviour c))
   | H_shared (Some a) \<Rightarrow> (case value_ref c a of
         None \<Rightarrow> None
       | Some (Gives r) \<Rightarrow> Some (observe (E_got r) c, F_user x n hs # rest)
       | Some (Throws e) \<Rightarrow> Some (c, F_raise e # F_user x n hs # rest)
       | Some Asserts \<Rightarrow> Some (crash_with Undefined_behaviour c))
   | _ \<Rightarrow> None)"

text \<open>A step of a thread whose top frame \<open>f\<close> is a call of the library; the new stack.\<close>

definition lib_step :: "'v frame \<Rightarrow> 'v frame list \<Rightarrow> 'v cfg \<Rightarrow> ('v cfg \<times> 'v frame list) option" where
  "lib_step f rest c = (case f of
     F_raise e \<Rightarrow> Some (unwind e rest c)
   | F_await n \<Rightarrow> if n \<in> signalled c then Some (c, rest) else None
   | F_give h \<Rightarrow> (case rest of
         F_user x n hs # rest' \<Rightarrow> Some (c, F_user x n (hs @ [h]) # rest')
       | _ \<Rightarrow> None)
   | F_get i \<Rightarrow> (case rest of
         F_user x n hs # rest' \<Rightarrow> finish_get i x n hs rest' c
       | _ \<Rightarrow> None)
   | _ \<Rightarrow> (let (c', fs) = perform f c in Some (c', fs @ rest)))"

section \<open>User code\<close>

text \<open>
  The commands of user code. A variable is its index; a closure comes with the
  variables that are moved into its captures. First those that only construct,
  assign or swap variables.
\<close>

datatype local_cmd =
    New_future
  | New_shared
  | New_no_task
  | Move nat
  | Copy_assign nat nat
  | Swap nat nat

datatype 'v cmd =
    New_promise "(closure \<times> nat list) option"
  | Make_promise "(closure \<times> nat list) option"
  | New_task closure "nat list"
  | Get_future nat wrapping
  | Set_value nat 'v
  | Set_exception nat exn
  | Is_awaiten nat
  | Assign nat nat
  | Destroy nat
  | Copy nat
  | Share nat
  | Wait nat
  | Get nat
  | Is_ready nat
  | Valid nat
  | Notify nat closure "nat list"
  | Notify_on nat exec closure "nat list"
  | Then nat exec closure "nat list"
  | Then_promise nat exec closure "nat list"
  | Next nat bool exec closure "nat list"
  | Detach nat
  | Call_task nat
  | Async exec closure "nat list"
  | Make_ready 'v
  | Make_exceptional exn
  | When_all "nat list"
  | When_any "nat list"
  | When_all_range "nat list" 'v
  | When_any_range "nat list"
  | Local local_cmd
  | Await_suspend nat closure "nat list"
  | Await_ready nat
  | Await_resume nat
  | Return_object nat
  | Co_return nat 'v
  | Unhandled nat exn
  | Future_get nat
  | Future_ready nat
  | When_all_none 'v
  | When_any_none 'v
  | Run_posted nat
  | Drop_posted nat
  | Return
  | Return_value 'v
  | Return_future nat
  | Throw exn

text \<open>
  The functions that only call another one: the awaiter of a future and the functions
  of a promise that the compiler calls for a coroutine, the function objects for
  algorithms, and the overloads of \<open>when_all\<close> and \<open>when_any\<close> without futures, where
  \<open>v\<close> is the empty tuple or a result with it.
\<close>

definition await_ready :: "nat \<Rightarrow> 'v cmd" where
  "await_ready i = Is_ready i"

definition await_resume :: "nat \<Rightarrow> 'v cmd" where
  "await_resume i = Get i"

definition get_return_object :: "nat \<Rightarrow> 'v cmd" where
  "get_return_object i = Get_future i Direct"

definition return_value :: "nat \<Rightarrow> 'v \<Rightarrow> 'v cmd" where
  "return_value i v = Set_value i v"

definition unhandled_exception :: "nat \<Rightarrow> exn \<Rightarrow> 'v cmd" where
  "unhandled_exception i e = Set_exception i e"

definition apply_future_get :: "nat \<Rightarrow> 'v cmd" where
  "apply_future_get i = Get i"

definition apply_future_ready :: "nat \<Rightarrow> 'v cmd" where
  "apply_future_ready i = Is_ready i"

definition when_all_none :: "'v \<Rightarrow> 'v cmd" where
  "when_all_none v = Make_ready v"

definition when_any_none :: "'v \<Rightarrow> 'v cmd" where
  "when_any_none v = Make_ready v"

fun forwarded :: "'v cmd \<Rightarrow> 'v cmd" where
  "forwarded (Await_ready i) = await_ready i"
| "forwarded (Await_resume i) = await_resume i"
| "forwarded (Return_object i) = get_return_object i"
| "forwarded (Co_return i v) = return_value i v"
| "forwarded (Unhandled i e) = unhandled_exception i e"
| "forwarded (Future_get i) = apply_future_get i"
| "forwarded (Future_ready i) = apply_future_ready i"
| "forwarded (When_all_none v) = when_all_none v"
| "forwarded (When_any_none v) = when_any_none v"
| "forwarded cm = cm"

definition move_out :: "nat list \<Rightarrow> handle list \<Rightarrow> (handle list \<times> handle list) option" where
  "move_out is hs = (if distinct is \<and> list_all (\<lambda>i. i < length hs) is
     then Some (map (\<lambda>i. hs ! i) is, foldr (\<lambda>i gs. gs[i := H_gone]) is hs) else None)"

definition capture :: "closure \<Rightarrow> nat list \<Rightarrow> handle list \<Rightarrow> (closure \<times> handle list) option" where
  "capture f is hs = (case move_out is hs of
     None \<Rightarrow> None
   | Some (gs, hs') \<Rightarrow> Some (f\<lparr>caps := gs\<rparr>, hs'))"

definition capture_option ::
    "(closure \<times> nat list) option \<Rightarrow> handle list \<Rightarrow> (closure option \<times> handle list) option" where
  "capture_option p hs = (case p of
     None \<Rightarrow> Some (None, hs)
   | Some (f, is) \<Rightarrow> (case capture f is hs of
       None \<Rightarrow> None
     | Some (f', hs') \<Rightarrow> Some (Some f', hs')))"

fun is_future :: "handle \<Rightarrow> bool" where
  "is_future (H_future _) = True"
| "is_future (H_shared _) = True"
| "is_future _ = False"

text \<open>
  Move assignment destroys the target's old value and empties the source. For a
  promise and a task, the assignment to itself does both to the same object.
\<close>

definition assignable :: "handle \<Rightarrow> handle \<Rightarrow> bool" where
  "assignable g h = (case (g, h) of
     (H_promise _, H_promise _) \<Rightarrow> True
   | (H_task _, H_task _) \<Rightarrow> True
   | (H_future _, H_future _) \<Rightarrow> True
   | (H_shared _, H_shared _) \<Rightarrow> True
   | (H_shared _, H_future _) \<Rightarrow> True
   | _ \<Rightarrow> False)"

definition converted :: "handle \<Rightarrow> handle \<Rightarrow> handle" where
  "converted g h = (case g of H_shared _ \<Rightarrow> share h | _ \<Rightarrow> h)"

definition assign :: "nat \<Rightarrow> nat \<Rightarrow> handle list \<Rightarrow> (handle list \<times> 'v frame list) option" where
  "assign i j hs = (let g = var i hs; h = var j hs in
     if \<not> assignable g h then None
     else if i = j then Some (if is_future g then (hs, []) else (hs[i := moved g], [F_drop g]))
     else Some (hs[i := converted g h, j := moved h], [F_drop g]))"

text \<open>
  Default construction, move construction, copy assignment of a shared future (the
  pointer is copied before the old one is dropped) and \<open>packaged_task::swap\<close>.
\<close>

definition swap_tasks :: "nat \<Rightarrow> nat \<Rightarrow> handle list \<Rightarrow> handle list option" where
  "swap_tasks i j hs = (case (var i hs, var j hs) of
     (H_task v, H_task w) \<Rightarrow> Some (hs[i := H_task w, j := H_task v])
   | _ \<Rightarrow> None)"

definition move_var :: "nat \<Rightarrow> handle list \<Rightarrow> handle list option" where
  "move_var i hs = (if var i hs = H_gone then None else Some (hs[i := moved (var i hs)] @ [var i hs]))"

definition copy_assign :: "nat \<Rightarrow> nat \<Rightarrow> handle list \<Rightarrow> (handle list \<times> 'v frame list) option" where
  "copy_assign i j hs = (case (var i hs, var j hs) of
     (H_shared p, H_shared q) \<Rightarrow> Some (hs[i := H_shared q], [F_drop (H_shared p)])
   | _ \<Rightarrow> None)"

fun local_step :: "local_cmd \<Rightarrow> handle list \<Rightarrow> (handle list \<times> 'v frame list) option" where
  "local_step New_future hs = Some (hs @ [H_future None], [])"
| "local_step New_shared hs = Some (hs @ [H_shared None], [])"
| "local_step New_no_task hs = Some (hs @ [H_task No_owner], [])"
| "local_step (Move i) hs = map_option (\<lambda>hs'. (hs', [])) (move_var i hs)"
| "local_step (Copy_assign i j) hs = copy_assign i j hs"
| "local_step (Swap i j) hs = map_option (\<lambda>hs'. (hs', [])) (swap_tasks i j hs)"

text \<open>The futures of a range: a range of futures is moved from, one of shared futures copied.\<close>

definition is_unique_future :: "handle \<Rightarrow> bool" where
  "is_unique_future h = (case h of H_future _ \<Rightarrow> True | _ \<Rightarrow> False)"

definition is_shared_future :: "handle \<Rightarrow> bool" where
  "is_shared_future h = (case h of H_shared _ \<Rightarrow> True | _ \<Rightarrow> False)"

definition range_futures :: "nat list \<Rightarrow> handle list \<Rightarrow> (handle list \<times> handle list) option" where
  "range_futures is hs =
     (if list_all (\<lambda>i. is_shared_future (var i hs)) is then Some (map (\<lambda>i. var i hs) is, hs)
      else if distinct is \<and> list_all (\<lambda>i. is_unique_future (var i hs)) is
      then Some (map (\<lambda>i. var i hs) is, foldr (\<lambda>i gs. gs[i := H_future None]) is hs)
      else None)"

text \<open>
  The captures of a function object go back to it when its call is over: to the
  nearest local variable, task, or node of a continuations list below. It has none
  during the call.
\<close>

fun refill :: "handle list \<Rightarrow> cont \<Rightarrow> cont" where
  "refill hs (C_user f) = C_user (f\<lparr>caps := caps f @ hs\<rparr>)"
| "refill hs (C_post ex f) = C_post ex (f\<lparr>caps := caps f @ hs\<rparr>)"
| "refill hs k = k"

fun put_home :: "handle list \<Rightarrow> 'v frame list \<Rightarrow> 'v frame list" where
  "put_home hs [] = []"
| "put_home hs (F_home gs # fs) = F_home (gs @ hs) # fs"
| "put_home hs (F_clean_func a gs # fs) = F_clean_func a (gs @ hs) # fs"
| "put_home hs (F_loop ks done # fs) =
     F_loop ks (if done = [] then [] else butlast done @ [refill hs (last done)]) # fs"
| "put_home hs (f # fs) = f # put_home hs fs"

definition leave :: "nat \<Rightarrow> handle list \<Rightarrow> 'v frame list \<Rightarrow> 'v frame list \<Rightarrow> 'v frame list" where
  "leave n hs fs rest = drop_handles (drop n hs) @ fs @ put_home (take n hs) rest"

text \<open>How a function of the user returns, by its context.\<close>

definition return_step ::
    "'v cmd \<Rightarrow> user_ctx \<Rightarrow> nat \<Rightarrow> handle list \<Rightarrow> 'v frame list \<Rightarrow> 'v frame list option" where
  "return_step cm x n hs rest = (case (x, cm) of
     (U_main, Return) \<Rightarrow> Some (leave n hs [] rest)
   | (U_call, Return) \<Rightarrow> Some (leave n hs [] rest)
   | (U_set a t, Return_value v) \<Rightarrow> Some (leave n hs (set_state_value a t (R_value v)) rest)
   | (U_set a t, Return_future i) \<Rightarrow>
       if is_future (var i hs)
       then Some (leave n (hs[i := H_gone]) (set_state_value a t (R_future (state_of (var i hs)))) rest)
       else None
   | (U_set a t, Throw e) \<Rightarrow> Some (leave n hs (set_state_value a t (R_throw e)) rest)
   | (_, Throw e) \<Rightarrow> Some (leave n hs [F_raise e] rest)
   | _ \<Rightarrow> None)"

text \<open>
  The other commands: the configuration, the variables and the calls that result.
  Commands that do not type-check have no result.
\<close>

definition call :: "handle list \<Rightarrow> 'v op \<Rightarrow> 'v cfg \<Rightarrow> ('v cfg \<times> handle list \<times> 'v frame list) option" where
  "call hs g c = (let (c', fs) = g c in Some (c', hs, fs))"

definition ask :: "errc + bool \<Rightarrow> 'v op" where
  "ask r c = (case r of Inl e \<Rightarrow> raise e c | Inr b \<Rightarrow> (observe (E_bool b) c, []))"

definition retrieve ::
    "nat \<Rightarrow> handle list \<Rightarrow> (owner \<Rightarrow> handle) \<Rightarrow> (addr \<Rightarrow> handle) \<Rightarrow> errc + owner \<times> addr \<Rightarrow> 'v cfg \<Rightarrow>
     ('v cfg \<times> handle list \<times> 'v frame list) option" where
  "retrieve i hs mk fut r c = (case r of
     Inl e \<Rightarrow> call hs (raise e) c
   | Inr (w, a) \<Rightarrow> Some (c, hs[i := mk w] @ [fut a], []))"

definition with_closure ::
    "closure \<Rightarrow> nat list \<Rightarrow> handle list \<Rightarrow>
     (closure \<Rightarrow> handle list \<Rightarrow> ('v cfg \<times> handle list \<times> 'v frame list) option) \<Rightarrow>
     ('v cfg \<times> handle list \<times> 'v frame list) option" where
  "with_closure f is hs g = (case capture f is hs of None \<Rightarrow> None | Some (f', hs') \<Rightarrow> g f' hs')"

text \<open>A call on a future \<open>i\<close> that a closure is passed to.\<close>

definition attach_cmd ::
    "nat \<Rightarrow> closure \<Rightarrow> nat list \<Rightarrow> handle list \<Rightarrow>
     (handle \<Rightarrow> closure \<Rightarrow> handle \<times> 'v cfg \<times> 'v frame list) \<Rightarrow>
     ('v cfg \<times> handle list \<times> 'v frame list) option" where
  "attach_cmd i f is hs g = with_closure f is hs (\<lambda>f' hs'.
     if is_future (var i hs') then (let (h, c, fs) = g (var i hs') f' in Some (c, hs'[i := h], fs)) else None)"

fun api_step :: "'v cmd \<Rightarrow> handle list \<Rightarrow> 'v cfg \<Rightarrow> ('v cfg \<times> handle list \<times> 'v frame list) option" where
  "api_step (New_promise p) hs c = (case capture_option p hs of None \<Rightarrow> None | Some (q, hs') \<Rightarrow>
     (let (c', h) = promise_ctor (canceler_body q) c in Some (c', hs' @ [h], [])))"
| "api_step (Make_promise p) hs c = (case capture_option p hs of None \<Rightarrow> None | Some (q, hs') \<Rightarrow>
     (let (c', h, g) = make_promise (canceler_body q) c in Some (c', hs' @ [h, g], [])))"
| "api_step (New_task f is) hs c = with_closure f is hs (\<lambda>f' hs'.
     let (c', h) = packaged_task f' c in Some (c', hs' @ [h], []))"
| "api_step (Get_future i s) hs c = (case var i hs of
     H_promise w \<Rightarrow> retrieve i hs H_promise (\<lambda>a. H_future (Some a)) (promise_get_future w) c
   | H_task w \<Rightarrow> retrieve i hs H_task
       (\<lambda>a. case s of Of_shared \<Rightarrow> H_shared (Some a) | _ \<Rightarrow> H_future (Some a)) (task_get_future w) c
   | _ \<Rightarrow> None)"
| "api_step (Set_value i v) hs c = (case var i hs of
     H_promise w \<Rightarrow> call hs (promise_set_value w v) c | _ \<Rightarrow> None)"
| "api_step (Set_exception i e) hs c = (case var i hs of
     H_promise w \<Rightarrow> call hs (promise_set_exception w e) c | _ \<Rightarrow> None)"
| "api_step (Is_awaiten i) hs c = (case var i hs of
     H_promise w \<Rightarrow> call hs (ask (is_awaiten w c)) c | _ \<Rightarrow> None)"
| "api_step (Assign i j) hs c = (case assign i j hs of None \<Rightarrow> None | Some (hs', fs) \<Rightarrow> Some (c, hs', fs))"
| "api_step (Destroy i) hs c =
     (if i < length hs then Some (c, hs[i := H_gone], [F_drop (hs ! i)]) else None)"
| "api_step (Copy i) hs c = (case var i hs of H_shared p \<Rightarrow> Some (c, hs @ [H_shared p], []) | _ \<Rightarrow> None)"
| "api_step (Share i) hs c = (case var i hs of
     H_future p \<Rightarrow> Some (c, hs[i := H_future None] @ [share (H_future p)], []) | _ \<Rightarrow> None)"
| "api_step (Wait i) hs c = (if is_future (var i hs) then call hs (future_wait (var i hs)) c else None)"
| "api_step (Get i) hs c = (if is_future (var i hs) then call hs (future_get i (var i hs)) c else None)"
| "api_step (Is_ready i) hs c = (if is_future (var i hs) then call hs (is_ready (var i hs)) c else None)"
| "api_step (Valid i) hs c = (case var i hs of
     H_task w \<Rightarrow> call hs (ask (Inr (task_valid w))) c
   | _ \<Rightarrow> if is_future (var i hs) then call hs (ask (Inr (valid (var i hs)))) c else None)"
| "api_step (Notify i f is) hs c = attach_cmd i f is hs (\<lambda>h f'. (h, notify h f' c))"
| "api_step (Notify_on i ex f is) hs c = attach_cmd i f is hs (\<lambda>h f'. (h, notify_on h ex f' c))"
| "api_step (Then i ex f is) hs c = attach_cmd i f is hs (\<lambda>h f'. future_then h ex f' c)"
| "api_step (Then_promise i ex f is) hs c = attach_cmd i f is hs (\<lambda>h f'. future_then_promise h ex f' c)"
| "api_step (Next i vd ex f is) hs c = attach_cmd i f is hs (\<lambda>h f'. future_next h vd ex f' c)"
| "api_step (Detach i) hs c =
     (if is_future (var i hs) then call (hs[i := moved (var i hs)]) (detach (var i hs)) c else None)"
| "api_step (Call_task i) hs c = (case var i hs of H_task w \<Rightarrow> call hs (task_call w) c | _ \<Rightarrow> None)"
| "api_step (Async ex f is) hs c = with_closure f is hs (\<lambda>f' hs'. call hs' (async ex f') c)"
| "api_step (Make_ready v) hs c = call hs (make_ready_future v) c"
| "api_step (Make_exceptional e) hs c = call hs (make_exceptional_future e) c"
| "api_step (When_all is) hs c = (case move_out is hs of None \<Rightarrow> None | Some (gs, hs') \<Rightarrow>
     if list_all valid gs then call hs' (when_all_make gs) c else None)"
| "api_step (When_any is) hs c = (case move_out is hs of None \<Rightarrow> None | Some (gs, hs') \<Rightarrow>
     if list_all valid gs then call hs' (when_any_make gs) c else None)"
| "api_step (When_all_range is v) hs c = (case range_futures is hs of None \<Rightarrow> None | Some (gs, hs') \<Rightarrow>
     if list_all valid gs then call hs' (when_all_range gs v) c else None)"
| "api_step (When_any_range is) hs c = (case range_futures is hs of None \<Rightarrow> None | Some (gs, hs') \<Rightarrow>
     if list_all valid gs then call hs' (when_any_make gs) c else None)"
| "api_step (Local lc) hs c = (case local_step lc hs of None \<Rightarrow> None | Some (hs', fs) \<Rightarrow> Some (c, hs', fs))"
| "api_step (Await_suspend i f is) hs c =
     with_closure f is hs (\<lambda>f' hs'. if valid (var i hs') then call hs' (await_suspend (var i hs') f') c else None)"
| "api_step _ hs c = None"

text \<open>
  The threads of an executor call the functions that were posted, or destroy them
  without a call, as the thread pool does when it stops. An exception of a function
  ends the program, as in \<open>process_queue\<close>.
\<close>

definition take_posted :: "nat \<Rightarrow> (task \<Rightarrow> 'v op) \<Rightarrow> 'v cfg \<Rightarrow> ('v cfg \<times> 'v frame list) option" where
  "take_posted j g c = (if j < length (posted c)
     then (let (c', fs) = g (snd (posted c ! j)) (c\<lparr>posted := take j (posted c) @ drop (j + 1) (posted c)\<rparr>)
           in Some (c', fs @ [F_noexcept]))
     else None)"

definition user_step ::
    "'v cmd \<Rightarrow> user_ctx \<Rightarrow> nat \<Rightarrow> handle list \<Rightarrow> 'v frame list \<Rightarrow> 'v cfg \<Rightarrow> ('v cfg \<times> 'v frame list) option" where
  "user_step cm x n hs rest c = (case return_step cm x n hs rest of
     Some st \<Rightarrow> Some (c, st)
   | None \<Rightarrow> (case api_step cm hs c of
       Some (c', hs', fs) \<Rightarrow> Some (c', fs @ F_user x n hs' # rest)
     | None \<Rightarrow> (case (cm, x) of
         (Run_posted j, U_main) \<Rightarrow>
           map_option (\<lambda>(c', fs). (c', fs @ F_user x n hs # rest)) (take_posted j run_task c)
       | (Drop_posted j, U_main) \<Rightarrow>
           map_option (\<lambda>(c', fs). (c', fs @ F_user x n hs # rest)) (take_posted j task_dtor_frames c)
       | _ \<Rightarrow> None)))"

section \<open>Steps of the machine\<close>

definition top_step :: "'v cmd option \<Rightarrow> 'v frame \<Rightarrow> 'v frame list \<Rightarrow> 'v cfg \<Rightarrow> ('v cfg \<times> 'v frame list) option" where
  "top_step l f rest c = (case (f, l) of
     (F_user x n hs, Some cm) \<Rightarrow> user_step (forwarded cm) x n hs rest c
   | (F_user _ _ _, None) \<Rightarrow> None
   | (_, None) \<Rightarrow> lib_step f rest c
   | _ \<Rightarrow> None)"

definition set_stack :: "nat \<Rightarrow> 'v frame list \<Rightarrow> 'v cfg \<Rightarrow> 'v cfg" where
  "set_stack t fs c = c\<lparr>stacks := (stacks c)[t := fs]\<rparr>"

definition machine_step :: "nat \<Rightarrow> 'v cmd option \<Rightarrow> 'v cfg \<Rightarrow> 'v cfg option" where
  "machine_step t l c =
     (if crashed c \<noteq> None \<or> \<not> t < length (stacks c) then None else
      case stacks c ! t of
        [] \<Rightarrow> None
      | f # rest \<Rightarrow> (case top_step l f rest (set_stack t rest c) of
          None \<Rightarrow> None
        | Some (c', st) \<Rightarrow> Some (set_stack t st c')))"

definition mstep :: "'v cfg \<Rightarrow> nat \<times> 'v cmd option \<Rightarrow> 'v cfg \<Rightarrow> bool" where
  "mstep c l c' \<longleftrightarrow> machine_step (fst l) (snd l) c = Some c'"

text \<open>The start: \<open>n\<close> threads in user code, no objects.\<close>

definition machine_init :: "nat \<Rightarrow> 'v cfg" where
  "machine_init n = \<lparr>heap = [], posted = [], stacks = replicate n [F_user U_main 0 []],
     waits = [], signalled = {}, log = [], crashed = None\<rparr>"

text \<open>Running a list of labels, for concrete executions.\<close>

fun exec_steps :: "(nat \<times> 'v cmd option) list \<Rightarrow> 'v cfg \<Rightarrow> 'v cfg option" where
  "exec_steps [] c = Some c"
| "exec_steps (l # ls) c = (case machine_step (fst l) (snd l) c of
     None \<Rightarrow> None | Some c' \<Rightarrow> exec_steps ls c')"

end
