(* ===== verification/Memory.thy ===== *)
theory Memory
  imports Machine
begin

text \<open>
  References of the future machine: every call of the library turns valid references
  into valid references (\<open>mem_ok\<close>), and the raw pointers in the calls it leaves are
  covered by shared pointers (\<open>covers\<close>). One lemma for each operation; \<open>perform_mem\<close>
  and \<open>perform_covers\<close> collect them.
\<close>

section \<open>Objects of a configuration\<close>

lemma obj_at_set_obj:
  "obj_at (set_obj a w c) b = (if b = a \<and> a < length (heap c) then Some w else obj_at c b)"
  by (auto simp: obj_at_def set_obj_def nth_list_update)

lemma obj_at_new_obj: "obj_at (new_obj w c) b = (if b = fresh c then Some w else obj_at c b)"
  by (auto simp: obj_at_def new_obj_def fresh_def nth_append)

lemma obj_at_kill: "obj_at (kill a c) b = (if b = a then None else obj_at c b)"
  by (auto simp: obj_at_def kill_def nth_list_update)

lemma obj_at_less: "obj_at c a = Some w \<Longrightarrow> a < length (heap c)"
  by (auto simp: obj_at_def split: if_splits)

lemma obj_at_heap: "heap c' = heap c \<Longrightarrow> obj_at c' = obj_at c"
  by (auto simp: obj_at_def fun_eq_iff)

lemma obj_at_frame [simp]:
  "obj_at (observe e c) = obj_at c" "obj_at (set_stack t fs c) = obj_at c"
  "obj_at (c\<lparr>posted := q\<rparr>) = obj_at c" "obj_at (c\<lparr>waits := ws\<rparr>) = obj_at c"
  "obj_at (c\<lparr>signalled := ss\<rparr>) = obj_at c" "obj_at (c\<lparr>crashed := k\<rparr>) = obj_at c"
  "obj_at (c\<lparr>log := l\<rparr>) = obj_at c" "obj_at (c\<lparr>stacks := st\<rparr>) = obj_at c"
  by (auto simp: observe_def set_stack_def intro!: obj_at_heap)

lemma length_heap [simp]:
  "length (heap (set_obj a w c)) = length (heap c)" "length (heap (kill a c)) = length (heap c)"
  "length (heap (new_obj w c)) = Suc (length (heap c))" "length (heap (observe e c)) = length (heap c)"
  "length (heap (set_stack t fs c)) = length (heap c)"
  by (simp_all add: set_obj_def kill_def new_obj_def observe_def set_stack_def)

lemma stacks_frame [simp]:
  "stacks (set_obj a w c) = stacks c" "stacks (kill a c) = stacks c" "stacks (new_obj w c) = stacks c"
  "stacks (observe e c) = stacks c"
  by (simp_all add: set_obj_def kill_def new_obj_def observe_def)

lemma posted_frame [simp]:
  "posted (set_obj a w c) = posted c" "posted (kill a c) = posted c" "posted (new_obj w c) = posted c"
  "posted (observe e c) = posted c" "posted (set_stack t fs c) = posted c"
  by (simp_all add: set_obj_def kill_def new_obj_def observe_def set_stack_def)

lemma waits_frame [simp]:
  "waits (set_obj a w c) = waits c" "waits (kill a c) = waits c" "waits (new_obj w c) = waits c"
  "waits (observe e c) = waits c" "waits (set_stack t fs c) = waits c"
  "signalled (set_obj a w c) = signalled c" "signalled (kill a c) = signalled c"
  "signalled (new_obj w c) = signalled c" "signalled (observe e c) = signalled c"
  "signalled (set_stack t fs c) = signalled c"
  by (simp_all add: set_obj_def kill_def new_obj_def observe_def set_stack_def)

lemma fresh_frame [simp]:
  "fresh (set_obj a w c) = fresh c" "fresh (kill a c) = fresh c" "fresh (observe e c) = fresh c"
  by (simp_all add: fresh_def)

lemma heap_atoms_obj_at: "x \<in> heap_atoms c \<longleftrightarrow> (\<exists>a w. obj_at c a = Some w \<and> x \<in> obj_atoms w)"
proof -
  have "x \<in> heap_atoms c \<longleftrightarrow> (\<exists>w. Some w \<in> set (heap c) \<and> x \<in> obj_atoms w)"
    by (force simp: heap_atoms_def split: option.splits)
  also have "\<dots> \<longleftrightarrow> (\<exists>a w. a < length (heap c) \<and> heap c ! a = Some w \<and> x \<in> obj_atoms w)"
    by (metis in_set_conv_nth)
  also have "\<dots> \<longleftrightarrow> (\<exists>a w. obj_at c a = Some w \<and> x \<in> obj_atoms w)"
    by (auto simp: obj_at_def)
  finally show ?thesis .
qed

definition other_atoms :: "'v cfg \<Rightarrow> atom set" where
  "other_atoms c = (\<Union>p \<in> set (posted c). task_atoms (snd p)) \<union> (\<Union>fs \<in> set (stacks c). frames_atoms fs)"

lemma atoms_iff:
  "x \<in> atoms c \<longleftrightarrow> (\<exists>a w. obj_at c a = Some w \<and> x \<in> obj_atoms w) \<or> x \<in> other_atoms c"
  by (auto simp: atoms_def other_atoms_def heap_atoms_obj_at)

lemma other_atoms_frame [simp]:
  "other_atoms (set_obj a w c) = other_atoms c" "other_atoms (kill a c) = other_atoms c"
  "other_atoms (new_obj w c) = other_atoms c" "other_atoms (observe e c) = other_atoms c"
  "other_atoms (c\<lparr>waits := ws\<rparr>) = other_atoms c" "other_atoms (c\<lparr>signalled := ss\<rparr>) = other_atoms c"
  "other_atoms (c\<lparr>crashed := k\<rparr>) = other_atoms c"
  by (simp_all add: other_atoms_def)

lemma atoms_frame [simp]:
  "atoms (observe e c) = atoms c" "atoms (c\<lparr>waits := ws\<rparr>) = atoms c"
  "atoms (c\<lparr>signalled := ss\<rparr>) = atoms c" "atoms (c\<lparr>crashed := k\<rparr>) = atoms c"
  by (simp_all add: set_eq_iff atoms_iff)

lemma obj_atoms_in: "obj_at c a = Some w \<Longrightarrow> x \<in> obj_atoms w \<Longrightarrow> x \<in> atoms c"
  by (auto simp: atoms_iff)

lemma other_atoms_in: "x \<in> other_atoms c \<Longrightarrow> x \<in> atoms c"
  by (simp add: atoms_iff)

lemma atomsE:
  assumes "x \<in> atoms c"
  obtains a w where "obj_at c a = Some w" "x \<in> obj_atoms w" | "x \<in> other_atoms c"
  using assms unfolding atoms_iff by blast

lemma atoms_set_obj: "x \<in> atoms (set_obj a w c) \<Longrightarrow> x \<in> atoms c \<or> x \<in> obj_atoms w"
  by (elim atomsE) (auto simp: obj_at_set_obj other_atoms_in intro: obj_atoms_in split: if_splits)

lemma atoms_new_obj: "x \<in> atoms (new_obj w c) \<Longrightarrow> x \<in> atoms c \<or> x \<in> obj_atoms w"
  by (elim atomsE) (auto simp: obj_at_new_obj other_atoms_in intro: obj_atoms_in split: if_splits)

lemma atoms_kill: "x \<in> atoms (kill a c) \<Longrightarrow> x \<in> atoms c"
  by (elim atomsE) (auto simp: obj_at_kill other_atoms_in intro: obj_atoms_in split: if_splits)

section \<open>References are valid\<close>

text \<open>
  A shared pointer points to an object that is alive, and every pointer to an object
  that is alive has a type that fits. Promises and futures are those that satisfy
  \<open>Q\<close>; memory safety takes \<open>Q\<close> to be true, later theories need more.
\<close>

fun atom_ok :: "(atom \<Rightarrow> bool) \<Rightarrow> 'v cfg \<Rightarrow> atom \<Rightarrow> bool" where
  "atom_ok Q c (A_strong a) = alive c a"
| "atom_ok Q c (A_kind k a) = (a < length (heap c) \<and> (\<forall>w. obj_at c a = Some w \<longrightarrow> fits k (body w)))"
| "atom_ok Q c (A_promise a) = Q (A_promise a)"
| "atom_ok Q c (A_future a) = Q (A_future a)"
| "atom_ok Q c (A_writer _) = True"

text \<open>All references of a configuration, and those in \<open>F\<close> that a running call holds, are valid.\<close>

definition mem_ok :: "(atom \<Rightarrow> bool) \<Rightarrow> 'v cfg \<Rightarrow> atom set \<Rightarrow> bool" where
  "mem_ok Q c F \<longleftrightarrow> (\<forall>x \<in> atoms c \<union> F. atom_ok Q c x)"

lemma mem_ok_frame [simp]:
  "mem_ok Q (observe e c) F = mem_ok Q c F" "mem_ok Q (c\<lparr>waits := ws\<rparr>) F = mem_ok Q c F"
  "mem_ok Q (c\<lparr>signalled := ss\<rparr>) F = mem_ok Q c F" "mem_ok Q (c\<lparr>crashed := k\<rparr>) F = mem_ok Q c F"
proof -
  have "atom_ok Q (observe e c) = atom_ok Q c" "atom_ok Q (c\<lparr>waits := ws\<rparr>) = atom_ok Q c"
    "atom_ok Q (c\<lparr>signalled := ss\<rparr>) = atom_ok Q c" "atom_ok Q (c\<lparr>crashed := k\<rparr>) = atom_ok Q c"
    by (rule ext, case_tac x, simp_all add: alive_def)+
  then show "mem_ok Q (observe e c) F = mem_ok Q c F" "mem_ok Q (c\<lparr>waits := ws\<rparr>) F = mem_ok Q c F"
    "mem_ok Q (c\<lparr>signalled := ss\<rparr>) F = mem_ok Q c F" "mem_ok Q (c\<lparr>crashed := k\<rparr>) F = mem_ok Q c F"
    by (simp_all add: mem_ok_def)
qed

lemma mem_ok_more: "mem_ok Q c F \<Longrightarrow> (\<And>x. x \<in> G \<Longrightarrow> atom_ok Q c x) \<Longrightarrow> mem_ok Q c G"
  by (auto simp: mem_ok_def)

lemma mem_ok_atoms: "mem_ok Q c F \<Longrightarrow> x \<in> atoms c \<Longrightarrow> atom_ok Q c x"
  by (auto simp: mem_ok_def)

lemma mem_ok_held: "mem_ok Q c F \<Longrightarrow> x \<in> F \<Longrightarrow> atom_ok Q c x"
  by (auto simp: mem_ok_def)

lemma mem_ok_subset: "mem_ok Q c F \<Longrightarrow> G \<subseteq> F \<Longrightarrow> mem_ok Q c G"
  by (auto simp: mem_ok_def)

lemma atom_ok_set_obj:
  assumes "obj_at c a = Some w" "\<And>k. fits k (body w) \<Longrightarrow> fits k (body w')" "atom_ok Q c x"
  shows "atom_ok Q (set_obj a w' c) x"
  using assms by (cases x) (auto simp: alive_def obj_at_set_obj)

lemma mem_ok_set_obj:
  assumes "mem_ok Q c F" "obj_at c a = Some w" "\<And>k. fits k (body w) \<Longrightarrow> fits k (body w')"
    and "\<And>x. x \<in> obj_atoms w' \<Longrightarrow> atom_ok Q c x" "\<And>x. x \<in> F' \<Longrightarrow> atom_ok Q c x"
  shows "mem_ok Q (set_obj a w' c) F'"
proof -
  have "atom_ok Q (set_obj a w' c) x" if "x \<in> atoms (set_obj a w' c) \<union> F'" for x
  proof -
    have "atom_ok Q c x"
      using that atoms_set_obj [of x a w' c] assms(1,4,5) by (auto simp: mem_ok_def)
    then show ?thesis using assms(2,3) by (rule atom_ok_set_obj [rotated 2])
  qed
  then show ?thesis by (auto simp: mem_ok_def)
qed

lemma atom_ok_new_obj: "atom_ok Q c x \<Longrightarrow> atom_ok Q (new_obj w c) x"
  by (cases x) (auto simp: alive_def obj_at_new_obj fresh_def)

lemma atom_ok_fresh:
  "atom_ok Q (new_obj w c) (A_strong (fresh c))"
  "fits k (body w) \<Longrightarrow> atom_ok Q (new_obj w c) (A_kind k (fresh c))"
  by (auto simp: alive_def obj_at_new_obj) (simp add: fresh_def)

lemma mem_ok_new_obj:
  assumes "mem_ok Q c F" "\<And>x. x \<in> obj_atoms w \<Longrightarrow> atom_ok Q c x"
    and "\<And>x. x \<in> F' \<Longrightarrow> atom_ok Q (new_obj w c) x"
  shows "mem_ok Q (new_obj w c) F'"
proof -
  have "atom_ok Q (new_obj w c) x" if "x \<in> atoms (new_obj w c)" for x
    using atoms_new_obj [OF that] assms(1,2) by (auto simp: mem_ok_def intro: atom_ok_new_obj)
  then show ?thesis using assms(3) by (auto simp: mem_ok_def)
qed

lemma mem_ok_kill:
  assumes "mem_ok Q c F" "\<not> owned c a" "\<And>x. x \<in> F' \<Longrightarrow> x \<in> atoms c"
  shows "mem_ok Q (kill a c) F'"
proof -
  have "atom_ok Q (kill a c) x" if "x \<in> atoms c" for x
  proof -
    have "atom_ok Q c x" using that assms(1) by (simp add: mem_ok_def)
    then show ?thesis
      using that assms(2) by (cases x) (auto simp: alive_def obj_at_kill owned_def)
  qed
  then show ?thesis using assms(3) atoms_kill [of _ a c] by (auto simp: mem_ok_def)
qed

lemma atom_ok_strong: "obj_at c a = Some w \<Longrightarrow> atom_ok Q c (A_strong a)"
  by (simp add: alive_def)

lemma atom_ok_kind: "obj_at c a = Some w \<Longrightarrow> fits k (body w) \<Longrightarrow> atom_ok Q c (A_kind k a)"
  by (auto dest: obj_at_less)

declare atom_ok.simps(1,2,3,4) [simp del]

section \<open>Library calls keep references valid\<close>

lemma list_atoms_simps [simp]:
  "frames_atoms [] = {}" "frames_atoms (f # fs) = frame_atoms f \<union> frames_atoms fs"
  "frames_atoms (fs @ fs') = frames_atoms fs \<union> frames_atoms fs'"
  "handles_atoms [] = {}" "handles_atoms (h # hs) = handle_atoms h \<union> handles_atoms hs"
  "handles_atoms (hs @ hs') = handles_atoms hs \<union> handles_atoms hs'"
  "conts_atoms [] = {}" "conts_atoms (k # ks) = cont_atoms k \<union> conts_atoms ks"
  "conts_atoms (ks @ ks') = conts_atoms ks \<union> conts_atoms ks'"
  by (auto simp: frames_atoms_def handles_atoms_def conts_atoms_def)

lemma obj_atoms_simps [simp]:
  "obj_atoms (w\<lparr>store := s\<rparr>) = storage_atoms s \<union>
     (case conts w of None \<Rightarrow> {} | Some ks \<Rightarrow> conts_atoms ks) \<union> body_atoms (body w)"
  "obj_atoms (w\<lparr>conts := p\<rparr>) = storage_atoms (store w) \<union>
     (case p of None \<Rightarrow> {} | Some ks \<Rightarrow> conts_atoms ks) \<union> body_atoms (body w)"
  "obj_atoms (w\<lparr>body := b\<rparr>) = storage_atoms (store w) \<union>
     (case conts w of None \<Rightarrow> {} | Some ks \<Rightarrow> conts_atoms ks) \<union> body_atoms b"
  "obj_atoms (new_state b) = body_atoms b"
  by (simp_all add: obj_atoms_def new_state_def)

lemma obj_part_ok:
  assumes "mem_ok Q c F" "obj_at c a = Some w"
  shows "x \<in> storage_atoms (store w) \<Longrightarrow> atom_ok Q c x"
    and "conts w = Some ks \<Longrightarrow> x \<in> conts_atoms ks \<Longrightarrow> atom_ok Q c x"
    and "x \<in> (case conts w of None \<Rightarrow> {} | Some ks \<Rightarrow> conts_atoms ks) \<Longrightarrow> atom_ok Q c x"
    and "body w = b \<Longrightarrow> x \<in> body_atoms b \<Longrightarrow> atom_ok Q c x"
  using mem_ok_atoms [OF assms(1) obj_atoms_in [OF assms(2)], of x]
  by (auto simp: obj_atoms_def)

text \<open>What a call may hold: what it held before, what the object at hand holds, and that object.\<close>

lemma obj_held:
  assumes "mem_ok Q c F" "obj_at c a = Some w"
  shows "x \<in> F \<Longrightarrow> atom_ok Q c x" "atom_ok Q c (A_strong a)" "fits k (body w) \<Longrightarrow> atom_ok Q c (A_kind k a)"
    and "x \<in> storage_atoms (store w) \<Longrightarrow> atom_ok Q c x"
    and "conts w = Some ks \<Longrightarrow> x \<in> conts_atoms ks \<Longrightarrow> atom_ok Q c x"
    and "x \<in> (case conts w of None \<Rightarrow> {} | Some ks \<Rightarrow> conts_atoms ks) \<Longrightarrow> atom_ok Q c x"
    and "body w = b \<Longrightarrow> x \<in> body_atoms b \<Longrightarrow> atom_ok Q c x"
    and "body w = B_cnt ex (Some k') \<Longrightarrow> x \<in> action_atoms k' \<Longrightarrow> atom_ok Q c x"
    and "body w = B_task (Fn_ready f) \<Longrightarrow> x \<in> closure_atoms f \<Longrightarrow> atom_ok Q c x"
    and "body w = B_all hs n \<Longrightarrow> x \<in> handles_atoms hs \<Longrightarrow> atom_ok Q c x"
    and "body w = B_any hs n r \<Longrightarrow> x \<in> handles_atoms hs \<Longrightarrow> atom_ok Q c x"
  using obj_part_ok [OF assms] assms
  by (auto intro: mem_ok_held atom_ok_strong atom_ok_kind)

text \<open>The result of a call is valid, with references \<open>G\<close> that the caller keeps.\<close>

definition res_mem :: "(atom \<Rightarrow> bool) \<Rightarrow> 'v cfg \<times> 'v frame list \<Rightarrow> atom set \<Rightarrow> bool" where
  "res_mem Q r G \<longleftrightarrow> mem_ok Q (fst r) (frames_atoms (snd r) \<union> G)"

lemma res_mem_pair [simp]: "res_mem Q (c, fs) G \<longleftrightarrow> mem_ok Q c (frames_atoms fs \<union> G)"
  by (simp add: res_mem_def)

lemma res_mem_append:
  "res_mem Q (case r of (c', fs) \<Rightarrow> (c', fs @ fs')) G \<longleftrightarrow> res_mem Q r (frames_atoms fs' \<union> G)"
  by (cases r) (simp add: Un_ac)

lemma res_mem_prepend:
  "res_mem Q (case r of (c', fs) \<Rightarrow> (c', fs' @ fs)) G \<longleftrightarrow> res_mem Q r (frames_atoms fs' \<union> G)"
  by (cases r) (simp add: Un_ac)

lemma res_mem_crash [simp]: "res_mem Q (crash_with k c) G \<longleftrightarrow> mem_ok Q c G"
  by (simp add: crash_with_def)

lemma res_mem_with_obj:
  assumes "mem_ok Q c F" "G \<subseteq> F" "\<And>w. obj_at c a = Some w \<Longrightarrow> res_mem Q (g w c) G"
  shows "res_mem Q (with_obj a g c) G"
  using assms by (auto simp: with_obj_def intro: mem_ok_subset split: option.splits)

lemma res_mem_lock:
  assumes "mem_ok Q c F" "\<And>x. x \<in> G \<union> frames_atoms fs \<Longrightarrow> atom_ok Q c x"
  shows "res_mem Q (lock a fs c) G"
  using assms
  by (auto simp: lock_def alive_def intro!: mem_ok_more [OF assms(1)] intro: atom_ok_strong)

lemma push_mem:
  assumes m: "mem_ok Q c F" and k: "cont_atoms k \<union> G \<subseteq> F"
  shows "res_mem Q (push a k c) G"
  unfolding push_def
proof (rule res_mem_with_obj [OF m], goal_cases)
  case (2 w)
  then show ?case
    using k by (auto intro!: mem_ok_set_obj [OF m 2] mem_ok_more [OF m]
        simp: obj_held [OF m 2] subset_iff split: option.splits)
qed (use k in auto)

lemma fits_iff [simp]:
  "fits k B_plain \<longleftrightarrow> k = K_state" "fits k (B_cancel f) \<longleftrightarrow> k = K_state"
  "fits k (B_cnt ex p) \<longleftrightarrow> k = K_state \<or> k = K_cnt" "fits k (B_task g) \<longleftrightarrow> k = K_state \<or> k = K_task"
  "fits k (B_all hs n) \<longleftrightarrow> k = K_all" "fits k (B_any hs n r) \<longleftrightarrow> k = K_any"
  by (cases k; simp)+

lemmas capture_atoms = action_atoms_def closure_atoms_def invoke_def drop_action_def

lemma emplace_mem:
  assumes m: "mem_ok Q c F"
  shows "res_mem Q (emplace a v c) {}"
  unfolding emplace_def
proof (rule res_mem_with_obj [OF m], goal_cases)
  case (2 w)
  then show ?case
    by (auto intro!: mem_ok_set_obj [OF m 2] mem_ok_more [OF m] simp: obj_held [OF m 2] Let_def split: option.splits body.splits func_state.splits if_splits)
qed simp

lemma set_exception_mem:
  assumes m: "mem_ok Q c F"
  shows "res_mem Q (set_exception a e c) {}"
  unfolding set_exception_def
proof (rule res_mem_with_obj [OF m], goal_cases)
  case (2 w)
  then show ?case
    by (auto intro!: mem_ok_set_obj [OF m 2] mem_ok_more [OF m] simp: obj_held [OF m 2] Let_def split: option.splits body.splits func_state.splits if_splits)
qed simp

lemma execute_mem:
  assumes m: "mem_ok Q c F"
  shows "res_mem Q (execute a c) {}"
  unfolding execute_def
proof (rule res_mem_with_obj [OF m], goal_cases)
  case (2 w)
  then show ?case
    by (auto intro!: mem_ok_set_obj [OF m 2] mem_ok_more [OF m] simp: obj_held [OF m 2] Let_def split: option.splits body.splits func_state.splits if_splits)
qed simp

lemma abandon_mem:
  assumes m: "mem_ok Q c F" and k: "A_kind K_state a \<in> F"
  shows "res_mem Q (abandon a c) {}"
  unfolding abandon_def
proof (rule res_mem_with_obj [OF m], goal_cases)
  case (2 w)
  then show ?case using k
    by (auto intro!: mem_ok_set_obj [OF m 2] mem_ok_more [OF m] simp: obj_held [OF m 2] Let_def split: option.splits body.splits func_state.splits if_splits)
qed simp

lemma clean_action_mem:
  assumes m: "mem_ok Q c F"
  shows "res_mem Q (clean_action a c) {}"
  unfolding clean_action_def
proof (rule res_mem_with_obj [OF m], goal_cases)
  case (2 w)
  then show ?case
    by (auto intro!: mem_ok_set_obj [OF m 2] mem_ok_more [OF m] simp: obj_held [OF m 2] Let_def capture_atoms split: option.splits body.splits func_state.splits if_splits)
qed simp

lemma task_run_mem:
  assumes m: "mem_ok Q c F"
  shows "res_mem Q (task_run a c) {}"
  unfolding task_run_def
proof (rule res_mem_with_obj [OF m], goal_cases)
  case (2 w)
  then show ?case
    by (auto intro!: mem_ok_set_obj [OF m 2] mem_ok_more [OF m] simp: obj_held [OF m 2] Let_def capture_atoms split: option.splits body.splits func_state.splits if_splits)
qed simp

lemma clean_func_mem:
  assumes m: "mem_ok Q c F" and k: "handles_atoms hs \<subseteq> F"
  shows "res_mem Q (clean_func a hs c) {}"
  unfolding clean_func_def
proof (rule res_mem_with_obj [OF m], goal_cases)
  case (2 w)
  then show ?case using k
    by (auto intro!: mem_ok_set_obj [OF m 2] mem_ok_more [OF m] simp: obj_held [OF m 2] Let_def capture_atoms split: option.splits body.splits func_state.splits if_splits)
qed simp

lemma task_abandon_mem:
  assumes m: "mem_ok Q c F"
  shows "res_mem Q (task_abandon a c) {}"
  unfolding task_abandon_def
proof (rule res_mem_with_obj [OF m], goal_cases)
  case (2 w)
  then show ?case
    by (auto intro!: mem_ok_set_obj [OF m 2] mem_ok_more [OF m] simp: obj_held [OF m 2] Let_def capture_atoms split: option.splits body.splits func_state.splits if_splits)
qed simp

lemma notify_all_mem:
  assumes m: "mem_ok Q c F"
  shows "res_mem Q (notify_all a c) {}"
  unfolding notify_all_def
proof (rule res_mem_with_obj [OF m], goal_cases)
  case (2 w)
  then show ?case
    by (auto intro!: mem_ok_set_obj [OF m 2] mem_ok_more [OF m] simp: obj_held [OF m 2] Let_def capture_atoms split: option.splits body.splits func_state.splits if_splits)
qed simp

lemma notify_any_mem:
  assumes m: "mem_ok Q c F"
  shows "res_mem Q (notify_any a i c) {}"
  unfolding notify_any_def
proof (rule res_mem_with_obj [OF m], goal_cases)
  case (2 w)
  then show ?case
    by (auto intro!: mem_ok_set_obj [OF m 2] mem_ok_more [OF m] simp: obj_held [OF m 2] Let_def capture_atoms split: option.splits body.splits func_state.splits if_splits)
qed simp

lemma schedule_mem:
  assumes m: "mem_ok Q c F" and k: "G \<subseteq> F"
  shows "res_mem Q (schedule a c) G"
proof (cases "obj_at c a")
  case None
  then show ?thesis using k by (auto simp: schedule_def intro: mem_ok_subset [OF m])
next
  case (Some w)
  then show ?thesis
    using k by (auto intro!: mem_ok_set_obj [OF m Some] mem_ok_more [OF m] simp: obj_held [OF m Some] subset_iff schedule_def capture_atoms split: option.splits body.splits func_state.splits exec.splits if_splits)
qed

lemma run_cnt_mem:
  assumes m: "mem_ok Q c F"
  shows "res_mem Q (run_cnt a c) {}"
proof (cases "obj_at c a")
  case None
  then show ?thesis by (auto simp: run_cnt_def intro: mem_ok_more [OF m])
next
  case (Some w)
  then show ?thesis
    by (auto intro!: mem_ok_set_obj [OF m Some] mem_ok_more [OF m] simp: obj_held [OF m Some] run_cnt_def capture_atoms split: option.splits body.splits func_state.splits exec.splits if_splits)
qed



lemma drop_storage_atoms: "frames_atoms (drop_storage s) \<subseteq> storage_atoms s"
  by (cases s) auto

lemma unwrap_mem:
  assumes m: "mem_ok Q c F" and k: "insert (A_kind K_state a) (future_atoms p) \<union> G \<subseteq> F"
  shows "res_mem Q (unwrap a p c) G"
proof (cases p)
  case None
  then show ?thesis using k by (auto intro!: mem_ok_more [OF m] simp: mem_ok_held [OF m] subset_iff)
next
  case (Some b)
  show ?thesis
    unfolding Some unwrap.simps
  proof (rule res_mem_with_obj [OF m], goal_cases)
    case (2 w)
    have "mem_ok Q (set_obj a (w\<lparr>store := S_fwd b\<rparr>) c) (insert (A_kind K_state a) (storage_atoms (store w)) \<union> G)"
    proof (rule mem_ok_set_obj [OF m 2])
      fix x assume "x \<in> obj_atoms (w\<lparr>store := S_fwd b\<rparr>)"
      then have "x \<in> future_atoms p \<or> x \<in> obj_atoms w" by (auto simp: obj_atoms_def Some)
      then show "atom_ok Q c x" using k mem_ok_held [OF m] mem_ok_atoms [OF m obj_atoms_in [OF 2]] by blast
    next
      fix x assume "x \<in> insert (A_kind K_state a) (storage_atoms (store w)) \<union> G"
      then have "x \<in> F \<or> x \<in> obj_atoms w" using k by (auto simp: obj_atoms_def)
      then show "atom_ok Q c x" using mem_ok_held [OF m] mem_ok_atoms [OF m obj_atoms_in [OF 2]] by blast
    qed simp
    from push_mem [OF this, of "C_unwrap a" "frames_atoms (drop_storage (store w)) \<union> G" b] show ?case
      using drop_storage_atoms [of "store w"] by (auto simp: res_mem_prepend)
  qed (use k in auto)
qed

lemma unwrap_cont_mem: "mem_ok Q c F \<Longrightarrow> G \<subseteq> F \<Longrightarrow> res_mem Q (unwrap_cont a c) G"
  by (auto simp: unwrap_cont_def mem_ok_held subset_iff intro!: res_mem_lock)

lemma wait_mem: "mem_ok Q c F \<Longrightarrow> G \<subseteq> F \<Longrightarrow> res_mem Q (wait a c) G"
  by (auto simp: wait_def res_mem_append intro!: push_mem)

lemma promise_dtor_mem:
  assumes m: "mem_ok Q c F" and k: "handle_atoms (H_promise w) \<subseteq> F"
  shows "res_mem Q (promise_dtor w c) {}"
  using k unfolding promise_dtor_def promise_abandon_def
  by (cases w) (auto intro!: res_mem_lock [OF m] mem_ok_more [OF m] simp: res_mem_append mem_ok_held [OF m])

lemma task_dtor_mem:
  assumes m: "mem_ok Q c F" and k: "handle_atoms (H_task w) \<union> G \<subseteq> F"
  shows "res_mem Q (task_dtor w c) G"
  using k unfolding task_dtor_def
  by (cases w) (auto simp: res_mem_append mem_ok_held [OF m] subset_iff intro!: res_mem_lock [OF m] mem_ok_more [OF m])

lemma task_call_mem:
  assumes m: "mem_ok Q c F" and k: "handle_atoms (H_task w) \<union> G \<subseteq> F"
  shows "res_mem Q (task_call w c) G"
  using k unfolding task_call_def raise_def
  by (cases w) (auto simp: res_mem_append mem_ok_held [OF m] subset_iff intro!: res_mem_lock [OF m] mem_ok_more [OF m])

lemma cnt_action_dtor_mem:
  assumes m: "mem_ok Q c F" and k: "task_atoms (T_cnt p) \<union> G \<subseteq> F"
  shows "res_mem Q (cnt_action_dtor p c) G"
  using k unfolding cnt_action_dtor_def
  by (cases p) (auto simp: res_mem_append lock_def alive_def intro!: mem_ok_more [OF m]
      simp: mem_ok_held [OF m] atom_ok_strong subset_iff)

lemma atom_ok_state: "mem_ok Q c F \<Longrightarrow> A_kind K_cnt a \<in> F \<Longrightarrow> atom_ok Q c (A_kind K_state a)"
proof -
  assume m: "mem_ok Q c F" "A_kind K_cnt a \<in> F"
  have *: "fits K_state b" if "fits K_cnt b" for b
    using that by (cases b) auto
  have "atom_ok Q c (A_kind K_cnt a)" using m by (rule mem_ok_held)
  then show "atom_ok Q c (A_kind K_state a)" using * by (auto simp: atom_ok.simps)
qed

definition gives_promise :: "action \<Rightarrow> bool" where
  "gives_promise k \<longleftrightarrow> a_deco k = Unique_interrupt \<or> a_deco k = Shared_interrupt"

lemma apply_action_mem:
  assumes m: "mem_ok Q c F" and k: "frame_atoms (F_apply k a) \<subseteq> F" and q: "gives_promise k \<Longrightarrow> Q (A_promise a)"
  shows "res_mem Q (apply_action k a c) {}"
proof -
  note held = mem_ok_held [OF m] atom_ok_state [OF m]
  have F: "A_strong a \<in> F" "A_kind K_cnt a \<in> F" "future_atoms (Some (a_parent k)) \<subseteq> F"
    "handles_atoms (caps (a_func k)) \<subseteq> F"
    using k by (auto simp: action_atoms_def closure_atoms_def)
  have then': "res_mem Q (apply_then (a_func k) a h c) {}" if "handle_atoms h \<subseteq> F" for h
    unfolding apply_then_def invoke_def using F that
    by (auto intro!: mem_ok_more [OF m] simp: held subset_iff)
  have next': "res_mem Q (apply_next (a_func k) a p c) {}" if "A_strong p \<in> F" for p
    unfolding apply_next_def invoke_def using F that
    by (auto intro!: mem_ok_more [OF m] simp: held subset_iff split: option.splits access.splits)
  have void_next': "res_mem Q (apply_void_next (a_func k) a p c) {}" if "A_strong p \<in> F" for p
    unfolding apply_void_next_def invoke_def using F that
    by (auto intro!: mem_ok_more [OF m] simp: held subset_iff split: option.splits access.splits)
  have int': "res_mem Q (apply_interruptible (a_func k) a h c) {}" if "handle_atoms h \<subseteq> F" "Q (A_promise a)" for h
    unfolding apply_interruptible_def invoke_def using F that
    by (auto intro!: mem_ok_more [OF m] simp: held atom_ok.simps(3) subset_iff)
  show ?thesis
    using F then' next' void_next' int' q by (cases "a_deco k") (simp_all add: apply_action_def gives_promise_def)
qed

fun subscribes :: "'v frame \<Rightarrow> addr \<Rightarrow> bool" where
  "subscribes (F_subscribe_all a _) b \<longleftrightarrow> b = a"
| "subscribes (F_subscribe_any a _) b \<longleftrightarrow> b = a"
| "subscribes _ _ \<longleftrightarrow> False"

text \<open>The call that gives the future of a sequence ends the subscription.\<close>

definition completes :: "'v frame \<Rightarrow> 'v cfg \<Rightarrow> addr \<Rightarrow> bool" where
  "completes f c a \<longleftrightarrow> subscribes f a \<and> F_give (H_future (Some a)) \<in> set (snd (perform f c))"

lemma subscribe_all_mem:
  assumes m: "mem_ok Q c F" and k: "{A_strong a, A_kind K_all a} \<subseteq> F"
    and q: "F_give (H_future (Some a)) \<in> set (snd (subscribe_all a i c)) \<Longrightarrow> Q (A_future a)"
  shows "res_mem Q (subscribe_all a i c) {}"
proof -
  have q': "Q (A_future a)" if "obj_at c a = Some w" "body w = B_all hs n" "\<not> i < length hs" for w hs n
    using q that by (simp add: subscribe_all_def with_obj_def)
  show ?thesis
    unfolding subscribe_all_def
  proof (rule res_mem_with_obj [OF m], goal_cases)
    case (2 w)
    then show ?case
      using k q' [OF 2] by (auto intro!: push_mem [OF m] mem_ok_more [OF m]
          simp: res_mem_append atom_ok.simps(4) obj_held [OF m 2] split: option.splits body.splits)
  qed simp
qed

lemma subscribe_any_mem:
  assumes m: "mem_ok Q c F" and k: "{A_strong a, A_kind K_any a} \<subseteq> F"
    and q: "F_give (H_future (Some a)) \<in> set (snd (subscribe_any a i c)) \<Longrightarrow> Q (A_future a)"
  shows "res_mem Q (subscribe_any a i c) {}"
proof -
  have q': "Q (A_future a)" if "obj_at c a = Some w" "body w = B_any hs n r" "\<not> i < length hs" for w hs n r
    using q that by (simp add: subscribe_any_def with_obj_def)
  show ?thesis
    unfolding subscribe_any_def
  proof (rule res_mem_with_obj [OF m], goal_cases)
    case (2 w)
    then show ?case
      using k q' [OF 2] by (auto intro!: push_mem [OF m] mem_ok_more [OF m]
          simp: res_mem_append atom_ok.simps(4) obj_held [OF m 2] split: option.splits body.splits)
  qed simp
qed

lemma handle_dtor_mem:
  assumes m: "mem_ok Q c F" and k: "handle_atoms h \<subseteq> F"
  shows "res_mem Q (handle_dtor h c) {}"
  using k promise_dtor_mem [OF m] task_dtor_mem [OF m]
  by (cases h) (auto simp: handle_dtor_def intro!: mem_ok_more [OF m] simp: mem_ok_held [OF m] split: option.splits)

lemma drop_handles_atoms [simp]: "frames_atoms (drop_handles hs) = handles_atoms hs"
  by (auto simp: drop_handles_def frames_atoms_def handles_atoms_def)

lemma map_drop_atoms [simp]: "frames_atoms (map F_drop hs) = handles_atoms hs"
  by (auto simp: frames_atoms_def handles_atoms_def)

lemma cont_dtor_atoms: "frames_atoms (cont_dtor k) \<subseteq> cont_atoms k"
  by (cases k) (auto simp: cont_dtor_def closure_atoms_def)

lemma drop_conts_atoms: "frames_atoms (drop_conts ks) \<subseteq> conts_atoms ks"
  using cont_dtor_atoms by (induction ks) auto

lemma task_dtor_frames_mem:
  assumes m: "mem_ok Q c F" and k: "task_atoms k \<union> G \<subseteq> F"
  shows "res_mem Q (task_dtor_frames k c) G"
  using k cnt_action_dtor_mem [OF m] task_dtor_mem [OF m]
  by (cases k) (auto simp: task_dtor_frames_def closure_atoms_def simp: mem_ok_held [OF m] subset_iff intro!: mem_ok_more [OF m])

lemma obj_dtor_atoms: "frames_atoms (snd (obj_dtor w c)) \<subseteq> obj_atoms w"
  using drop_storage_atoms [of "store w"]
  by (auto simp: obj_dtor_def state_dtor_def obj_atoms_def capture_atoms
      split: body.splits func_state.splits option.splits if_splits)

lemma obj_dtor_fst: "fst (obj_dtor w c) = c \<or> (\<exists>e. fst (obj_dtor w c) = observe e c)"
  by (auto simp: obj_dtor_def split: body.splits func_state.splits)

lemma release_mem:
  assumes m: "mem_ok Q c F" and k: "A_strong a \<in> F"
  shows "res_mem Q (release a c) {}"
proof (cases "owned c a")
  case False
  obtain w where w: "obj_at c a = Some w"
    using mem_ok_held [OF m k] by (auto simp: atom_ok.simps alive_def)
  have "mem_ok Q (kill a c) (frames_atoms (snd (obj_dtor w (observe (E_dead a) (kill a c)))))"
    using mem_ok_kill [OF m False] obj_dtor_atoms obj_atoms_in [OF w] by (metis subsetD)
  then show ?thesis
    using False w obj_dtor_fst [of w "observe (E_dead a) (kill a c)"]
    by (auto simp: release_def res_mem_def)
qed (auto simp: release_def intro: mem_ok_more [OF m])

lemma called_cont_atoms: "cont_atoms (called_cont k) \<subseteq> cont_atoms k"
  by (cases k) (auto simp: called_cont_def no_caps_def closure_atoms_def split: exec.splits)

lemma call_cont_mem:
  assumes m: "mem_ok Q c F" and k: "cont_atoms k \<union> G \<subseteq> F"
  shows "res_mem Q (call_cont k c) G"
  using k schedule_mem [OF m] unwrap_cont_mem [OF m]
  by (cases k) (auto simp: call_cont_def wait_cont_def call_closure_def capture_atoms
      intro: mem_ok_subset [OF m] split: exec.splits)

lemma loop_mem:
  assumes m: "mem_ok Q c F" and k: "conts_atoms ks \<union> conts_atoms done \<subseteq> F"
  shows "res_mem Q (loop ks done c) {}"
proof (cases ks)
  case (Cons k ks')
  have "cont_atoms k \<union> (conts_atoms ks' \<union> (conts_atoms done \<union> cont_atoms (called_cont k))) \<subseteq> F"
    using assms(2) Cons called_cont_atoms [of k] by auto
  from call_cont_mem [OF m this] show ?thesis
    by (simp add: Cons res_mem_append Un_ac)
qed (use k in \<open>auto intro: mem_ok_subset [OF m]\<close>)

lemma run_task_mem:
  assumes m: "mem_ok Q c F" and k: "task_atoms k \<union> G \<subseteq> F"
  shows "res_mem Q (run_task k c) G"
proof (cases k)
  case (T_task w)
  then show ?thesis
    using k task_call_mem [OF m, of w "handle_atoms (H_task w) \<union> G"] by (simp add: run_task_def res_mem_append)
qed (use k in \<open>auto simp: run_task_def call_closure_def capture_atoms intro: mem_ok_subset [OF m] split: option.splits\<close>)

lemma mem_ok_posted:
  assumes "mem_ok Q c F" "\<And>x n k. (n, k) \<in> set q \<Longrightarrow> x \<in> task_atoms k \<Longrightarrow> x \<in> atoms c \<or> x \<in> F"
    and "G \<subseteq> F"
  shows "mem_ok Q (c\<lparr>posted := q\<rparr>) G"
proof -
  have eq: "atom_ok Q (c\<lparr>posted := q\<rparr>) = atom_ok Q c"
    by (rule ext, case_tac x, simp_all add: atom_ok.simps alive_def)
  have "atom_ok Q c x" if "x \<in> atoms (c\<lparr>posted := q\<rparr>)" for x
    using that
  proof (cases rule: atomsE)
    case (1 a w)
    then show ?thesis using assms(1) by (auto intro: mem_ok_atoms obj_atoms_in)
  next
    case 2
    then consider n k where "(n, k) \<in> set q" "x \<in> task_atoms k" | "x \<in> other_atoms c"
      by (auto simp: other_atoms_def)
    then show ?thesis
      using assms(2) mem_ok_atoms [OF assms(1)] mem_ok_held [OF assms(1)] other_atoms_in by cases blast+
  qed
  then show ?thesis using assms(1,3) by (auto simp: mem_ok_def eq)
qed

lemma posted_atoms: "(n, k) \<in> set (posted c) \<Longrightarrow> x \<in> task_atoms k \<Longrightarrow> x \<in> atoms c"
  by (force simp: atoms_def)

lemma post_mem:
  assumes m: "mem_ok Q c F" and k: "task_atoms k \<subseteq> F"
  shows "res_mem Q (post ex k c) {}"
proof (cases ex)
  case (Executor n)
  have "mem_ok Q (c\<lparr>posted := posted c @ [(n, k)]\<rparr>) {}"
    by (rule mem_ok_posted [OF m]) (use k posted_atoms in auto)
  then show ?thesis by (simp add: post_def Executor)
qed (use run_task_mem [OF m, of k "{}"] k in \<open>simp add: post_def\<close>)

text \<open>Every call of the library keeps all references valid.\<close>

lemma perform_mem:
  assumes m: "mem_ok Q c (frame_atoms f)" and q: "\<And>k a. f = F_apply k a \<Longrightarrow> gives_promise k \<Longrightarrow> Q (A_promise a)"
      "\<And>a. completes f c a \<Longrightarrow> Q (A_future a)"
  shows "res_mem Q (perform f c) {}"
proof (cases f)
  case (F_subscribe_all a i)
  then show ?thesis using subscribe_all_mem [OF m, of a i] q(2) [of a] by (simp add: completes_def)
next
  case (F_subscribe_any a i)
  then show ?thesis using subscribe_any_mem [OF m, of a i] q(2) [of a] by (simp add: completes_def)
next
  case (F_unwrap a p t)
  have "mem_ok Q c (frame_atoms f \<union> {A_writer a})"
    using m by (auto simp: mem_ok_def)
  then have "res_mem Q (unwrap a p c) {A_writer a, A_kind K_state a}"
    by (rule unwrap_mem) (auto simp: F_unwrap)
  moreover from this have "res_mem Q (unwrap a p c) {}"
    by (auto simp: res_mem_def intro: mem_ok_subset)
  ultimately show ?thesis by (auto simp: F_unwrap res_mem_append)
next
  case (F_drop_conts ks)
  then show ?thesis using drop_conts_atoms [of ks] m by (auto intro: mem_ok_subset)
next
  case (F_cnt_abandon a)
  then have "atom_ok Q c (A_kind K_state a)" "atom_ok Q c (A_kind K_cnt a)"
    using atom_ok_state [OF m] mem_ok_held [OF m] by simp_all
  then show ?thesis
    by (auto simp: F_cnt_abandon cnt_abandon_def intro!: mem_ok_more [OF m])
qed (simp_all add: release_mem [OF m] handle_dtor_mem [OF m] task_dtor_frames_mem [OF m] emplace_mem [OF m]
    set_exception_mem [OF m] abandon_mem [OF m] execute_mem [OF m] loop_mem [OF m] post_mem [OF m]
    run_cnt_mem [OF m] apply_action_mem [OF m _ q(1)] clean_action_mem [OF m] task_run_mem [OF m]
    clean_func_mem [OF m] task_abandon_mem [OF m]
    notify_all_mem [OF m] notify_any_mem [OF m] mem_ok_subset [OF m] subset_insertI)


section \<open>Raw pointers are covered\<close>

text \<open>
  The objects that a frame accesses without a shared pointer of its own: a frame
  below has one.
\<close>

fun raw :: "'v frame \<Rightarrow> addr set" where
  "raw (F_user (U_set a _) _ _) = {a}"
| "raw (F_emplace a _) = {a}"
| "raw (F_set_exn a _) = {a}"
| "raw (F_unwrap a _ _) = {a}"
| "raw (F_abandon a) = {a}"
| "raw (F_execute a) = {a}"
| "raw (F_cnt_abandon a) = {a}"
| "raw (F_clean_action a) = {a}"
| "raw (F_task_run a) = {a}"
| "raw (F_clean_func a _) = {a}"
| "raw (F_task_abandon a) = {a}"
| "raw (F_notify_all a) = {a}"
| "raw (F_notify_any a _) = {a}"
| "raw (F_catch a) = {a}"
| "raw _ = {}"

fun covers :: "atom set \<Rightarrow> 'v frame list \<Rightarrow> bool" where
  "covers S [] = True"
| "covers S (f # fs) \<longleftrightarrow> (\<forall>a \<in> raw f. A_strong a \<in> frames_atoms fs \<union> S) \<and> covers S fs"

lemma covers_append [simp]:
  "covers S (fs @ gs) \<longleftrightarrow> covers (frames_atoms gs \<union> S) fs \<and> covers S gs"
  by (induction fs) auto

lemma covers_mono: "covers S fs \<Longrightarrow> S \<subseteq> S' \<Longrightarrow> covers S' fs"
  by (induction fs) auto

lemma covers_no_raw: "(\<And>f. f \<in> set fs \<Longrightarrow> raw f = {}) \<Longrightarrow> covers S fs"
  by (induction fs) auto

lemma drop_handles_no_raw: "covers S (drop_handles hs)" "covers S (map F_drop hs)"
  by (auto simp: drop_handles_def intro!: covers_no_raw)

lemma cont_dtor_no_raw: "covers S (cont_dtor k)"
  by (cases k) (auto simp: cont_dtor_def)

lemma drop_storage_no_raw: "covers S (drop_storage s)"
  by (cases s) auto

lemma drop_conts_no_raw: "covers S (drop_conts ks)"
  by (induction ks) (auto simp: cont_dtor_no_raw)

lemma drop_action_no_raw: "covers S (drop_action p)"
  by (auto simp: drop_action_def split: option.splits)

lemmas no_raw = drop_handles_no_raw cont_dtor_no_raw drop_storage_no_raw drop_conts_no_raw drop_action_no_raw

text \<open>The calls that an operation leaves are covered by \<open>S\<close>, those of the frames below.\<close>

lemma covers_with_obj:
  "(\<And>w. obj_at c a = Some w \<Longrightarrow> covers S (snd (g w c))) \<Longrightarrow> covers S (snd (with_obj a g c))"
  by (auto simp: with_obj_def crash_with_def split: option.splits)

lemma covers_append_case:
  "covers S (snd (case r of (c', fs) \<Rightarrow> (c', fs @ gs))) \<longleftrightarrow> covers (frames_atoms gs \<union> S) (snd r) \<and> covers S gs"
  "covers S (snd (case r of (c', fs) \<Rightarrow> (c', gs @ fs))) \<longleftrightarrow>
     covers (frames_atoms (snd r) \<union> S) gs \<and> covers S (snd r)"
  by (cases r; simp)+

lemma push_covers: "covers S (snd (push a k c))"
  unfolding push_def by (rule covers_with_obj) (auto split: option.splits)

lemma lock_covers: "covers (insert (A_strong a) S) fs \<Longrightarrow> covers S (snd (lock a fs c))"
  by (auto simp: lock_def)

lemma dtor_covers:
  "covers S (snd (promise_dtor w c))" "covers S (snd (task_dtor w c))" "covers S (snd (cnt_action_dtor p c))"
  "covers S (snd (handle_dtor h c))" "covers S (snd (task_dtor_frames k c))"
  by (auto simp: promise_dtor_def promise_abandon_def task_dtor_def cnt_action_dtor_def lock_def handle_dtor_def
      task_dtor_frames_def split: owner.splits option.splits handle.splits task.splits)

lemma obj_dtor_covers: "covers S (snd (obj_dtor w c))"
  by (auto simp: obj_dtor_def state_dtor_def no_raw invoke_def split: body.splits func_state.splits option.splits)

lemma release_covers: "covers S (snd (release a c))"
  by (auto simp: release_def obj_dtor_covers crash_with_def split: option.splits)

lemma task_call_covers: "covers S (snd (task_call w c))"
  by (auto simp: task_call_def raise_def lock_def split: owner.splits)

lemma run_task_covers: "covers S (snd (run_task k c))"
  by (auto simp: run_task_def call_closure_def invoke_def covers_append_case task_call_covers
      split: task.splits option.splits)

lemma loop_covers: "covers S (snd (loop ks done c))"
proof (cases ks)
  case (Cons k ks')
  have "covers (cont_atoms (called_cont k) \<union> T) (snd (call_cont k c))" for T
    by (cases k) (auto simp: call_cont_def called_cont_def schedule_def unwrap_cont_def lock_def wait_cont_def
      call_closure_def invoke_def crash_with_def split: option.splits body.splits exec.splits)
  then show ?thesis by (auto simp: Cons covers_append_case Un_ac intro: covers_mono)
qed simp

lemma apply_action_covers: "covers S (snd (apply_action k a c))"
  by (cases "a_deco k") (auto simp: apply_action_def apply_then_def apply_next_def apply_void_next_def
      apply_interruptible_def invoke_def crash_with_def split: option.splits access.splits)

lemma perform_covers:
  assumes "\<forall>a \<in> raw f. A_strong a \<in> S"
  shows "covers S (snd (perform f c))"
proof (cases f)
  case (F_unwrap a p t)
  then show ?thesis
    using assms
    by (cases p) (auto simp: covers_append_case with_obj_def crash_with_def no_raw push_covers
        intro: covers_mono split: option.splits)
next
  case (F_post ex k)
  then show ?thesis by (cases ex) (auto simp: post_def run_task_covers)
qed (use assms in \<open>auto simp: no_raw release_covers dtor_covers loop_covers apply_action_covers push_covers
     emplace_def set_exception_def abandon_def execute_def run_cnt_def cnt_abandon_def clean_action_def task_run_def
     clean_func_def task_abandon_def subscribe_all_def subscribe_any_def notify_all_def notify_any_def crash_with_def
     invoke_def covers_append_case Let_def
     intro!: covers_with_obj split: option.splits body.splits func_state.splits\<close>)

end
