(* ===== verification/Machine_Safety.thy ===== *)
theory Machine_Safety
  imports Memory
begin

text \<open>
  Memory safety of the future machine: the commands of user code and the steps of the
  machine keep the invariant \<open>mem_inv\<close>, and a step from a state with the invariant
  never accesses an object that is dead. The invariant is the interpretation
  \<open>machine_memory\<close> of the interface of invariants.
\<close>

section \<open>Calls do not touch the stacks\<close>

lemma stacks_update [simp]:
  "stacks (c\<lparr>waits := ws\<rparr>) = stacks c" "stacks (c\<lparr>signalled := ss\<rparr>) = stacks c"
  "stacks (c\<lparr>crashed := k\<rparr>) = stacks c" "stacks (c\<lparr>posted := q\<rparr>) = stacks c"
  by simp_all

lemma stacks_append_case [simp]:
  "stacks (fst (case r of (c', fs) \<Rightarrow> (c', fs @ gs))) = stacks (fst r)"
  "stacks (fst (case r of (c', fs) \<Rightarrow> (c', gs @ fs))) = stacks (fst r)"
  by (cases r; simp)+

lemma stacks_with_obj [simp]:
  "(\<And>w. obj_at c a = Some w \<Longrightarrow> stacks (fst (g w c)) = stacks c) \<Longrightarrow> stacks (fst (with_obj a g c)) = stacks c"
  by (auto simp: with_obj_def crash_with_def split: option.splits)

lemma stacks_simple [simp]:
  "stacks (fst (crash_with k c)) = stacks c" "stacks (fst (lock a fs c)) = stacks c"
  "stacks (fst (raise e c)) = stacks c" "stacks (fst (no_state hs c)) = stacks c"
  by (simp_all add: crash_with_def lock_def raise_def no_state_def)

lemma stacks_push [simp]: "stacks (fst (push a k c)) = stacks c"
  unfolding push_def by (rule stacks_with_obj) (auto split: option.splits)

lemma stacks_wait [simp]: "stacks (fst (wait a c)) = stacks c"
  by (simp add: wait_def Let_def)

lemma stacks_dtor [simp]:
  "stacks (fst (promise_dtor w c)) = stacks c" "stacks (fst (task_dtor w c)) = stacks c"
  "stacks (fst (cnt_action_dtor p c)) = stacks c"
  "stacks (fst (handle_dtor h c)) = stacks c" "stacks (fst (task_dtor_frames k c)) = stacks c"
  by (auto simp: promise_dtor_def promise_abandon_def task_dtor_def cnt_action_dtor_def handle_dtor_def
      task_dtor_frames_def split: owner.splits option.splits handle.splits task.splits)

lemma stacks_release [simp]: "stacks (fst (release a c)) = stacks c"
  by (auto simp: release_def obj_dtor_def split: option.splits body.splits func_state.splits)

lemma stacks_call [simp]:
  "stacks (fst (task_call w c)) = stacks c" "stacks (fst (call_closure f c)) = stacks c"
  "stacks (fst (schedule a c)) = stacks c" "stacks (fst (unwrap_cont a c)) = stacks c"
  "stacks (fst (wait_cont n c)) = stacks c"
  by (auto simp: task_call_def call_closure_def schedule_def unwrap_cont_def wait_cont_def
      split: owner.splits option.splits body.splits)

lemma stacks_call_cont [simp]: "stacks (fst (call_cont k c)) = stacks c"
  by (cases k) (auto simp: call_cont_def split: exec.splits)

lemma stacks_loop [simp]: "stacks (fst (loop ks done c)) = stacks c"
  by (cases ks) simp_all

lemma stacks_run_task [simp]: "stacks (fst (run_task k c)) = stacks c"
  by (auto simp: run_task_def split: task.splits option.splits)

lemma stacks_post [simp]: "stacks (fst (post ex k c)) = stacks c"
  by (cases ex) (simp_all add: post_def)

lemma stacks_apply_action [simp]: "stacks (fst (apply_action k a c)) = stacks c"
  by (cases "a_deco k") (auto simp: apply_action_def apply_then_def apply_next_def apply_void_next_def
      apply_interruptible_def split: option.splits access.splits)

lemma stacks_unwrap [simp]: "stacks (fst (unwrap a p c)) = stacks c"
  by (cases p) auto

lemma stacks_perform [simp]: "stacks (fst (perform f c)) = stacks c"
  by (cases f) (auto simp: emplace_def set_exception_def abandon_def execute_def run_cnt_def cnt_abandon_def
      clean_action_def task_run_def clean_func_def task_abandon_def subscribe_all_def subscribe_any_def
      notify_all_def notify_any_def Let_def
      intro!: stacks_with_obj split: option.splits body.splits func_state.splits)

lemma stacks_new_state [simp]:
  "stacks (fst (make_promise b c)) = stacks c" "stacks (fst (promise_ctor b c)) = stacks c"
  "stacks (fst (packaged_task f c)) = stacks c"
  by (simp_all add: make_promise_def promise_ctor_def packaged_task_def)

lemma stacks_future [simp]:
  "stacks (fst (make_then_state p ex k h c)) = stacks c" "stacks (fst (future_wait h c)) = stacks c"
  "stacks (fst (future_get i h c)) = stacks c" "stacks (fst (is_ready h c)) = stacks c"
  "stacks (fst (notify h f c)) = stacks c" "stacks (fst (notify_on h ex f c)) = stacks c"
  "stacks (fst (detach h c)) = stacks c" "stacks (fst (async ex f c)) = stacks c"
  "stacks (fst (make_ready_future v c)) = stacks c" "stacks (fst (make_exceptional_future e c)) = stacks c"
  "stacks (fst (when_all_make hs c)) = stacks c" "stacks (fst (when_any_make hs c)) = stacks c"
  "stacks (fst (promise_set_value w v c)) = stacks c" "stacks (fst (promise_set_exception w e c)) = stacks c"
  "stacks (fst (ask r c)) = stacks c" "stacks (fst (when_all_range hs v c)) = stacks c"
  by (auto simp: make_then_state_def when_all_range_def future_eq
      detach_eq async_def make_ready_future_def make_exceptional_future_def when_all_make_def when_any_make_def
      promise_set_value_def promise_set_exception_def ask_def packaged_task_def make_promise_def promise_ctor_def
      Let_def split: option.splits sum.splits)

lemma stacks_attach [simp]: "stacks (fst (attach d h ex f g c)) = stacks c"
  by (auto simp: attach_def split: option.splits)

lemma stacks_then [simp]:
  "stacks (fst (snd (future_then h ex f c))) = stacks c"
  "stacks (fst (snd (future_then_promise h ex f c))) = stacks c"
  "stacks (fst (snd (future_next h vd ex f c))) = stacks c"
  by (simp_all add: future_then_eq Let_def)

lemma call_Some: "call hs g c = Some (c', hs', fs) \<longleftrightarrow> c' = fst (g c) \<and> hs' = hs \<and> fs = snd (g c)"
  by (cases "g c") (auto simp: call_def)

lemma attach_cmd_Some:
  assumes "attach_cmd i f is hs g = Some (c', hs', fs)"
  obtains f' hs1 where "capture f is hs = Some (f', hs1)" "is_future (var i hs1)"
    "hs' = hs1[i := fst (g (var i hs1) f')]" "c' = fst (snd (g (var i hs1) f'))" "fs = snd (snd (g (var i hs1) f'))"
  using assms
  by (cases "capture f is hs") (auto simp: attach_cmd_def with_closure_def Let_def split: if_splits prod.splits)


text \<open>What an awaiter does is what a notification does.\<close>

lemma await_suspend_Some:
  assumes "api_step (Await_suspend i f is) hs c = Some r"
  shows "api_step (Notify i f is) hs c = Some r"
proof -
  obtain f' hs' where w: "capture f is hs = Some (f', hs')" "valid (var i hs')" "call hs' (await_suspend (var i hs') f') c = Some r"
    using assms by (auto simp: with_closure_def split: option.splits if_splits)
  have "is_future (var i hs')" "i < length hs'"
    using w(2) by (cases "var i hs'"; auto simp: future_eq var_def split: if_splits)+
  then show ?thesis
    using w by (auto simp: attach_cmd_def with_closure_def call_def await_suspend_notify var_def split: prod.splits)
qed

lemma local_step_frames: "local_step lc hs = Some (hs', fs) \<Longrightarrow> fs = [] \<or> (\<exists>p. fs = [F_drop (H_shared p)])"
  by (cases lc) (auto simp: copy_assign_def split: handle.splits)

section \<open>User code keeps references valid\<close>

lemma handles_atoms_update: "x \<in> handles_atoms (hs[i := h]) \<Longrightarrow> x \<in> handle_atoms h \<or> x \<in> handles_atoms hs"
  using set_update_subset_insert [of hs i h] by (auto simp: handles_atoms_def)

lemma handles_atoms_nth: "i < length hs \<Longrightarrow> handle_atoms (hs ! i) \<subseteq> handles_atoms hs"
  by (auto simp: handles_atoms_def intro: bexI [OF _ nth_mem])

lemma var_atoms: "handle_atoms (var i hs) \<subseteq> handles_atoms hs"
  using handles_atoms_nth by (auto simp: var_def)

lemma moved_atoms [simp]: "handle_atoms (moved h) = {}"
  by (cases h) auto

lemma map_moved_atoms [simp]: "handles_atoms (map moved hs) = {}"
  by (auto simp: handles_atoms_def)

lemma state_of_atoms: "future_atoms (state_of h) \<subseteq> handle_atoms h"
  by (cases h) auto

lemma share_atoms: "is_future h \<Longrightarrow> handle_atoms (share h) = handle_atoms h"
  by (cases h) auto

lemma gone_atoms: "handles_atoms (foldr (\<lambda>i gs. gs[i := H_gone]) is hs) \<subseteq> handles_atoms hs"
proof (induction "is")
  case (Cons i "is")
  then show ?case using handles_atoms_update [of _ "foldr (\<lambda>i gs. gs[i := H_gone]) is hs" i H_gone] by auto
qed simp

lemma move_out_atoms:
  assumes "move_out is hs = Some (gs, hs')"
  shows "handles_atoms gs \<subseteq> handles_atoms hs" "handles_atoms hs' \<subseteq> handles_atoms hs"
proof -
  show "handles_atoms hs' \<subseteq> handles_atoms hs"
    using assms gone_atoms by (auto simp: move_out_def split: if_splits)
  have "gs = map (\<lambda>i. hs ! i) is" "list_all (\<lambda>i. i < length hs) is"
    using assms by (auto simp: move_out_def split: if_splits)
  then show "handles_atoms gs \<subseteq> handles_atoms hs"
    by (force simp: handles_atoms_def list_all_iff)
qed

lemma capture_atoms_subset:
  assumes "capture f is hs = Some (f', hs')"
  shows "handles_atoms (caps f') \<subseteq> handles_atoms hs" "handles_atoms hs' \<subseteq> handles_atoms hs"
proof -
  obtain gs where "move_out is hs = Some (gs, hs')" "f' = f\<lparr>caps := gs\<rparr>"
    using assms by (auto simp: capture_def split: option.splits)
  then show "handles_atoms (caps f') \<subseteq> handles_atoms hs" "handles_atoms hs' \<subseteq> handles_atoms hs"
    using move_out_atoms by auto
qed

lemma capture_option_atoms:
  assumes "capture_option p hs = Some (q, hs')"
  shows "body_atoms (canceler_body q) \<subseteq> handles_atoms hs" "handles_atoms hs' \<subseteq> handles_atoms hs"
  using assms capture_atoms_subset
  by (fastforce simp: capture_option_def canceler_body_def closure_atoms_def split: option.splits)+

lemma new_state_mem:
  assumes m: "mem_ok Q c F" and k: "body_atoms b \<subseteq> F"
    and "\<And>x. x \<in> G \<Longrightarrow> x \<in> F \<or> x = A_strong (fresh c) \<or> x = A_promise (fresh c) \<and> Q (A_promise (fresh c)) \<or>
      x = A_future (fresh c) \<and> Q (A_future (fresh c)) \<or> x = A_writer (fresh c) \<or>
      (\<exists>k. fits k b \<and> x = A_kind k (fresh c))"
  shows "mem_ok Q (new_obj (new_state b) c) G"
proof (rule mem_ok_new_obj [OF m])
  fix x assume "x \<in> G"
  then show "atom_ok Q (new_obj (new_state b) c) x"
    using assms(3) [of x] mem_ok_held [OF m]
    by (auto intro: atom_ok_new_obj atom_ok_fresh simp: new_state_def atom_ok.simps(3,4))
qed (use k mem_ok_held [OF m] in auto)

lemma make_then_state_mem:
  assumes m: "mem_ok Q c F" and k: "action_atoms k \<union> G \<subseteq> F" and h: "handle_atoms h = future_atoms (Some (fresh c))"
    and q: "Q (A_future (fresh c))"
  shows "res_mem Q (make_then_state p ex k h c) G"
proof -
  have "mem_ok Q (new_obj (new_state (B_cnt (Some ex) (Some k))) c)
     (G \<union> insert (A_kind K_cnt (fresh c)) (future_atoms (Some (fresh c))))"
    by (rule new_state_mem [OF m]) (use k q in auto)
  then have "res_mem Q (push p (C_schedule (fresh c)) (new_obj (new_state (B_cnt (Some ex) (Some k))) c))
     (G \<union> future_atoms (Some (fresh c)))"
    by (rule push_mem) auto
  then show ?thesis by (simp add: make_then_state_def res_mem_append h Un_ac)
qed

lemma no_state_mem: "mem_ok Q c F \<Longrightarrow> handles_atoms hs \<union> G \<subseteq> F \<Longrightarrow> res_mem Q (no_state hs c) G"
  by (auto simp: no_state_def intro: mem_ok_subset)

lemma attach_mem:
  assumes m: "mem_ok Q c F" and k: "handle_atoms h \<union> handles_atoms (caps f) \<union> G \<subseteq> F"
    and h: "handle_atoms g = future_atoms (Some (fresh c))" and q: "Q (A_future (fresh c))"
  shows "res_mem Q (attach d h ex f g c) G"
  using k state_of_atoms [of h]
  by (auto simp: attach_def action_atoms_def closure_atoms_def
      intro!: no_state_mem [OF m] make_then_state_mem [OF m _ h q] split: option.splits)

lemma cnt_future_atoms [simp]: "handle_atoms (cnt_future f a) = future_atoms (Some a)"
  by (cases "wrap f") (auto simp: cnt_future_def)

lemma after_attach_atoms: "handle_atoms (after_attach d h) \<subseteq> handle_atoms h"
  by (cases h) (auto simp: after_attach_def)

lemma future_then_mem:
  assumes m: "mem_ok Q c F" and k: "handle_atoms h \<union> handles_atoms (caps f) \<union> G \<subseteq> F"
    and q: "Q (A_future (fresh c))"
  shows "res_mem Q (snd (future_then h ex f c)) (handle_atoms (fst (future_then h ex f c)) \<union> G)"
    "res_mem Q (snd (future_then_promise h ex f c)) (handle_atoms (fst (future_then_promise h ex f c)) \<union> G)"
    "res_mem Q (snd (future_next h vd ex f c)) (handle_atoms (fst (future_next h vd ex f c)) \<union> G)"
  using k after_attach_atoms [of _ h]
  by (auto simp: future_then_eq Let_def intro!: attach_mem [OF m _ _ q])

lemma future_ops_mem:
  assumes m: "mem_ok Q c F" and k: "handle_atoms h \<union> G \<subseteq> F"
  shows "res_mem Q (future_wait h c) G" "res_mem Q (future_get i h c) G" "res_mem Q (is_ready h c) G"
    "handle_atoms h = future_atoms (state_of h) \<Longrightarrow> res_mem Q (detach h c) G"
    "handles_atoms (caps f) \<subseteq> F \<Longrightarrow> res_mem Q (notify h f c) G"
    "handles_atoms (caps f) \<subseteq> F \<Longrightarrow> res_mem Q (notify_on h ex f c) G"
  using k state_of_atoms [of h]
  by (auto simp: future_eq detach_eq future_eq res_mem_append
      closure_atoms_def intro!: wait_mem [OF m] push_mem [OF m] no_state_mem [OF m] intro: mem_ok_subset [OF m]
      split: option.splits)


lemma res_mem_call:
  "call hs g c = Some (c', hs', fs) \<Longrightarrow> res_mem Q (g c) (handles_atoms hs \<union> G) \<Longrightarrow>
    mem_ok Q c' (frames_atoms fs \<union> (handles_atoms hs' \<union> G))"
  by (auto simp: call_Some res_mem_def)

lemma promise_ops_mem:
  assumes m: "mem_ok Q c F" and k: "handle_atoms (H_promise w) \<union> G \<subseteq> F"
  shows "res_mem Q (promise_set_value w v c) G" "res_mem Q (promise_set_exception w e c) G"
  using k
  by (auto simp: promise_set_value_def promise_set_exception_def get_state_def raise_def alive_def
      intro!: mem_ok_more [OF m] simp: mem_ok_held [OF m] atom_ok_strong subset_iff
      split: option.splits sum.splits owner.splits if_splits)

lemma ask_mem: "mem_ok Q c F \<Longrightarrow> G \<subseteq> F \<Longrightarrow> res_mem Q (ask r c) G"
  by (auto simp: ask_def raise_def intro: mem_ok_subset split: sum.splits)

text \<open>The commands that make a function's result the result of a new state; they make no promise.\<close>

fun makes_function :: "'v cmd \<Rightarrow> bool" where
  "makes_function (New_task _ _) = True"
| "makes_function (Async _ _ _) = True"
| "makes_function (Then _ _ _ _) = True"
| "makes_function (Then_promise _ _ _ _) = True"
| "makes_function (Next _ _ _ _ _) = True"
| "makes_function _ = False"

definition creates :: "'v cmd option \<Rightarrow> bool" where
  "creates l \<longleftrightarrow> (case l of None \<Rightarrow> False | Some cm \<Rightarrow> makes_function cm)"

lemma makes_forwarded [simp]: "makes_function (forwarded cm) = makes_function cm"
  by (cases cm) (simp_all add: await_ready_def await_resume_def get_return_object_def return_value_def
      unhandled_exception_def apply_future_get_def apply_future_ready_def when_all_none_def when_any_none_def)

text \<open>The commands that make a sequence of futures, whose future they give when it is complete.\<close>

fun makes_sequence :: "'v cmd \<Rightarrow> bool" where
  "makes_sequence (When_all _) = True"
| "makes_sequence (When_any _) = True"
| "makes_sequence (When_all_range is _) = (is \<noteq> [])"
| "makes_sequence (When_any_range _) = True"
| "makes_sequence _ = False"

text \<open>\<open>Q\<close> permits the promises and futures that a command makes.\<close>

definition permits :: "(atom \<Rightarrow> bool) \<Rightarrow> 'v cfg \<Rightarrow> 'v cmd \<Rightarrow> bool" where
  "permits Q c cm \<longleftrightarrow> (\<not> makes_function cm \<longrightarrow> Q (A_promise (fresh c))) \<and>
     (\<not> makes_sequence cm \<longrightarrow> Q (A_future (fresh c))) \<and>
     (\<forall>a k. k \<notin> {K_all, K_any} \<longrightarrow> atom_ok Q c (A_kind k a) \<longrightarrow> Q (A_future a))"

lemma permits_forwarded [simp]: "permits Q c (forwarded cm) = permits Q c cm"
proof -
  have "makes_sequence (forwarded cm) = makes_sequence cm"
    by (cases cm) (simp_all add: await_ready_def await_resume_def get_return_object_def return_value_def
        unhandled_exception_def apply_future_get_def apply_future_ready_def when_all_none_def when_any_none_def)
  then show ?thesis by (simp add: permits_def)
qed

lemma permits_all [simp]: "permits (\<lambda>_. True) c cm"
  by (simp add: permits_def)

lemma create_mem:
  assumes m: "mem_ok Q c F" and k: "G \<subseteq> F"
  shows "Q (A_future (fresh c)) \<Longrightarrow> closure_atoms f \<subseteq> F \<Longrightarrow> res_mem Q (async ex f c) G"
    "Q (A_promise (fresh c)) \<Longrightarrow> Q (A_future (fresh c)) \<Longrightarrow> res_mem Q (make_ready_future v c) G"
    "Q (A_promise (fresh c)) \<Longrightarrow> Q (A_future (fresh c)) \<Longrightarrow> res_mem Q (make_exceptional_future e c) G"
    "handles_atoms gs \<subseteq> F \<Longrightarrow> res_mem Q (when_all_make gs c) G"
    "handles_atoms gs \<subseteq> F \<Longrightarrow> res_mem Q (when_any_make gs c) G"
    "Q (A_promise (fresh c)) \<Longrightarrow> (gs = [] \<Longrightarrow> Q (A_future (fresh c))) \<Longrightarrow> handles_atoms gs \<subseteq> F \<Longrightarrow>
      res_mem Q (when_all_range gs v c) G"
  using k
  by (auto simp: async_def packaged_task_def make_ready_future_def make_promise_def promise_ctor_def
      make_exceptional_future_def when_all_make_def when_any_make_def when_all_range_def Let_def
      intro!: new_state_mem [OF m])

lemma retrieve_mem:
  assumes m: "mem_ok Q c F" and k: "handles_atoms hs \<union> G \<subseteq> F"
    and r: "retrieve i hs mk fut p c = Some (c', hs', fs)"
    and q: "permits Q c cm" and v: "handle_atoms v \<subseteq> handles_atoms hs"
    and mk: "\<And>w a. p = Inr (w, a) \<Longrightarrow> handle_atoms (mk w) \<union> {A_strong a, A_kind k a} \<subseteq> handle_atoms v \<and>
      handle_atoms (fut a) = future_atoms (Some a) \<and> k \<notin> {K_all, K_any}"
  shows "mem_ok Q c' (frames_atoms fs \<union> (handles_atoms hs' \<union> G))"
proof (cases p)
  case (Inl e)
  then show ?thesis using r k by (auto simp: retrieve_def raise_def call_Some intro: mem_ok_subset [OF m])
next
  case (Inr p')
  obtain w a where q': "p' = (w, a)" by (cases p')
  have *: "c' = c" "fs = []" "hs' = hs[i := mk w] @ [fut a]"
    using r by (auto simp: Inr q' retrieve_def)
  have a: "handle_atoms (mk w) \<union> {A_strong a, A_kind k a} \<subseteq> F" "handle_atoms (fut a) = future_atoms (Some a)"
    using mk [of w a] v k by (auto simp: Inr q')
  have "atom_ok Q c (A_kind k a)" using a(1) by (intro mem_ok_held [OF m]) simp
  then have "Q (A_future a)" using q mk [of w a] by (auto simp: permits_def Inr q')
  moreover have "x \<in> F \<or> x = A_future a" if "x \<in> handles_atoms hs' \<union> G" for x
    using that a k handles_atoms_update [of x hs i "mk w"] unfolding * by auto
  ultimately have "atom_ok Q c x" if "x \<in> handles_atoms hs' \<union> G" for x
    using that mem_ok_held [OF m] atom_ok.simps(4) by blast
  then show ?thesis unfolding * by (intro mem_ok_more [OF m]) simp
qed

lemma assign_atoms:
  assumes "assign i j hs = Some (hs', fs)"
  shows "frames_atoms fs \<union> handles_atoms hs' \<subseteq> handles_atoms hs"
proof -
  have "handle_atoms (converted (var i hs) (var j hs)) \<subseteq> handle_atoms (var j hs)"
    if "assignable (var i hs) (var j hs)"
    using that by (cases "var j hs"; cases "var i hs") (auto simp: assignable_def converted_def)
  then show ?thesis
    using assms var_atoms [of i hs] var_atoms [of j hs]
    by (auto simp: assign_def Let_def split: if_splits dest!: handles_atoms_update)
qed

lemma local_step_atoms:
  assumes "local_step lc hs = Some (hs', fs)"
  shows "frames_atoms fs \<union> handles_atoms hs' \<subseteq> handles_atoms hs"
proof (cases lc)
  case (Move i)
  then show ?thesis
    using assms var_atoms [of i hs]
    by (auto simp: move_var_def split: if_splits dest!: handles_atoms_update)
next
  case (Copy_assign i j)
  then show ?thesis
    using assms var_atoms [of i hs] var_atoms [of j hs]
    by (auto simp: copy_assign_def split: handle.splits dest!: handles_atoms_update)
next
  case (Swap i j)
  then obtain v w where w: "var i hs = H_task v" "var j hs = H_task w" "hs' = hs[i := H_task w, j := H_task v]" "fs = []"
    using assms by (auto simp: swap_tasks_def split: handle.splits)
  have "handle_atoms (H_task v) \<subseteq> handles_atoms hs" "handle_atoms (H_task w) \<subseteq> handles_atoms hs"
    using var_atoms [of i hs] var_atoms [of j hs] unfolding w by simp_all
  then show ?thesis unfolding w(3,4) by (force dest!: handles_atoms_update simp del: handle_atoms.simps)
qed (use assms in auto)

lemma range_futures_atoms:
  assumes "range_futures is hs = Some (gs, hs')"
  shows "handles_atoms gs \<subseteq> handles_atoms hs" "handles_atoms hs' \<subseteq> handles_atoms hs"
proof -
  have "handles_atoms (foldr (\<lambda>i gs. gs[i := H_future None]) is hs) \<subseteq> handles_atoms hs"
    by (induction "is") (auto dest!: handles_atoms_update)
  then show "handles_atoms hs' \<subseteq> handles_atoms hs"
    using assms by (auto simp: range_futures_def split: if_splits)
  obtain js where "gs = map (\<lambda>i. var i hs) js" using assms by (auto simp: range_futures_def split: if_splits)
  then have "x \<in> handles_atoms hs" if x: "x \<in> handles_atoms gs" for x
    using x subsetD [OF var_atoms] unfolding handles_atoms_def [of gs] by auto
  then show "handles_atoms gs \<subseteq> handles_atoms hs" by blast
qed

lemma range_futures_empty: "range_futures is hs = Some ([], hs') \<Longrightarrow> is = []"
  by (auto simp: range_futures_def split: if_splits)

lemma canceler_state: "fits K_state (canceler_body q)"
  by (cases q) (auto simp: canceler_body_def)

text \<open>The commands that make objects or retrieve futures.\<close>

lemma api_create_mem:
  assumes m: "mem_ok Q c F" and k: "handles_atoms hs \<union> G \<subseteq> F" and q: "permits Q c cm"
    and r: "api_step cm hs c = Some (c', hs', fs)"
    and cm: "case cm of New_promise _ \<Rightarrow> True | Make_promise _ \<Rightarrow> True | New_task _ _ \<Rightarrow> True | Get_future _ _ \<Rightarrow> True | _ \<Rightarrow> False"
  shows "mem_ok Q c' (frames_atoms fs \<union> (handles_atoms hs' \<union> G))"
proof -
  have p: "\<not> makes_function cm \<Longrightarrow> Q (A_promise (fresh c))" "\<not> makes_sequence cm \<Longrightarrow> Q (A_future (fresh c))"
    using q by (simp_all add: permits_def)
  show ?thesis
  proof (cases cm)
    case (New_promise p)
    with r obtain q hs1 where q: "capture_option p hs = Some (q, hs1)"
      "c' = new_obj (new_state (canceler_body q)) c" "hs' = hs1 @ [H_promise (Shared (fresh c))]" "fs = []"
      by (auto simp: promise_ctor_def split: option.splits)
    show ?thesis
      unfolding q(2-4)
      by (rule new_state_mem [OF m]) (use k capture_option_atoms [OF q(1)] canceler_state p New_promise in auto)
  next
    case (Make_promise p)
    with r obtain q hs1 where q: "capture_option p hs = Some (q, hs1)"
      "c' = new_obj (new_state (canceler_body q)) c"
      "hs' = hs1 @ [H_promise (Weak (fresh c)), H_future (Some (fresh c))]" "fs = []"
      by (auto simp: make_promise_def split: option.splits)
    show ?thesis
      unfolding q(2-4)
      by (rule new_state_mem [OF m]) (use k capture_option_atoms [OF q(1)] canceler_state p Make_promise in auto)
  next
    case (New_task f "is")
    with r obtain f' hs1 where q: "capture f is hs = Some (f', hs1)"
      "c' = new_obj (new_state (B_task (Fn_ready f'))) c" "hs' = hs1 @ [H_task (Shared (fresh c))]" "fs = []"
      by (auto simp: packaged_task_def with_closure_def split: option.splits)
    show ?thesis
      unfolding q(2-4)
      by (rule new_state_mem [OF m]) (use k capture_atoms_subset [OF q(1)] in \<open>auto simp: closure_atoms_def\<close>)
  next
    case (Get_future i s)
    show ?thesis
    proof (cases "var i hs")
      case (H_promise w)
      show ?thesis
        by (rule retrieve_mem [OF m k _ q var_atoms [of i], where k = K_state])
          (use r Get_future H_promise in \<open>auto simp: promise_get_future_def split: owner.splits\<close>)
    next
      case (H_task w)
      show ?thesis
        by (rule retrieve_mem [OF m k _ q var_atoms [of i], where k = K_task])
          (use r Get_future H_task in \<open>auto simp: task_get_future_def split: owner.splits wrapping.splits\<close>)
    qed (use r Get_future in auto)
  qed (use cm in auto)
qed

text \<open>The commands on promises and the moves.\<close>

lemma api_handle_mem:
  assumes m: "mem_ok Q c F" and k: "handles_atoms hs \<union> G \<subseteq> F"
    and r: "api_step cm hs c = Some (c', hs', fs)"
    and cm: "case cm of Set_value _ _ \<Rightarrow> True | Set_exception _ _ \<Rightarrow> True | Is_awaiten _ \<Rightarrow> True | Assign _ _ \<Rightarrow> True
      | Destroy _ \<Rightarrow> True | Copy _ \<Rightarrow> True | Local _ \<Rightarrow> True | Share _ \<Rightarrow> True | Call_task _ \<Rightarrow> True | _ \<Rightarrow> False"
  shows "mem_ok Q c' (frames_atoms fs \<union> (handles_atoms hs' \<union> G))"
proof (cases cm)
  case (Set_value i v)
  then obtain w where w: "var i hs = H_promise w" "call hs (promise_set_value w v) c = Some (c', hs', fs)"
    using r by (auto split: handle.splits)
  have "handle_atoms (H_promise w) \<subseteq> F" using k var_atoms [of i hs] unfolding w by blast
  then show ?thesis using k by (intro res_mem_call [OF w(2)] promise_ops_mem [OF m]) blast
next
  case (Set_exception i e)
  then obtain w where w: "var i hs = H_promise w" "call hs (promise_set_exception w e) c = Some (c', hs', fs)"
    using r by (auto split: handle.splits)
  have "handle_atoms (H_promise w) \<subseteq> F" using k var_atoms [of i hs] unfolding w by blast
  then show ?thesis using k by (intro res_mem_call [OF w(2)] promise_ops_mem [OF m]) blast
next
  case (Is_awaiten i)
  then obtain w where w: "call hs (ask (is_awaiten w c)) c = Some (c', hs', fs)"
    using r by (auto split: handle.splits)
  show ?thesis using k by (intro res_mem_call [OF w] ask_mem [OF m])
next
  case (Call_task i)
  then obtain w where w: "var i hs = H_task w" "call hs (task_call w) c = Some (c', hs', fs)"
    using r by (auto split: handle.splits)
  have "handle_atoms (H_task w) \<subseteq> F" using k var_atoms [of i hs] unfolding w by blast
  then show ?thesis using k by (intro res_mem_call [OF w(2)] task_call_mem [OF m]) blast
next
  case (Assign i j)
  then have w: "assign i j hs = Some (hs', fs)" "c' = c" using r by (auto split: option.splits)
  show ?thesis
    unfolding w(2) by (rule mem_ok_subset [OF m]) (use assign_atoms [OF w(1)] k in blast)
next
  case (Local lc)
  then have w: "local_step lc hs = Some (hs', fs)" "c' = c" using r by (auto split: option.splits)
  show ?thesis
    unfolding w(2) by (rule mem_ok_subset [OF m]) (use local_step_atoms [OF w(1)] k in blast)
next
  case (Destroy i)
  have w: "c' = c" "hs' = hs[i := H_gone]" "fs = [F_drop (hs ! i)]" "i < length hs"
    using r Destroy by (auto split: if_splits)
  show ?thesis
    unfolding w(1-3) by (rule mem_ok_subset [OF m])
      (use k handles_atoms_nth [OF w(4)] handles_atoms_update [of _ hs i H_gone] in auto)
next
  case (Copy i)
  then obtain p where w: "c' = c" "hs' = hs @ [H_shared p]" "fs = []" "var i hs = H_shared p"
    using r by (auto split: handle.splits)
  show ?thesis
    unfolding w(1-3) by (rule mem_ok_subset [OF m]) (use k var_atoms [of i hs] w(4) in auto)
next
  case (Share i)
  then obtain p where w: "c' = c" "hs' = hs[i := H_future None] @ [H_shared p]" "fs = []" "var i hs = H_future p"
    using r by (auto split: handle.splits)
  show ?thesis
    unfolding w(1-3) by (rule mem_ok_subset [OF m])
      (use k var_atoms [of i hs] w(4) handles_atoms_update [of _ hs i "H_future None"] in auto)
qed (use cm in auto)

text \<open>The commands on futures.\<close>

lemma api_future_mem:
  assumes m: "mem_ok Q c F" and k: "handles_atoms hs \<union> G \<subseteq> F" and q: "permits Q c cm"
    and r: "api_step cm hs c = Some (c', hs', fs)"
    and cm: "case cm of Wait _ \<Rightarrow> True | Get _ \<Rightarrow> True | Is_ready _ \<Rightarrow> True | Valid _ \<Rightarrow> True | Detach _ \<Rightarrow> True
      | Make_ready _ \<Rightarrow> True | Make_exceptional _ \<Rightarrow> True | _ \<Rightarrow> False"
  shows "mem_ok Q c' (frames_atoms fs \<union> (handles_atoms hs' \<union> G))"
proof -
  have p: "\<not> makes_function cm \<Longrightarrow> Q (A_promise (fresh c))" "\<not> makes_sequence cm \<Longrightarrow> Q (A_future (fresh c))"
    using q by (simp_all add: permits_def)
  have v: "handle_atoms (var i hs) \<subseteq> F" for i using var_atoms [of i hs] k by blast
  note ops = future_ops_mem [OF m, where G = "handles_atoms hs \<union> G"] create_mem [OF m k]
  show ?thesis
  proof (cases cm)
    case (Detach i)
    have fut: "is_future h \<Longrightarrow> handle_atoms h = future_atoms (state_of h)" for h by (cases h) auto
    have "handles_atoms (hs[i := moved (var i hs)]) \<subseteq> handles_atoms hs"
      using handles_atoms_update [of _ hs i "moved (var i hs)"] by auto
    then show ?thesis
      using r Detach v [of i] k fut
      by (intro res_mem_call [where g = "detach (var i hs)" and c = c])
        (auto intro!: future_ops_mem(4) [OF m] split: if_splits)
  qed (use r cm k v ops p in \<open>auto intro!: res_mem_call ask_mem [OF m] split: if_splits handle.splits\<close>)
qed

text \<open>The commands that a closure or several futures are passed to.\<close>

lemma api_attach_mem:
  assumes m: "mem_ok Q c F" and k: "handles_atoms hs \<union> G \<subseteq> F"
    and r: "attach_cmd i f is hs g = Some (c', hs', fs)"
    and g: "\<And>h f' H. handle_atoms h \<union> handles_atoms (caps f') \<union> H \<subseteq> F \<Longrightarrow>
      res_mem Q (snd (g h f')) (handle_atoms (fst (g h f')) \<union> H)"
  shows "mem_ok Q c' (frames_atoms fs \<union> (handles_atoms hs' \<union> G))"
proof -
  obtain f' hs1 where q: "capture f is hs = Some (f', hs1)"
    "hs' = hs1[i := fst (g (var i hs1) f')]" "c' = fst (snd (g (var i hs1) f'))" "fs = snd (snd (g (var i hs1) f'))"
    using attach_cmd_Some [OF r] by metis
  have "res_mem Q (snd (g (var i hs1) f')) (handle_atoms (fst (g (var i hs1) f')) \<union> (handles_atoms hs1 \<union> G))"
    using capture_atoms_subset [OF q(1)] var_atoms [of i hs1] k by (intro g) blast
  then have *: "mem_ok Q c' (frames_atoms fs \<union> (handle_atoms (fst (g (var i hs1) f')) \<union> (handles_atoms hs1 \<union> G)))"
    by (simp add: res_mem_def q)
  show ?thesis
    by (rule mem_ok_subset [OF *]) (use handles_atoms_update [of _ hs1 i] in \<open>auto simp: q(2)\<close>)
qed

lemma api_step_mem:
  assumes m: "mem_ok Q c F" and k: "handles_atoms hs \<union> G \<subseteq> F" and q: "permits Q c cm"
    and r: "api_step cm hs c = Some (c', hs', fs)"
  shows "mem_ok Q c' (frames_atoms fs \<union> (handles_atoms hs' \<union> G))"
proof -
  have p: "\<not> makes_function cm \<Longrightarrow> Q (A_promise (fresh c))" "\<not> makes_sequence cm \<Longrightarrow> Q (A_future (fresh c))"
    using q by (simp_all add: permits_def)
  note att = api_attach_mem [OF m k]
  have whens: "mem_ok Q c' (frames_atoms fs \<union> (handles_atoms hs' \<union> G))"
    if "move_out is hs = Some (gs, hs1)" "call hs1 q c = Some (c', hs', fs)"
      "handles_atoms gs \<subseteq> F \<Longrightarrow> handles_atoms hs1 \<union> G \<subseteq> F \<Longrightarrow> res_mem Q (q c) (handles_atoms hs1 \<union> G)"
    for "is" gs hs1 q
    using that move_out_atoms [OF that(1)] k by (intro res_mem_call) auto
  have ranges: "mem_ok Q c' (frames_atoms fs \<union> (handles_atoms hs' \<union> G))"
    if "range_futures is hs = Some (gs, hs1)" "call hs1 q c = Some (c', hs', fs)"
      "handles_atoms gs \<subseteq> F \<Longrightarrow> handles_atoms hs1 \<union> G \<subseteq> F \<Longrightarrow> res_mem Q (q c) (handles_atoms hs1 \<union> G)"
    for "is" gs hs1 q
    using that range_futures_atoms [OF that(1)] k by (intro res_mem_call) auto
  show ?thesis
  proof (cases cm)
    case (Async ex f "is")
    then obtain f' hs1 where w: "capture f is hs = Some (f', hs1)" "call hs1 (async ex f') c = Some (c', hs', fs)"
      using r by (auto simp: with_closure_def split: option.splits)
    then show ?thesis
      using capture_atoms_subset [OF w(1)] k p Async
      by (intro res_mem_call [OF w(2)] create_mem [OF m]) (auto simp: closure_atoms_def)
  next
    case (When_all "is")
    then show ?thesis using r by (auto intro!: whens create_mem [OF m] split: option.splits if_splits)
  next
    case (When_any "is")
    then show ?thesis using r by (auto intro!: whens create_mem [OF m] split: option.splits if_splits)
  next
    case (When_all_range "is" v)
    then show ?thesis using r p by (auto simp: range_futures_empty intro!: ranges create_mem [OF m] split: option.splits if_splits)
  next
    case (When_any_range "is")
    then show ?thesis using r by (auto intro!: ranges create_mem [OF m] split: option.splits if_splits)
  next
    case (Await_suspend i f "is")
    from await_suspend_Some [OF r [unfolded this]] show ?thesis by (auto intro!: att future_ops_mem [OF m])
  next
    case (Notify i f "is")
    then show ?thesis using r by (auto intro!: att future_ops_mem [OF m])
  next
    case (Notify_on i ex f "is")
    then show ?thesis using r by (auto intro!: att future_ops_mem [OF m])
  next
    case (Then i ex f "is")
    then show ?thesis using r p by (auto intro!: att future_then_mem [OF m])
  next
    case (Then_promise i ex f "is")
    then show ?thesis using r p by (auto intro!: att future_then_mem [OF m])
  next
    case (Next i vd ex f "is")
    then show ?thesis using r p by (auto intro!: att future_then_mem [OF m])
  qed (use api_create_mem [OF m k q r] api_handle_mem [OF m k r] api_future_mem [OF m k q r] r in simp_all)
qed


lemma attach_covers: "covers S (snd (attach d h ex f g c))"
  by (auto simp: attach_def make_then_state_def no_state_def covers_append_case push_covers Let_def split: option.splits)

lemma future_covers:
  "covers S (snd (wait a c))" "covers S (snd (future_wait h c))" "covers S (snd (future_get i h c))" "covers S (snd (is_ready h c))"
  "covers S (snd (notify h f c))" "covers S (snd (notify_on h ex f c))" "covers S (snd (detach h c))"
  "covers S (snd (snd (future_then h ex f c)))" "covers S (snd (snd (future_then_promise h ex f c)))"
  "covers S (snd (snd (future_next h vd ex f c)))"
  by (auto simp: wait_def future_eq detach_eq no_state_def
      future_then_eq Let_def covers_append_case push_covers attach_covers
      split: option.splits)

lemma create_covers:
  "covers S (snd (async ex f c))" "covers S (snd (make_ready_future v c))" "covers S (snd (make_exceptional_future e c))"
  "covers S (snd (when_all_make gs c))" "covers S (snd (when_any_make gs c))"
  "covers S (snd (promise_set_value w v c))" "covers S (snd (promise_set_exception w e c))" "covers S (snd (ask p c))"
  "covers S (snd (raise er c))" "covers S (snd (when_all_range gs v c))"
  by (auto simp: when_all_range_def async_def packaged_task_def make_ready_future_def make_promise_def promise_ctor_def
      make_exceptional_future_def when_all_make_def when_any_make_def promise_set_value_def promise_set_exception_def
      ask_def raise_def Let_def split: option.splits sum.splits)

lemma assign_covers: "assign i j hs = Some (hs', fs) \<Longrightarrow> covers S fs"
  by (auto simp: assign_def Let_def split: if_splits)

lemma retrieve_Some:
  "retrieve i hs mk fut p c = Some (c', hs', fs) \<Longrightarrow> c' = c \<and> (fs = [] \<or> (\<exists>e. fs = snd (raise e c)))"
  by (auto simp: retrieve_def raise_def call_Some split: sum.splits)

lemma api_step_covers:
  assumes "api_step cm hs c = Some (c', hs', fs)"
  shows "covers S fs"
proof (cases cm)
  case (Await_suspend i f "is")
  from await_suspend_Some [OF assms [unfolded this]] show ?thesis by (auto simp: future_covers elim!: attach_cmd_Some)
qed (use assms in \<open>auto simp: call_Some with_closure_def Let_def create_covers future_covers task_call_covers
      elim!: attach_cmd_Some dest!: retrieve_Some local_step_frames intro: assign_covers
      split: option.splits prod.splits handle.splits if_splits\<close>)

lemma api_step_stacks:
  assumes "api_step cm hs c = Some (c', hs', fs)"
  shows "stacks c' = stacks c"
proof (cases cm)
  case (Await_suspend i f "is")
  from await_suspend_Some [OF assms [unfolded this]] show ?thesis by (auto elim!: attach_cmd_Some)
qed (use assms in \<open>auto simp: call_Some with_closure_def Let_def promise_ctor_def make_promise_def packaged_task_def
      elim!: attach_cmd_Some dest!: retrieve_Some split: option.splits prod.splits handle.splits if_splits\<close>)

section \<open>Unwinding and returning\<close>

lemma refill_atoms:
  "cont_atoms (refill hs k) \<subseteq> handles_atoms hs \<union> cont_atoms k" "cont_atoms k \<subseteq> cont_atoms (refill hs k)"
  by (cases k; auto simp: closure_atoms_def)+

lemma conts_atoms_last: "ks \<noteq> [] \<Longrightarrow> conts_atoms ks = conts_atoms (butlast ks) \<union> cont_atoms (last ks)"
  by (induction ks rule: rev_induct) auto

lemma put_home_atoms:
  "frames_atoms (put_home hs fs) \<subseteq> handles_atoms hs \<union> frames_atoms fs"
  "frames_atoms fs \<subseteq> frames_atoms (put_home hs fs)"
proof (induction hs fs rule: put_home.induct)
  case (4 hs ks done' fs)
  { case 1 then show ?case using refill_atoms(1) [of hs "last done'"] by (auto simp: conts_atoms_last) }
  { case 2 then show ?case using refill_atoms(2) [of "last done'" hs] by (auto simp: conts_atoms_last) }
qed auto

lemma put_home_covers: "covers S fs \<Longrightarrow> covers S (put_home hs fs)"
proof (induction hs fs rule: put_home.induct)
  case (3 hs a gs fs)
  then show ?case by auto
qed (use put_home_atoms(2) in \<open>auto simp: subset_iff\<close>)

lemma leave_atoms:
  "frames_atoms (leave n hs fs rest) \<subseteq> handles_atoms hs \<union> frames_atoms fs \<union> frames_atoms rest"
proof -
  have "handles_atoms (take n hs) \<subseteq> handles_atoms hs" "handles_atoms (drop n hs) \<subseteq> handles_atoms hs"
    using set_take_subset set_drop_subset by (fastforce simp: handles_atoms_def)+
  then show ?thesis using put_home_atoms(1) [of "take n hs" rest] by (auto simp: leave_def)
qed

lemma leave_covers:
  assumes "covers S rest" "covers (frames_atoms rest \<union> S) fs"
  shows "covers S (leave n hs fs rest)"
proof -
  have "covers (frames_atoms (put_home (take n hs) rest) \<union> S) fs"
    using assms(2) put_home_atoms(2) by (blast intro: covers_mono)
  then show ?thesis using assms(1) by (auto simp: leave_def no_raw intro: put_home_covers)
qed

lemma return_step_cases:
  assumes "return_step cm x n hs rest = Some st"
  obtains (result) a t r hs' where "x = U_set a t" "st = leave n hs' (set_state_value a t r) rest"
      "handles_atoms hs' \<subseteq> handles_atoms hs" "\<And>p. r = R_future p \<Longrightarrow> future_atoms p \<subseteq> handles_atoms hs"
    | (plain) "st = leave n hs [] rest"
    | (throw) e where "st = leave n hs [F_raise e] rest"
proof (cases x)
  case (U_set a t)
  show ?thesis
  proof (cases cm)
    case (Return_future i)
    have "future_atoms (state_of (var i hs)) \<subseteq> handles_atoms hs"
      using state_of_atoms var_atoms by blast
    moreover have "handles_atoms (hs[i := H_gone]) \<subseteq> handles_atoms hs"
      using handles_atoms_update [of _ hs i H_gone] by auto
    ultimately show ?thesis
      using assms U_set Return_future
      by (intro result [of a t "hs[i := H_gone]" "R_future (state_of (var i hs))"])
        (auto simp: return_step_def split: if_splits)
  next
    case (Return_value v)
    then show ?thesis using assms U_set by (intro result [of a t hs "R_value v"]) (auto simp: return_step_def)
  next
    case (Throw e)
    then show ?thesis using assms U_set by (intro result [of a t hs "R_throw e"]) (auto simp: return_step_def)
  qed (use assms U_set in \<open>auto simp: return_step_def\<close>)
qed (use assms plain throw in \<open>auto simp: return_step_def split: cmd.splits\<close>)

lemma return_step_atoms:
  assumes "return_step cm x n hs rest = Some st"
  shows "frames_atoms st \<subseteq> ctx_atoms x \<union> handles_atoms hs \<union> frames_atoms rest \<union> range A_writer"
  using assms
proof (cases rule: return_step_cases)
  case (result a t r hs')
  have "frames_atoms (set_state_value a t r) \<subseteq> ctx_atoms x \<union> handles_atoms hs \<union> range A_writer"
    using result by (cases r) auto
  then show ?thesis
    using result(2,3) leave_atoms [of n hs' "set_state_value a t r" rest] by blast
next
  case plain
  then show ?thesis using leave_atoms [of n hs "[]" rest] by auto
next
  case (throw e)
  then show ?thesis using leave_atoms [of n hs "[F_raise e]" rest] by auto
qed

lemma return_step_covers:
  assumes "return_step cm x n hs rest = Some st" "covers {} (F_user x n hs # rest)"
  shows "covers {} st"
  using assms(1)
proof (cases rule: return_step_cases)
  case (result a t r hs')
  have "covers (frames_atoms rest \<union> {}) (set_state_value a t r)"
    using assms(2) result(1) by (cases r) auto
  then show ?thesis using result(2) assms(2) by (auto intro!: leave_covers)
qed (use assms(2) in \<open>auto intro!: leave_covers\<close>)

lemma cleanup_atoms: "frames_atoms (cleanup f) \<subseteq> frame_atoms f"
  by (cases f) (auto simp: capture_atoms split: option.splits)

lemma cleanup_raw: "g \<in> set (cleanup f) \<Longrightarrow> raw g \<subseteq> raw f"
  by (cases f) (auto simp: drop_action_def split: option.splits)

lemma unwind_atoms: "frames_atoms (snd (unwind e fs c)) \<subseteq> frames_atoms fs"
  using cleanup_atoms [of "hd fs"] by (cases "(e, fs, c)" rule: unwind.cases) (auto simp: crash_with_def)

lemma unwind_frame: "atoms (fst (unwind e fs c)) = atoms c" "stacks (fst (unwind e fs c)) = stacks c"
    "mem_ok Q (fst (unwind e fs c)) F = mem_ok Q c F"
  by (cases "(e, fs, c)" rule: unwind.cases; simp add: crash_with_def)+

lemma cleanup_covers: "covers {} (f # fs) \<Longrightarrow> covers (frames_atoms fs) (cleanup f)"
  by (cases f) (auto simp: no_raw drop_action_def split: option.splits)

lemma unwind_covers: "covers {} fs \<Longrightarrow> covers {} (snd (unwind e fs c))"
  using cleanup_covers [of "hd fs" "tl fs"]
  by (cases "(e, fs, c)" rule: unwind.cases) (auto simp: crash_with_def)


section \<open>Every step keeps memory safe\<close>

lemma take_result_mem:
  assumes m: "mem_ok Q c F" and k: "G \<subseteq> F"
  shows "mem_ok Q (fst (take_result r c)) (handles_atoms (snd (take_result r c)) \<union> G)"
proof -
  have "mem_ok Q (fst (take_futures b c)) (handles_atoms (snd (take_futures b c)) \<union> G)" for b
  proof (cases "obj_at c b")
    case (Some w)
    then show ?thesis
      using k by (auto simp: take_futures_def obj_held [OF m Some] subset_iff
          intro!: mem_ok_set_obj [OF m Some] mem_ok_subset [OF m] split: body.splits)
  qed (use k in \<open>auto simp: take_futures_def intro: mem_ok_subset [OF m]\<close>)
  then show ?thesis using mem_ok_subset [OF m k] by (auto simp: take_result_def split: vref.splits)
qed

lemma take_result_stacks [simp]: "stacks (fst (take_result r c)) = stacks c"
  by (auto simp: take_result_def take_futures_def split: vref.splits option.splits body.splits)

lemma finish_get_cases:
  assumes "finish_get i x n hs rest c = Some (c', st)"
  obtains (moved) a g where "var i hs = H_future (Some a)" "value_ref c a = Some (Gives g)"
      "c' = observe (E_got g) (fst (take_result g c))"
      "st = F_release a # F_user x n (hs[i := H_future None] @ snd (take_result g c)) # rest"
    | (thrown) a e where "var i hs = H_future (Some a)" "value_ref c a = Some (Throws e)" "c' = c"
      "st = F_release a # F_raise e # F_user x n (hs[i := H_future None]) # rest"
    | (copied) a g where "var i hs = H_shared (Some a)" "value_ref c a = Some (Gives g)"
      "c' = observe (E_got g) c" "st = F_user x n hs # rest"
    | (rethrown) a e where "var i hs = H_shared (Some a)" "value_ref c a = Some (Throws e)" "c' = c"
      "st = F_raise e # F_user x n hs # rest"
    | (asserts) a where "state_of (var i hs) = Some a" "value_ref c a = Some Asserts"
      "c' = fst (crash_with Undefined_behaviour c)" "st = []"
proof (cases "var i hs")
  case (H_future p)
  then obtain a q where p: "p = Some a" "value_ref c a = Some q"
    using assms by (auto simp: finish_get_def split: option.splits)
  show ?thesis
  proof (cases q)
    case Asserts
    show ?thesis by (rule asserts) (use assms H_future p Asserts in \<open>simp_all add: finish_get_def crash_with_def\<close>)
  next
    case (Throws e)
    show ?thesis by (rule thrown) (use assms H_future p Throws in \<open>auto simp: finish_get_def\<close>)
  next
    case (Gives g)
    show ?thesis
      by (rule moved) (use assms H_future p Gives in \<open>auto simp: finish_get_def split: prod.splits\<close>)
  qed
next
  case (H_shared p)
  then obtain a q where p: "p = Some a" "value_ref c a = Some q"
    using assms by (auto simp: finish_get_def split: option.splits)
  show ?thesis
  proof (cases q)
    case Asserts
    show ?thesis by (rule asserts) (use assms H_shared p Asserts in \<open>simp_all add: finish_get_def crash_with_def\<close>)
  next
    case (Throws e)
    show ?thesis by (rule rethrown) (use assms H_shared p Throws in \<open>auto simp: finish_get_def\<close>)
  next
    case (Gives g)
    show ?thesis by (rule copied) (use assms H_shared p Gives in \<open>auto simp: finish_get_def\<close>)
  qed
qed (use assms in \<open>simp_all add: finish_get_def\<close>)

lemma finish_get_mem:
  assumes m: "mem_ok Q c F" and k: "ctx_atoms x \<union> handles_atoms hs \<union> frames_atoms rest \<subseteq> F"
    and r: "finish_get i x n hs rest c = Some (c', st)"
  shows "mem_ok Q c' (frames_atoms st)"
proof -
  note v = var_atoms [of i hs] handles_atoms_update [of _ hs i "H_future None"]
  from r show ?thesis
  proof (cases rule: finish_get_cases)
    case (moved a g)
    have "mem_ok Q (fst (take_result g c)) (handles_atoms (snd (take_result g c)) \<union> F)"
      by (rule take_result_mem [OF m]) simp
    then show ?thesis
      unfolding moved mem_ok_frame by (rule mem_ok_subset) (use v k moved(1) in auto)
  next
    case (thrown a e)
    show ?thesis
      unfolding thrown by (rule mem_ok_subset [OF m]) (use v k thrown(1) in auto)
  next
    case (asserts a)
    show ?thesis
      unfolding asserts crash_with_def by (simp add: mem_ok_subset [OF m])
  qed (use k mem_ok_subset [OF m] in auto)
qed

lemma finish_get_covers:
  assumes "finish_get i x n hs rest c = Some (c', st)" "covers {} (F_user x n hs # rest)"
  shows "covers {} st"
  using assms(1)
proof (cases rule: finish_get_cases)
qed (use assms(2) in \<open>cases x; auto\<close>)+

lemma finish_get_stacks:
  assumes "finish_get i x n hs rest c = Some (c', st)"
  shows "stacks c' = stacks c"
  using assms by (cases rule: finish_get_cases) auto

lemma frames_atoms_other: "fs \<in> set (stacks c) \<Longrightarrow> frames_atoms fs \<subseteq> atoms c"
  by (auto simp: atoms_def)

lemma lib_step_cases:
  assumes "lib_step f rest c = Some (c', st)"
  obtains (raised) e where "f = F_raise e" "c' = fst (unwind e rest c)" "st = snd (unwind e rest c)"
    | (awaited) n where "f = F_await n" "n \<in> signalled c" "c' = c" "st = rest"
    | (given) h x n hs rest' where "f = F_give h" "rest = F_user x n hs # rest'" "c' = c"
        "st = F_user x n (hs @ [h]) # rest'"
    | (got) i x n hs rest' where "f = F_get i" "rest = F_user x n hs # rest'"
        "finish_get i x n hs rest' c = Some (c', st)"
    | (performed) "c' = fst (perform f c)" "st = snd (perform f c) @ rest"
proof (cases f)
  case (F_raise e)
  show ?thesis by (rule raised) (use assms F_raise in \<open>auto simp: lib_step_def\<close>)
next
  case (F_await n)
  show ?thesis by (rule awaited) (use assms F_await in \<open>simp_all add: lib_step_def split: if_splits\<close>)
next
  case (F_give h)
  obtain x n hs rest' where rest: "rest = F_user x n hs # rest'"
    using assms F_give by (auto simp: lib_step_def split: list.splits frame.splits)
  show ?thesis by (rule given) (use assms F_give rest in \<open>auto simp: lib_step_def\<close>)
next
  case (F_get i)
  obtain x n hs rest' where rest: "rest = F_user x n hs # rest'"
    using assms F_get by (auto simp: lib_step_def split: list.splits frame.splits)
  show ?thesis by (rule got) (use assms F_get rest in \<open>simp_all add: lib_step_def\<close>)
qed (use assms in \<open>simp_all add: lib_step_def performed Let_def del: perform.simps split: prod.splits\<close>)

lemma lib_step_stacks: "lib_step f rest c = Some (c', st) \<Longrightarrow> stacks c' = stacks c"
  by (erule lib_step_cases) (auto simp: unwind_frame finish_get_stacks)

lemma lib_step_mem:
  assumes m: "mem_ok Q c (frame_atoms f)" and q: "\<And>k a. f = F_apply k a \<Longrightarrow> gives_promise k \<Longrightarrow> Q (A_promise a)"
      "\<And>a. completes f c a \<Longrightarrow> Q (A_future a)" and rest: "rest \<in> set (stacks c)"
    and r: "lib_step f rest c = Some (c', st)"
  shows "mem_ok Q c' (frames_atoms st)"
proof -
  have m': "mem_ok Q c (frame_atoms f \<union> frames_atoms rest)"
    using m frames_atoms_other [OF rest] by (auto simp: mem_ok_def)
  from r show ?thesis
  proof (cases rule: lib_step_cases)
    case (raised e)
    show ?thesis
      unfolding raised unwind_frame
      by (rule mem_ok_subset [OF m']) (use unwind_atoms in fastforce)
  next
    case (given h x n hs rest')
    show ?thesis unfolding given by (rule mem_ok_subset [OF m']) (auto simp: given)
  next
    case (got i x n hs rest')
    show ?thesis by (rule finish_get_mem [OF m' _ got(3)]) (auto simp: got)
  next
    case performed
    have "rest \<in> set (stacks c')" using rest performed by simp
    then show ?thesis
      using perform_mem [OF m q] frames_atoms_other [of rest c'] performed
      by (auto simp: res_mem_def mem_ok_def)
  qed (use mem_ok_subset [OF m'] in auto)
qed

lemma lib_step_covers:
  assumes r: "lib_step f rest c = Some (c', st)" and k: "covers {} (f # rest)"
  shows "covers {} st"
  using r
proof (cases rule: lib_step_cases)
  case (raised e)
  then show ?thesis using k by (auto intro: unwind_covers)
next
  case (given h x n hs rest')
  then show ?thesis using k by (cases x) auto
next
  case (got i x n hs rest')
  then show ?thesis using k by (auto intro: finish_get_covers)
next
  case performed
  then show ?thesis using k by (auto intro: perform_covers)
qed (use k in auto)


text \<open>What user code does: it returns, calls the library, or is a thread of an executor.\<close>

lemma take_posted_Some:
  assumes "take_posted j g c = Some r"
  obtains "j < length (posted c)"
    "r = (fst (g (snd (posted c ! j)) (c\<lparr>posted := take j (posted c) @ drop (j + 1) (posted c)\<rparr>)),
          snd (g (snd (posted c ! j)) (c\<lparr>posted := take j (posted c) @ drop (j + 1) (posted c)\<rparr>)) @ [F_noexcept])"
  using assms by (auto simp: take_posted_def Let_def split: if_splits prod.splits)

lemma user_step_cases:
  assumes "user_step cm x n hs rest c = Some (c', st)"
  obtains (returned) "return_step cm x n hs rest = Some st" "c' = c"
    | (called) hs' fs where "api_step cm hs c = Some (c', hs', fs)" "st = fs @ F_user x n hs' # rest"
    | (posted) j g fs where "g = run_task \<or> g = task_dtor_frames" "take_posted j g c = Some (c', fs)"
        "st = fs @ F_user x n hs # rest"
proof (cases "return_step cm x n hs rest")
  case (Some st')
  show ?thesis by (rule returned) (use assms Some in \<open>auto simp: user_step_def\<close>)
next
  case None
  show ?thesis
  proof (cases "api_step cm hs c")
    case (Some p)
    obtain c1 hs1 fs1 where p: "p = (c1, hs1, fs1)" by (cases p)
    show ?thesis by (rule called) (use assms Some None p in \<open>auto simp: user_step_def\<close>)
  next
    case no: None
    then obtain j g fs where *: "g = run_task \<or> g = task_dtor_frames" "take_posted j g c = Some (c', fs)"
      "st = fs @ F_user x n hs # rest"
      using assms None by (auto simp: user_step_def split: cmd.splits user_ctx.splits)
    show ?thesis by (rule posted [OF *])
  qed
qed

lemma take_posted_mem:
  assumes m: "mem_ok Q c F" and G: "G \<subseteq> F"
    and r: "take_posted j g c = Some (c', fs)" and g: "g = run_task \<or> g = task_dtor_frames"
  shows "mem_ok Q c' (frames_atoms fs \<union> G)" "stacks c' = stacks c" "covers S fs"
proof -
  let ?c = "c\<lparr>posted := take j (posted c) @ drop (j + 1) (posted c)\<rparr>"
  let ?k = "snd (posted c ! j)"
  from r have j: "j < length (posted c)" "c' = fst (g ?k ?c)" "fs = snd (g ?k ?c) @ [F_noexcept]"
    by (auto elim!: take_posted_Some)
  have k: "task_atoms ?k \<subseteq> atoms c"
    using j(1) posted_atoms [of "fst (posted c ! j)" ?k c] by (auto simp: in_set_conv_nth)
  have "mem_ok Q c (task_atoms ?k \<union> F)" using m k by (auto simp: mem_ok_def)
  then have "mem_ok Q ?c (task_atoms ?k \<union> F)"
    by (rule mem_ok_posted) (auto dest!: in_set_takeD in_set_dropD intro: posted_atoms)
  then have "res_mem Q (g ?k ?c) G"
    using g G run_task_mem [of Q ?c "task_atoms ?k \<union> F" ?k G]
      task_dtor_frames_mem [of Q ?c "task_atoms ?k \<union> F" ?k G] by auto
  then show "mem_ok Q c' (frames_atoms fs \<union> G)" by (simp add: j res_mem_def)
  show "stacks c' = stacks c" using g by (auto simp: j(2))
  show "covers S fs" using g by (auto simp: j(3) run_task_covers dtor_covers)
qed

lemma user_step_mem:
  assumes q: "permits Q c cm" and m: "mem_ok Q c (frame_atoms (F_user x n hs))" and rest: "rest \<in> set (stacks c)"
    and r: "user_step cm x n hs rest c = Some (c', st)"
  shows "mem_ok Q c' (frames_atoms st) \<and> stacks c' = stacks c"
proof -
  have m': "mem_ok Q c (ctx_atoms x \<union> handles_atoms hs \<union> frames_atoms rest)"
    using m frames_atoms_other [OF rest] by (auto simp: mem_ok_def)
  from r show ?thesis
  proof (cases rule: user_step_cases)
    case returned
    have "atom_ok Q c y" if "y \<in> frames_atoms st" for y
      using return_step_atoms [OF returned(1)] that mem_ok_held [OF m'] by fastforce
    then show ?thesis using returned(2) by (auto intro: mem_ok_more [OF m'])
  next
    case (called hs' fs)
    have "mem_ok Q c' (frames_atoms fs \<union> (handles_atoms hs' \<union> (ctx_atoms x \<union> frames_atoms rest)))"
      by (rule api_step_mem [OF m' _ q called(1)]) auto
    then show ?thesis
      using api_step_stacks [OF called(1)] by (auto simp: called(2) elim!: mem_ok_subset)
  next
    case (posted j g fs)
    note t = take_posted_mem [OF m' order_refl posted(2,1)]
    show ?thesis using t(1,2) by (auto simp: posted(3) Un_ac)
  qed
qed

lemma user_step_covers:
  assumes r: "user_step cm x n hs rest c = Some (c', st)" and k: "covers {} (F_user x n hs # rest)"
    and m: "mem_ok Q c F"
  shows "covers {} st"
  using r
proof (cases rule: user_step_cases)
  case returned
  then show ?thesis using k by (auto intro: return_step_covers)
next
  case (called hs' fs)
  then show ?thesis using k api_step_covers by (cases x) auto
next
  case (posted j g fs)
  have "covers (frame_atoms (F_user x n hs) \<union> frames_atoms rest) fs"
    using take_posted_mem(3) [OF m _ posted(2,1)] by blast
  then show ?thesis using k by (auto simp: posted(3) Un_ac)
qed

lemma machine_step_cases:
  assumes "machine_step t l c = Some c'"
  obtains f rest c1 st where "crashed c = None" "t < length (stacks c)" "stacks c ! t = f # rest"
    "top_step l f rest (set_stack t rest c) = Some (c1, st)" "c' = set_stack t st c1"
  using assms by (auto simp: machine_step_def split: if_splits list.splits option.splits prod.splits)

lemma top_step_cases:
  assumes "top_step l f rest c = Some r"
  obtains (user) x n hs cm k where "f = F_user x n hs" "l = Some k" "user_step cm x n hs rest c = Some r" "cm = forwarded k"
    | (lib) "lib_step f rest c = Some r"
  using assms by (auto simp: top_step_def split: frame.splits option.splits)

text \<open>The invariant: all references are valid and all raw pointers are covered.\<close>

definition mem_inv :: "'v cfg \<Rightarrow> bool" where
  "mem_inv c \<longleftrightarrow> mem_ok (\<lambda>_. True) c {} \<and> (\<forall>fs \<in> set (stacks c). covers {} fs)"

lemma set_stack_atoms: "x \<in> atoms (set_stack t st c) \<Longrightarrow> x \<in> atoms c \<or> x \<in> frames_atoms st"
  using set_update_subset_insert [of "stacks c" t st]
  by (auto simp: atoms_iff other_atoms_def set_stack_def)

lemma set_stack_ok [simp]: "atom_ok Q (set_stack t st c) = atom_ok Q c"
  by (rule ext, case_tac x) (simp_all add: atom_ok.simps alive_def)

lemma mem_ok_pop:
  assumes "mem_ok Q c {}" "t < length (stacks c)" "stacks c ! t = f # rest"
  shows "mem_ok Q (set_stack t rest c) (frame_atoms f)"
proof -
  have "frames_atoms (f # rest) \<subseteq> atoms c"
    using assms(2,3) frames_atoms_other [of "f # rest" c] by (metis nth_mem)
  then show ?thesis using assms(1) set_stack_atoms [of _ t rest c] by (auto simp: mem_ok_def)
qed

lemma mem_ok_put: "mem_ok Q c (frames_atoms st) \<Longrightarrow> mem_ok Q (set_stack t st c) {}"
  using set_stack_atoms [of _ t st c] by (auto simp: mem_ok_def)

lemma top_step_mem:
  assumes m: "mem_ok Q c (frame_atoms f)" and q: "\<And>cm. l = Some cm \<Longrightarrow> permits Q c cm"
      "\<And>k a. f = F_apply k a \<Longrightarrow> gives_promise k \<Longrightarrow> Q (A_promise a)" "\<And>a. completes f c a \<Longrightarrow> Q (A_future a)"
    and rest: "rest \<in> set (stacks c)"
    and r: "top_step l f rest c = Some (c1, st)" and k: "covers {} (f # rest)"
  shows "mem_ok Q c1 (frames_atoms st) \<and> stacks c1 = stacks c \<and> covers {} st"
  using r
proof (cases rule: top_step_cases)
  case (user x n hs cm)
  then show ?thesis
    using user_step_mem [of Q c cm x n hs rest] user_step_covers [OF user(3)] m rest k q by auto
next
  case lib
  then show ?thesis
    using lib_step_mem [OF m q(2,3) rest] lib_step_stacks [OF lib] lib_step_covers [OF lib k] by auto
qed

lemma machine_step_mem:
  assumes "mem_inv c" "machine_step t l c = Some c'"
  shows "mem_inv c'"
proof -
  obtain f rest c1 st where s: "t < length (stacks c)" "stacks c ! t = f # rest"
    "top_step l f rest (set_stack t rest c) = Some (c1, st)" "c' = set_stack t st c1"
    using assms(2) by (elim machine_step_cases)
  have cov: "covers {} (f # rest)" using assms(1) s(1,2) unfolding mem_inv_def by (metis nth_mem)
  have "rest \<in> set (stacks (set_stack t rest c))"
    using s(1) by (auto simp: set_stack_def intro: set_update_memI)
  with top_step_mem [of "\<lambda>_. True", OF mem_ok_pop _ _ _ _ s(3) cov] assms(1) s(1,2)
  have t: "mem_ok (\<lambda>_. True) c1 (frames_atoms st)" "stacks c1 = stacks (set_stack t rest c)" "covers {} st"
    by (auto simp: mem_inv_def)
  have "covers {} fs" if "fs \<in> set (stacks c')" for fs
  proof -
    have "stacks c' = (stacks c)[t := st]" using t(2) by (simp add: s(4) set_stack_def)
    then have "fs \<in> insert st (set (stacks c))" using that set_update_subset_insert by fastforce
    then show ?thesis using t(3) assms(1) by (auto simp: mem_inv_def)
  qed
  then show ?thesis using mem_ok_put [OF t(1), of t] by (simp add: mem_inv_def s(4))
qed

lemma machine_init_mem: "mem_inv (machine_init n)"
  by (auto simp: mem_inv_def mem_ok_def machine_init_def atoms_def heap_atoms_def)

interpretation machine_memory: invariant_system "\<lambda>c. \<exists>n. c = machine_init n" mstep mem_inv
  by unfold_locales (auto simp: mstep_def machine_init_mem intro: machine_step_mem)

section \<open>No access to dead objects\<close>

text \<open>A call crashes by an access to a dead object only if its raw pointer or an object it needs is dead.\<close>

definition survives :: "'v cfg \<Rightarrow> bool" where
  "survives c \<longleftrightarrow> crashed c \<noteq> Some Use_after_free"

lemma survives_frame [simp]:
  "survives (observe e c) = survives c" "survives (set_obj a w c) = survives c" "survives (kill a c) = survives c"
  "survives (new_obj w c) = survives c" "survives (set_stack t st c) = survives c"
  "survives (c\<lparr>waits := ws\<rparr>) = survives c" "survives (c\<lparr>signalled := ss\<rparr>) = survives c"
  "survives (c\<lparr>posted := q\<rparr>) = survives c"
  by (simp_all add: survives_def observe_def set_obj_def kill_def new_obj_def set_stack_def)

lemma survives_crash [simp]: "survives (fst (crash_with Undefined_behaviour c))" "survives (fst (crash_with Terminated c))"
  by (simp_all add: survives_def crash_with_def)

lemma survives_append_case [simp]:
  "survives (fst (case r of (c', fs) \<Rightarrow> (c', fs @ gs))) = survives (fst r)"
  "survives (fst (case r of (c', fs) \<Rightarrow> (c', gs @ fs))) = survives (fst r)"
  by (cases r; simp)+

lemma survives_with_obj:
  "alive c a \<Longrightarrow> (\<And>w. obj_at c a = Some w \<Longrightarrow> survives (fst (g w c))) \<Longrightarrow> survives (fst (with_obj a g c))"
  by (auto simp: with_obj_def alive_def)

lemma survives_push: "survives c \<Longrightarrow> alive c a \<Longrightarrow> survives (fst (push a k c))"
  unfolding push_def by (rule survives_with_obj) (auto split: option.splits)

lemma survives_lock [simp]: "survives (fst (lock a fs c)) = survives c" "survives (fst (raise e c)) = survives c"
  "survives (fst (no_state hs c)) = survives c"
  by (simp_all add: lock_def raise_def no_state_def)


lemma survives_dtor [simp]:
  "survives (fst (promise_dtor w c)) = survives c" "survives (fst (task_dtor w c)) = survives c"
  "survives (fst (cnt_action_dtor p c)) = survives c" "survives (fst (handle_dtor h c)) = survives c"
  "survives (fst (task_dtor_frames k c)) = survives c" "survives (fst (task_call w c)) = survives c"
  "survives (fst (call_closure f c)) = survives c" "survives (fst (unwrap_cont a c)) = survives c"
  "survives (fst (wait_cont n c)) = survives c"
  by (auto simp: promise_dtor_def promise_abandon_def task_dtor_def cnt_action_dtor_def handle_dtor_def
      task_dtor_frames_def task_call_def call_closure_def unwrap_cont_def wait_cont_def
      split: owner.splits option.splits handle.splits task.splits)

lemma survives_obj_dtor [simp]: "survives (fst (obj_dtor w c)) = survives c"
  by (auto simp: obj_dtor_def split: body.splits func_state.splits)

lemma survives_release:
  assumes "survives c" "mem_ok Q c F" "A_strong a \<in> F"
  shows "survives (fst (release a c))"
  using assms mem_ok_held [OF assms(2,3)]
  by (auto simp: release_def atom_ok.simps alive_def split: option.splits)

lemma survives_schedule: "survives c \<Longrightarrow> survives (fst (schedule a c))" "survives c \<Longrightarrow> survives (fst (run_cnt a c))"
  by (auto simp: schedule_def run_cnt_def split: option.splits body.splits)

lemma survives_call_cont: "survives c \<Longrightarrow> survives (fst (call_cont k c))"
  by (cases k) (auto simp: call_cont_def survives_schedule split: exec.splits)

lemma survives_run_task: "survives c \<Longrightarrow> survives (fst (run_task k c))"
  by (auto simp: run_task_def split: task.splits option.splits)

lemma survives_apply: "survives c \<Longrightarrow> survives (fst (apply_action k a c))"
  by (cases "a_deco k") (auto simp: apply_action_def apply_then_def apply_next_def apply_void_next_def
      apply_interruptible_def split: option.splits access.splits)

lemma survives_subscribe:
  assumes m: "mem_ok Q c F" and s: "survives c" and k: "A_strong a \<in> F"
  shows "survives (fst (subscribe_all a i c))" "survives (fst (subscribe_any a i c))"
proof -
  have al: "alive c a" using mem_ok_held [OF m k] by (simp add: atom_ok.simps)
  have fut: "alive c b" if "obj_at c a = Some w" "body_atoms (body w) = handles_atoms hs" "i < length hs" "state_of (hs ! i) = Some b"
    for w hs b
  proof -
    have "A_strong b \<in> handles_atoms hs"
      using state_of_atoms [of "hs ! i"] handles_atoms_nth [OF that(3)] that(4) by auto
    then show ?thesis using obj_part_ok(4) [OF m that(1) refl, of "A_strong b"] that(2) by (simp add: atom_ok.simps)
  qed
  show "survives (fst (subscribe_all a i c))"
    unfolding subscribe_all_def by (rule survives_with_obj [OF al])
      (use s fut in \<open>auto intro!: survives_push split: body.splits option.splits\<close>)
  show "survives (fst (subscribe_any a i c))"
    unfolding subscribe_any_def by (rule survives_with_obj [OF al])
      (use s fut in \<open>auto intro!: survives_push split: body.splits option.splits\<close>)
qed

lemma survives_unwrap:
  assumes "survives c" "alive c a" "\<And>b. p = Some b \<Longrightarrow> alive c b"
  shows "survives (fst (unwrap a p c))"
proof (cases p)
  case (Some b)
  show ?thesis
    unfolding Some unwrap.simps
    by (rule survives_with_obj [OF assms(2)])
      (use assms Some in \<open>auto intro!: survives_push simp: alive_def obj_at_set_obj\<close>)
qed (use assms in auto)

lemma survives_perform:
  assumes m: "mem_ok Q c (frame_atoms f)" and s: "survives c" and k: "\<And>a. a \<in> raw f \<Longrightarrow> alive c a"
  shows "survives (fst (perform f c))"
proof -
  note with_obj = survives_with_obj [OF k]
  show ?thesis
  proof (cases f)
    case (F_unwrap a p t)
    then show ?thesis
      using s k mem_ok_held [OF m, of "A_strong _"] by (auto simp: atom_ok.simps intro!: survives_unwrap)
  next
    case (F_loop ks ks')
    then show ?thesis using s by (cases ks) (auto intro: survives_call_cont)
  next
    case (F_post ex k)
    then show ?thesis using s by (cases ex) (auto simp: post_def intro: survives_run_task)
  qed (use s k in \<open>auto simp: survives_schedule survives_apply cnt_abandon_def
     emplace_def set_exception_def abandon_def execute_def clean_action_def task_run_def clean_func_def
     task_abandon_def notify_all_def notify_any_def Let_def
     intro!: with_obj survives_release [OF s m] survives_subscribe [OF m s]
     split: option.splits body.splits func_state.splits\<close>)
qed

lemma survives_take [simp]: "survives (fst (take_result g c)) = survives c"
  by (auto simp: take_result_def take_futures_def split: vref.splits option.splits body.splits)

lemma survives_unwind: "survives c \<Longrightarrow> survives (fst (unwind e fs c))"
  by (cases "(e, fs, c)" rule: unwind.cases) auto

lemma survives_promise [simp]:
  "survives (fst (promise_set_value w v c)) = survives c" "survives (fst (promise_set_exception w e c)) = survives c"
  "survives (fst (ask p c)) = survives c" "survives (fst (is_ready h c)) = survives c"
  "survives (fst (make_ready_future v c)) = survives c" "survives (fst (make_exceptional_future e c)) = survives c"
  "survives (fst (when_all_make gs c)) = survives c" "survives (fst (when_any_make gs c)) = survives c"
  "survives (fst (async ex f c)) = survives c" "survives (fst (promise_ctor b c)) = survives c"
  "survives (fst (make_promise b c)) = survives c" "survives (fst (packaged_task f c)) = survives c"
  "survives (fst (when_all_range gs v c)) = survives c"
  by (auto simp: when_all_range_def promise_set_value_def promise_set_exception_def ask_def future_eq make_ready_future_def
      make_exceptional_future_def when_all_make_def when_any_make_def async_def promise_ctor_def make_promise_def
      packaged_task_def Let_def split: option.splits sum.splits)

lemma state_of_alive: "mem_ok Q c F \<Longrightarrow> handle_atoms h \<subseteq> F \<Longrightarrow> state_of h = Some a \<Longrightarrow> alive c a"
  using state_of_atoms [of h] mem_ok_held [of _ c F "A_strong a"] by (auto simp: atom_ok.simps)

lemma survives_future:
  assumes m: "mem_ok Q c F" and k: "handle_atoms h \<subseteq> F" and s: "survives c"
  shows "survives (fst (future_wait h c))" "survives (fst (future_get i h c))" "survives (fst (detach h c))"
    "survives (fst (notify h f c))" "survives (fst (notify_on h ex f c))" "survives (fst (attach d h ex f g c))"
proof -
  note al = state_of_alive [OF m k]
  have w: "survives (fst (wait a c))" if "state_of h = Some a" for a
    using s al [OF that] by (auto simp: wait_def alive_def intro!: survives_push)
  have "survives (fst (make_then_state a ex' p g c))" if "state_of h = Some a" for a ex' p
    using s al [OF that] by (auto simp: make_then_state_def Let_def alive_def obj_at_new_obj intro!: survives_push)
  then show "survives (fst (future_wait h c))" "survives (fst (future_get i h c))" "survives (fst (detach h c))"
    "survives (fst (notify h f c))" "survives (fst (notify_on h ex f c))" "survives (fst (attach d h ex f g c))"
    using s al w by (auto simp: future_eq detach_eq future_eq attach_def
        intro!: survives_push split: option.splits)
qed

lemma survives_attach_cmd:
  assumes "attach_cmd i f is hs g = Some (c', hs', fs)"
    and "\<And>h f'. handle_atoms h \<subseteq> handles_atoms hs \<Longrightarrow> survives (fst (snd (g h f')))"
  shows "survives c'"
  using assms(1)
proof (rule attach_cmd_Some)
  fix f' hs1 assume *: "capture f is hs = Some (f', hs1)" "c' = fst (snd (g (var i hs1) f'))"
  have "handle_atoms (var i hs1) \<subseteq> handles_atoms hs"
    using capture_atoms_subset [OF *(1)] var_atoms by blast
  then show "survives c'" using assms(2) *(2) by simp
qed

lemma survives_api:
  assumes m: "mem_ok Q c F" and k: "handles_atoms hs \<subseteq> F" and s: "survives c"
    and r: "api_step cm hs c = Some (c', hs', fs)"
  shows "survives c'"
proof -
  have F: "handle_atoms (var i hs) \<subseteq> F" for i using k var_atoms by blast
  note fut = survives_future [OF m _ s] survives_future [OF m subset_trans [OF _ k] s]
  show ?thesis
  proof (cases cm)
    case (Await_suspend i f "is")
    from await_suspend_Some [OF r [unfolded this]] show ?thesis by (auto elim!: survives_attach_cmd intro: fut)
  next
    case (Notify i f "is")
    then show ?thesis using r by (auto elim!: survives_attach_cmd intro: fut)
  next
    case (Notify_on i ex f "is")
    then show ?thesis using r by (auto elim!: survives_attach_cmd intro: fut)
  next
    case (Then i ex f "is")
    then show ?thesis using r by (auto simp: future_then_eq Let_def elim!: survives_attach_cmd intro: fut)
  next
    case (Then_promise i ex f "is")
    then show ?thesis using r by (auto simp: future_then_eq Let_def elim!: survives_attach_cmd intro: fut)
  next
    case (Next i vd ex f "is")
    then show ?thesis using r by (auto simp: future_then_eq Let_def elim!: survives_attach_cmd intro: fut)
  next
    case (New_promise p)
    then show ?thesis using r s by (auto simp: promise_ctor_def split: option.splits)
  next
    case (Make_promise p)
    then show ?thesis using r s by (auto simp: make_promise_def split: option.splits)
  next
    case (New_task f "is")
    then show ?thesis using r s by (auto simp: packaged_task_def with_closure_def split: option.splits)
  next
    case (Get_future i w)
    then show ?thesis using r s by (auto dest!: retrieve_Some split: handle.splits)
  qed (use r s F in \<open>auto simp: call_Some with_closure_def intro!: survives_future [OF m _ s] split: option.splits prod.splits handle.splits if_splits\<close>)
qed

text \<open>A step of a state whose memory is valid never accesses a dead object.\<close>

lemma machine_step_survives:
  assumes i: "mem_inv c" and s: "survives c" and r: "machine_step t l c = Some c'"
  shows "survives c'"
proof -
  obtain f rest c1 st where m: "t < length (stacks c)" "stacks c ! t = f # rest"
    "top_step l f rest (set_stack t rest c) = Some (c1, st)" "c' = set_stack t st c1"
    using r by (elim machine_step_cases)
  let ?c = "set_stack t rest c"
  have cov: "covers {} (f # rest)" using i m(1,2) unfolding mem_inv_def by (metis nth_mem)
  have mem: "mem_ok (\<lambda>_. True) ?c (frame_atoms f)" using mem_ok_pop [OF _ m(1,2)] i by (simp add: mem_inv_def)
  have "mem_ok (\<lambda>_. True) c (frames_atoms (f # rest))"
    using i frames_atoms_other [of "f # rest" c] m(1,2) unfolding mem_inv_def mem_ok_def by (metis Un_iff nth_mem subsetD)
  then have raw: "alive ?c a" if "a \<in> raw f" for a
    using cov that mem_ok_held [of _ c "frames_atoms (f # rest)" "A_strong a"] by (auto simp: atom_ok.simps alive_def)
  from m(3) have "survives c1"
  proof (cases rule: top_step_cases)
    case (user x n hs cm)
    from user(3) show ?thesis
    proof (cases rule: user_step_cases)
      case (called hs' fs)
      show ?thesis by (rule survives_api [OF mem _ _ called(1)]) (use s user(1) in auto)
    next
      case (posted j g fs)
      then show ?thesis using s by (auto elim!: take_posted_Some intro: survives_run_task)
    qed (use s in auto)
  next
    case lib
    then show ?thesis
    proof (cases rule: lib_step_cases)
      case (raised e)
      show ?thesis unfolding raised by (rule survives_unwind) (use s in simp)
    next
      case (got i x n hs rest')
      from got(3) show ?thesis by (cases rule: finish_get_cases) (use s in auto)
    next
      case performed
      then show ?thesis using survives_perform [OF mem _ raw] s by simp
    qed (use s in auto)
  qed
  then show ?thesis by (simp add: m(4))
qed


section \<open>Executions\<close>

text \<open>Evaluating a list of labels is an execution.\<close>

lemma exec_steps_run: "exec_steps ls c = Some c' \<Longrightarrow> run mstep c ls c'"
proof (induction ls arbitrary: c)
  case (Cons l ls)
  then obtain u where "machine_step (fst l) (snd l) c = Some u" "exec_steps ls u = Some c'"
    by (auto split: option.splits)
  then show ?case using Cons.IH by (auto simp: mstep_def intro: run_prepend)
qed (simp add: run_nil)

lemma run_survives:
  assumes "run mstep (machine_init n) ls c"
  shows "mem_inv c \<and> survives c"
  using assms
proof (induction "machine_init n :: 'a cfg" ls c rule: run.induct)
  case run_nil
  have "survives (machine_init n :: 'a cfg)" by (simp add: survives_def machine_init_def)
  then show ?case by (simp add: machine_init_mem)
next
  case (run_snoc ls t l u)
  then show ?case
    by (auto simp: mstep_def intro: machine_step_mem machine_step_survives)
qed

lemma exec_reach: "exec_steps ls (machine_init n) \<noteq> None \<Longrightarrow>
    run mstep (machine_init n) ls (the (exec_steps ls (machine_init n)))"
  by (auto intro: exec_steps_run)

text \<open>A function of the user for the examples.\<close>

definition user_fn :: "nat \<Rightarrow> closure" where
  "user_fn n = \<lparr>code = n, caps = [], result = Object_result, wrap = Direct\<rparr>"

text \<open>
  A promise with a cancel action and a continuation of its future; the continuation's
  future is dropped, which destroys the state of the continuation, then that of the
  promise, which calls the cancel action.
\<close>

definition cancel_labels :: "(nat \<times> nat cmd option) list" where
  "cancel_labels = [(0, Some (Make_promise (Some (user_fn 3, [])))), (0, Some (Next 1 False Inplace (user_fn 7) [])),
     (0, None), (0, Some (Destroy 2))] @ replicate 4 (0, None) @ [(0, Some Return), (0, None), (0, None)]"

definition cancel_cfg :: "nat cfg" where
  "cancel_cfg = the (exec_steps cancel_labels (machine_init 1))"

lemma cancel_run: "run mstep (machine_init 1) cancel_labels cancel_cfg"
  unfolding cancel_cfg_def by (rule exec_reach) code_simp

text \<open>
  C1. Memory safety of the whole library: whatever the user code of any number of
  threads does, in whatever order its calls and the library's own steps interleave, no
  call ever accesses a state that was destroyed, and every shared pointer (in a
  variable, a closure, a continuation, a posted task or a running call) points to a
  state that is alive.
\<close>

theorem machine_memory_safe:
  assumes "run mstep (machine_init n) ls c"
  shows "crashed c \<noteq> Some Use_after_free \<and> {a. owned c a} \<subseteq> {a. alive c a}"
  using run_survives [OF assms] mem_ok_atoms [of "\<lambda>_. True" c "{}" "A_strong _"]
  by (auto simp: survives_def mem_inv_def owned_def atom_ok.simps)

theorem machine_memory_safe_witness:
  "crashed cancel_cfg \<noteq> Some Use_after_free \<and> {a. owned cancel_cfg a} \<subseteq> {a. alive cancel_cfg a}"
  by (rule machine_memory_safe [OF cancel_run])

end
