(* ===== verification/Lifecycle.thy ===== *)
theory Lifecycle
  imports Machine_Safety
begin

text \<open>
  How the shared states of the machine evolve: no call changes the dynamic type of a
  state, makes a ready state pending, or revives a destroyed one, and only
  three calls write to a storage.
\<close>

section \<open>Evolution of one object\<close>

fun body_ages :: "body \<Rightarrow> body \<Rightarrow> bool" where
  "body_ages B_plain b \<longleftrightarrow> b = B_plain"
| "body_ages (B_cancel f) b \<longleftrightarrow> b = B_cancel f"
| "body_ages (B_cnt ex k) b \<longleftrightarrow> (\<exists>ex' k'. b = B_cnt ex' k' \<and> ex' \<in> {ex, None} \<and> k' \<in> {k, None})"
| "body_ages (B_task g) b \<longleftrightarrow> (\<exists>g'. b = B_task g' \<and> (g' = g \<or> g' = Fn_empty \<or> g' = Fn_running \<and> g \<noteq> Fn_empty))"
| "body_ages (B_all hs n) b \<longleftrightarrow> (\<exists>hs' n'. b = B_all hs' n' \<and> length hs' = length hs)"
| "body_ages (B_any hs i r) b \<longleftrightarrow>
     (\<exists>hs' i' r'. b = B_any hs' i' r' \<and> length hs' = length hs \<and> (r \<longrightarrow> r' \<and> i' = i))"

lemma body_ages_refl [simp]: "body_ages b b"
  by (cases b) auto

lemma body_ages_trans: "body_ages b1 b2 \<Longrightarrow> body_ages b2 b3 \<Longrightarrow> body_ages b1 b3"
  by (cases b1; cases b2; cases b3) auto

text \<open>
  The rights that a call may have at a state: to write its storage, to end the call of
  its function, to hand a continuation to its executor, to run or abandon it, and to
  subscribe to the futures of a sequence (or, when it is ready, to take them).
\<close>

datatype right =
    Store addr
  | Clean addr
  | Sched addr
  | Run addr
  | Subs addr

definition obj_ages :: "right set \<Rightarrow> addr \<Rightarrow> 'v obj \<Rightarrow> 'v obj \<Rightarrow> bool" where
  "obj_ages U a w w' \<longleftrightarrow> (conts w = None \<longrightarrow> conts w' = None) \<and> body_ages (body w) (body w') \<and>
     (store w' = store w \<or> Store a \<in> U \<and> store w' \<noteq> S_empty) \<and>
     (body w = B_task Fn_running \<longrightarrow> body w' = B_task Fn_running \<or> Clean a \<in> U) \<and>
     (\<forall>ex k. body w = B_cnt ex k \<longrightarrow> body w' = body w \<or> Run a \<in> U) \<and>
     (\<forall>hs n. body w = B_all hs n \<longrightarrow> (\<exists>n'. body w' = B_all hs n') \<or> Subs a \<in> U) \<and>
     (\<forall>hs i r. body w = B_any hs i r \<longrightarrow> (\<exists>i' r'. body w' = B_any hs i' r') \<or> Subs a \<in> U)"

lemma obj_ages_refl [simp]: "obj_ages U a w w"
  by (simp add: obj_ages_def)

lemma obj_ages_trans: "obj_ages U a w1 w2 \<Longrightarrow> obj_ages U a w2 w3 \<Longrightarrow> obj_ages U a w1 w3"
  unfolding obj_ages_def using body_ages_trans by (elim conjE, intro conjI) metis+

section \<open>Evolution of the heap\<close>

text \<open>
  Objects are only added and removed, and those that stay only get older. \<open>U\<close> are the
  rights that are used on the way.
\<close>

definition born :: "right set \<Rightarrow> addr \<Rightarrow> 'v obj \<Rightarrow> bool" where
  "born U a w \<longleftrightarrow> (store w = S_empty \<or> Store a \<in> U) \<and>
     (\<forall>ex k. body w = B_cnt ex k \<longrightarrow> ex \<noteq> None \<and> k \<noteq> None \<or> Run a \<in> U)"

lemma born_ages: "born U a w \<Longrightarrow> obj_ages U a w w' \<Longrightarrow> born U a w'"
  unfolding born_def obj_ages_def by (cases "body w") auto

definition evolves :: "right set \<Rightarrow> 'v cfg \<Rightarrow> 'v cfg \<Rightarrow> bool" where
  "evolves U c c' \<longleftrightarrow> length (heap c) \<le> length (heap c') \<and>
     (\<forall>a w'. a < length (heap c) \<longrightarrow> obj_at c' a = Some w' \<longrightarrow>
       (\<exists>w. obj_at c a = Some w \<and> obj_ages U a w w')) \<and>
     (\<forall>a w'. \<not> a < length (heap c) \<longrightarrow> obj_at c' a = Some w' \<longrightarrow> born U a w')"

text \<open>
  The log: a state is made ready at most once, and not before it is ready or at its
  end; its end is logged once, when it comes.
\<close>

definition open_at :: "'v cfg \<Rightarrow> addr \<Rightarrow> bool" where
  "open_at c a \<longleftrightarrow> (\<exists>w. obj_at c a = Some w \<and> conts w \<noteq> None)"

definition log_ok :: "'v cfg \<Rightarrow> bool" where
  "log_ok c \<longleftrightarrow> (\<forall>a.
     count_list (log c) (E_ready a) \<le> (if a < length (heap c) \<and> \<not> open_at c a then 1 else 0) \<and>
     (executed c a \<longrightarrow> E_ready a \<in> set (log c)) \<and>
     count_list (log c) (E_dead a) = (if a < length (heap c) \<and> \<not> alive c a then 1 else 0))"

definition moves :: "right set \<Rightarrow> 'v cfg \<Rightarrow> 'v cfg \<Rightarrow> bool" where
  "moves U c c' \<longleftrightarrow> evolves U c c' \<and> (log_ok c \<longrightarrow> log_ok c')"

lemma obj_at_beyond [simp]: "\<not> a < length (heap c) \<Longrightarrow> obj_at c a = None"
  by (simp add: obj_at_def)

lemma evolves_trans:
  assumes "evolves U c1 c2" "evolves U c2 c3"
  shows "evolves U c1 c3"
  unfolding evolves_def
proof (intro conjI allI impI)
  fix a w3 assume a: "a < length (heap c1)" "obj_at c3 a = Some w3"
  then obtain w2 where w2: "obj_at c2 a = Some w2" "obj_ages U a w2 w3"
    using assms unfolding evolves_def by (meson less_le_trans)
  then obtain w1 where "obj_at c1 a = Some w1" "obj_ages U a w1 w2"
    using assms(1) a(1) unfolding evolves_def by blast
  then show "\<exists>w. obj_at c1 a = Some w \<and> obj_ages U a w w3"
    using w2(2) obj_ages_trans by blast
next
  fix a w3 assume a: "\<not> a < length (heap c1)" "obj_at c3 a = Some w3"
  show "born U a w3"
  proof (cases "a < length (heap c2)")
    case True
    then obtain w2 where "obj_at c2 a = Some w2" "obj_ages U a w2 w3"
      using assms(2) a(2) unfolding evolves_def by blast
    then show ?thesis using assms(1) a(1) born_ages unfolding evolves_def by blast
  next
    case False
    then show ?thesis using assms(2) a(2) unfolding evolves_def by blast
  qed
qed (use assms in \<open>auto simp: evolves_def\<close>)

lemma moves_trans: "moves U c1 c2 \<Longrightarrow> moves U c2 c3 \<Longrightarrow> moves U c1 c3"
  by (auto simp: moves_def intro: evolves_trans)

lemma moves_refl [simp]: "moves U c c"
  by (auto simp: moves_def evolves_def)

text \<open>Updates that do not touch the heap or the log.\<close>

lemma moves_cong:
  assumes "heap c' = heap c" "log c' = log c"
  shows "moves U c c'"
proof -
  have "obj_at c' = obj_at c" by (rule obj_at_heap) (rule assms(1))
  then show ?thesis using assms by (simp add: moves_def evolves_def log_ok_def open_at_def executed_def alive_def)
qed

fun marks :: "'v event \<Rightarrow> bool" where
  "marks (E_ready _) = True"
| "marks (E_dead _) = True"
| "marks _ = False"

lemma moves_observe:
  assumes "\<not> marks e"
  shows "moves U c (observe e c)"
proof -
  have "E_ready a \<noteq> e" "E_dead a \<noteq> e" for a using assms by auto
  then have "count_list (log (observe e c)) (E_ready a) = count_list (log c) (E_ready a)"
    "count_list (log (observe e c)) (E_dead a) = count_list (log c) (E_dead a)"
    "E_ready a \<in> set (log (observe e c)) \<longleftrightarrow> E_ready a \<in> set (log c)" for a
    by (auto simp: observe_def)
  then show ?thesis by (simp add: moves_def evolves_def log_ok_def open_at_def executed_def alive_def)
qed

lemma moves_set_obj:
  assumes w: "obj_at c a = Some w" and g: "obj_ages U a w w'" and k: "conts w' = None \<Longrightarrow> conts w = None"
  shows "moves U c (set_obj a w' c)"
proof -
  have a: "a < length (heap c)" using w by (rule obj_at_less)
  have k: "conts w' = None \<longleftrightarrow> conts w = None" using k g by (auto simp: obj_ages_def)
  have "log (set_obj a w' c) = log c" by (simp add: set_obj_def)
  moreover have "open_at (set_obj a w' c) b = open_at c b" "executed (set_obj a w' c) b = executed c b"
    "alive (set_obj a w' c) b = alive c b" for b
    using w k a by (cases "conts w"; cases "conts w'"; simp add: open_at_def executed_def alive_def obj_at_set_obj)+
  ultimately show ?thesis using w g by (auto simp: moves_def evolves_def log_ok_def obj_at_set_obj)
qed

lemma moves_new_obj:
  assumes "conts w \<noteq> None" "store w = S_empty" "\<And>ex k. body w = B_cnt ex k \<Longrightarrow> ex \<noteq> None \<and> k \<noteq> None"
  shows "moves U c (new_obj w c)"
proof -
  have k: "conts w \<noteq> None" "born U (fresh c) w" using assms by (auto simp: born_def)
  have fresh: "obj_at c (fresh c) = None" by (simp add: obj_at_def fresh_def)
  have "log (new_obj w c) = log c" "length (heap c) = fresh c" by (simp_all add: new_obj_def fresh_def)
  then show ?thesis using k fresh
    by (auto simp: moves_def evolves_def log_ok_def open_at_def executed_def alive_def obj_at_new_obj less_Suc_eq)
qed

lemma moves_execute: "moves U c (fst (execute a c))"
proof (cases "obj_at c a")
  case None
  then show ?thesis by (simp add: execute_def with_obj_def crash_with_def moves_cong)
next
  case (Some w)
  show ?thesis
  proof (cases "conts w")
    case None
    then show ?thesis by (simp add: execute_def with_obj_def Some)
  next
    case k: (Some ks)
    let ?c = "observe (E_ready a) (set_obj a (w\<lparr>conts := None\<rparr>) c)"
    have a: "a < length (heap c)" using Some by (rule obj_at_less)
    have "evolves U c ?c" using Some by (auto simp: evolves_def obj_at_set_obj obj_ages_def)
    moreover have "log ?c = log c @ [E_ready a]" by (simp add: observe_def set_obj_def)
    moreover have "open_at ?c b \<longleftrightarrow> b \<noteq> a \<and> open_at c b" "executed ?c b \<longleftrightarrow> b = a \<or> executed c b"
      "alive ?c b = alive c b" "open_at c a" for b
      using Some a k by (auto simp: open_at_def executed_def alive_def obj_at_set_obj)
    ultimately show ?thesis using a Some k
      by (auto simp: moves_def log_ok_def execute_def with_obj_def)
  qed
qed

lemma moves_kill:
  assumes "obj_at c a = Some w"
  shows "moves U c (observe (E_dead a) (kill a c))"
proof -
  let ?c = "observe (E_dead a) (kill a c)"
  have a: "a < length (heap c)" using assms by (rule obj_at_less)
  have "log ?c = log c @ [E_dead a]" by (simp add: observe_def kill_def)
  moreover have "open_at ?c b \<longleftrightarrow> b \<noteq> a \<and> open_at c b" "executed ?c b \<longleftrightarrow> b \<noteq> a \<and> executed c b"
    "alive ?c b \<longleftrightarrow> b \<noteq> a \<and> alive c b" "alive c a" for b
    using assms by (auto simp: open_at_def executed_def alive_def obj_at_kill)
  ultimately have "log_ok c \<Longrightarrow> log_ok ?c"
    using a unfolding log_ok_def by (auto split: if_splits)
  then show ?thesis by (auto simp: moves_def evolves_def obj_at_kill)
qed

section \<open>Library calls\<close>

text \<open>The rules for the shapes of operations.\<close>

lemma moves_observe_after: "moves U c c' \<Longrightarrow> \<not> marks e \<Longrightarrow> moves U c (observe e c')"
  using moves_trans moves_observe by blast

lemma moves_append_case [simp]:
  "moves U c (fst (case r of (c', fs) \<Rightarrow> (c', fs @ gs))) = moves U c (fst r)"
  "moves U c (fst (case r of (c', fs) \<Rightarrow> (c', gs @ fs))) = moves U c (fst r)"
  by (cases r; simp)+

lemma moves_crash [simp]: "moves U c (fst (crash_with k c))"
  by (simp add: crash_with_def moves_cong)

lemma moves_with_obj: "(\<And>w. obj_at c a = Some w \<Longrightarrow> moves U c (fst (g w c))) \<Longrightarrow> moves U c (fst (with_obj a g c))"
  by (auto simp: with_obj_def split: option.splits)

lemma moves_same [simp]:
  "moves U c (c\<lparr>waits := ws\<rparr>)" "moves U c (c\<lparr>signalled := ss\<rparr>)" "moves U c (c\<lparr>posted := q\<rparr>)"
  "moves U c (set_stack t st c)" "moves U c (fst (lock a fs c))" "moves U c (fst (raise x c))"
  "moves U c (fst (no_state hs c))"
  by (simp_all add: moves_cong set_stack_def lock_def raise_def no_state_def)

lemmas moves_intros = moves_with_obj moves_observe_after moves_set_obj moves_new_obj

lemma moves_push [simp]: "moves U c (fst (push a k c))"
  unfolding push_def by (intro moves_with_obj) (auto intro!: moves_set_obj simp: obj_ages_def split: option.splits)

lemma moves_push_after: "moves U c c' \<Longrightarrow> moves U c (fst (push a k c'))"
  using moves_trans moves_push by blast

lemma moves_dtor [simp]:
  "moves U c (fst (promise_dtor w c))" "moves U c (fst (task_dtor w c))" "moves U c (fst (cnt_action_dtor p c))"
  "moves U c (fst (handle_dtor h c))" "moves U c (fst (task_dtor_frames k c))" "moves U c (fst (task_call w c))"
  "moves U c (fst (call_closure f c))" "moves U c (fst (unwrap_cont a c))" "moves U c (fst (wait_cont n c))"
  by (auto simp: promise_dtor_def promise_abandon_def task_dtor_def cnt_action_dtor_def handle_dtor_def
      task_dtor_frames_def task_call_def call_closure_def unwrap_cont_def wait_cont_def intro!: moves_observe
      split: owner.splits option.splits handle.splits task.splits)

lemma moves_release [simp]: "moves U c (fst (release a c))"
proof (cases "obj_at c a")
  case (Some w)
  let ?c = "observe (E_dead a) (kill a c)"
  have "moves U ?c (fst (obj_dtor w ?c))"
    by (auto simp: obj_dtor_def intro!: moves_observe split: body.splits func_state.splits)
  then show ?thesis using moves_trans [OF moves_kill [OF Some]] by (simp add: release_def Some)
qed (simp add: release_def)

lemma moves_schedule: "moves {Run a} c (fst (schedule a c))" "moves {Run a} c (fst (run_cnt a c))"
  by (auto simp: schedule_def run_cnt_def obj_ages_def intro!: moves_set_obj split: option.splits body.splits)

text \<open>The rights that a continuation uses.\<close>

fun cont_rights :: "cont \<Rightarrow> right set" where
  "cont_rights (C_schedule a) = {Run a}"
| "cont_rights _ = {}"

lemma moves_call_cont [simp]: "moves (cont_rights k) c (fst (call_cont k c))"
  by (cases k) (auto simp: call_cont_def moves_schedule split: exec.splits)

lemma moves_run_task [simp]: "moves U c (fst (run_task k c))"
  by (auto simp: run_task_def split: task.splits option.splits)

lemma moves_apply [simp]: "moves U c (fst (apply_action k a c))"
  by (cases "a_deco k") (auto simp: apply_action_def apply_then_def apply_next_def apply_void_next_def
      apply_interruptible_def intro!: moves_observe moves_observe_after split: option.splits access.splits)

lemma moves_unwrap: "moves {Store a} c (fst (unwrap a p c))"
proof (cases p)
  case (Some b)
  show ?thesis
    unfolding Some unwrap.simps by (rule moves_with_obj)
      (auto intro!: moves_push_after moves_set_obj simp: obj_ages_def)
qed simp

lemma moves_store: "moves {Store a} c (fst (emplace a v c))" "moves {Store a} c (fst (set_exception a e c))"
proof -
  show "moves {Store a} c (fst (emplace a v c))"
    unfolding emplace_def
  proof (rule moves_with_obj, goal_cases)
    case (1 w)
    then show ?case by (auto simp: obj_ages_def intro!: moves_set_obj [OF 1])
  qed
  show "moves {Store a} c (fst (set_exception a e c))"
    unfolding set_exception_def
  proof (rule moves_with_obj, goal_cases)
    case (1 w)
    then show ?case by (auto simp: obj_ages_def intro!: moves_set_obj [OF 1])
  qed
qed

lemma moves_notify_any [simp]: "moves U c (fst (notify_any a i c))"
  unfolding notify_any_def
proof (rule moves_with_obj, goal_cases)
  case (1 w)
  then show ?case by (cases "body w") (auto simp: obj_ages_def intro!: moves_set_obj [OF 1])
qed

lemma moves_clean_func: "moves {Clean a} c (fst (clean_func a hs c))"
  unfolding clean_func_def
proof (rule moves_with_obj, goal_cases)
  case (1 w)
  then show ?case by (cases "body w") (auto simp: obj_ages_def intro!: moves_set_obj [OF 1])
qed

text \<open>The rights that a call uses.\<close>

fun rights :: "'v frame \<Rightarrow> right set" where
  "rights (F_emplace a _) = {Store a}"
| "rights (F_set_exn a _) = {Store a}"
| "rights (F_unwrap a _ _) = {Store a}"
| "rights (F_clean_func a _) = {Clean a}"
| "rights (F_loop (k # _) _) = cont_rights k"
| "rights (F_run a) = {Run a}"
| "rights (F_clean_action a) = {Run a}"
| "rights (F_get _) = range Subs"
| "rights _ = {}"

lemma moves_perform: "moves (rights f) c (fst (perform f c))"
proof (cases f)
  case (F_unwrap a p t)
  then show ?thesis using moves_unwrap by simp
next
  case (F_loop ks ks')
  then show ?thesis by (cases ks) auto
next
  case (F_post ex k)
  then show ?thesis by (cases ex) (auto simp: post_def)
qed (auto simp: moves_execute moves_store moves_clean_func moves_schedule cnt_abandon_def abandon_def clean_action_def task_run_def
     task_abandon_def notify_all_def subscribe_all_def subscribe_any_def Let_def obj_ages_def
     intro!: moves_intros split: option.splits body.splits func_state.splits)

section \<open>User code\<close>

lemma moves_take [simp]: "moves (range Subs) c (fst (take_result g c))"
  by (auto simp: take_result_def take_futures_def obj_ages_def intro!: moves_set_obj
      split: vref.splits option.splits body.splits)

lemma moves_unwind [simp]: "moves U c (fst (unwind e fs c))"
  by (cases "(e, fs, c)" rule: unwind.cases) (auto intro: moves_observe)

lemma new_state_open [simp]: "conts (new_state b) = Some []" "store (new_state b) = S_empty" "body (new_state b) = b"
  by (simp_all add: new_state_def)

lemma canceler_not_cnt [simp]: "canceler_body p \<noteq> B_cnt ex k"
  by (simp add: canceler_body_def split: option.splits)

lemma moves_promise [simp]:
  "moves U c (fst (promise_set_value w v c))" "moves U c (fst (promise_set_exception w e c))"
  "moves U c (fst (ask p c))" "moves U c (fst (is_ready h c))"
  "moves U c (fst (make_ready_future v c))" "moves U c (fst (make_exceptional_future e c))"
  "moves U c (fst (when_all_make gs c))" "moves U c (fst (when_any_make gs c))"
  "moves U c (fst (async ex f c))"
  "moves U c (fst (packaged_task f c))" "moves U c (fst (when_all_range gs v c))"
  by (auto simp: when_all_range_def promise_set_value_def promise_set_exception_def ask_def future_eq make_ready_future_def
      make_exceptional_future_def when_all_make_def when_any_make_def async_def promise_ctor_def make_promise_def
      packaged_task_def Let_def intro!: moves_new_obj moves_observe split: option.splits sum.splits)

lemma moves_wait [simp]: "moves U c (fst (wait a c))"
  by (auto simp: wait_def intro!: moves_push_after)

lemma moves_attach [simp]: "moves U c (fst (attach d h ex f g c))"
  by (auto simp: attach_def make_then_state_def Let_def intro!: moves_push_after moves_new_obj split: option.splits)

lemma moves_future [simp]:
  "moves U c (fst (future_wait h c))" "moves U c (fst (future_get i h c))" "moves U c (fst (detach h c))"
  "moves U c (fst (notify h f c))" "moves U c (fst (notify_on h ex f c))"
  "moves U c (fst (snd (future_then h ex f c)))" "moves U c (fst (snd (future_then_promise h ex f c)))"
  "moves U c (fst (snd (future_next h vd ex f c)))"
  by (auto simp: future_eq detach_eq future_then_eq
      Let_def split: option.splits)

lemma moves_api:
  assumes r: "api_step cm hs c = Some (c', hs', fs)"
  shows "moves U c c'"
proof (cases cm)
  case (New_promise p)
  then show ?thesis
    using r by (auto simp: promise_ctor_def intro!: moves_new_obj dest: canceler_not_cnt [THEN notE] split: option.splits)
next
  case (Make_promise p)
  then show ?thesis
    using r by (auto simp: make_promise_def intro!: moves_new_obj dest: canceler_not_cnt [THEN notE] split: option.splits)
next
  case (New_task f "is")
  then show ?thesis
    using r by (auto simp: packaged_task_def with_closure_def intro!: moves_new_obj split: option.splits)
next
  case (Get_future i w)
  then show ?thesis using r by (auto dest!: retrieve_Some split: handle.splits)
next
  case (Await_suspend i f "is")
  from await_suspend_Some [OF r [unfolded this]] show ?thesis by (auto elim!: attach_cmd_Some)
qed (use r in \<open>auto simp: call_Some with_closure_def elim!: attach_cmd_Some
  split: option.splits prod.splits handle.splits if_splits\<close>)


lemma moves_posted:
  assumes "take_posted j g c = Some (c', fs)" "g = run_task \<or> g = task_dtor_frames"
  shows "moves U c c'"
  using assms(2) by (rule disjE)
    (use assms(1) in \<open>auto elim!: take_posted_Some
      intro: moves_trans [OF moves_same(3) moves_run_task] moves_trans [OF moves_same(3) moves_dtor(5)]\<close>)

lemma moves_user:
  assumes "user_step cm x n hs rest c = Some (c', st)"
  shows "moves U c c'"
  using assms by (cases rule: user_step_cases) (auto intro: moves_api moves_posted)

lemma moves_lib:
  assumes "lib_step f rest c = Some (c', st)"
  shows "moves (rights f) c c'"
  using assms
proof (cases rule: lib_step_cases)
  case (got i x n hs rest')
  from got(3) show ?thesis by (cases rule: finish_get_cases) (auto simp: got(1) intro: moves_observe_after moves_observe)
qed (auto intro: moves_perform)

text \<open>The call that a thread performs next.\<close>

definition current :: "'v cfg \<Rightarrow> nat \<Rightarrow> 'v frame" where
  "current c t = hd (stacks c ! t)"

lemma moves_step:
  assumes "machine_step t l c = Some c'"
  shows "moves (rights (current c t)) c c'"
proof -
  obtain f rest c1 st where s: "stacks c ! t = f # rest"
    "top_step l f rest (set_stack t rest c) = Some (c1, st)" "c' = set_stack t st c1"
    using assms by (elim machine_step_cases)
  from s(2) have "moves (rights f) (set_stack t rest c) c1"
    by (cases rule: top_step_cases) (auto intro: moves_user moves_lib)
  then have "moves (rights f) c c1" by (rule moves_trans [OF moves_same(4)])
  then have "moves (rights f) c c'" unfolding s(3) by (rule moves_trans [OF _ moves_same(4)])
  then show ?thesis by (simp add: current_def s(1))
qed

end
