(* ===== verification/Tokens.thy ===== *)
theory Tokens
  imports Lifecycle
begin

text \<open>
  The functions whose results the machine stores in shared states: at most one call of
  a function is pending for a state, and while one is, nobody else writes the state's
  storage. So a stored result is never replaced.
\<close>

section \<open>Tokens\<close>

text \<open>
  The token \<open>Store a\<close> is the right to store the result of its function in \<open>a\<close>. For a
  continuation it starts in the parent's continuations stack (\<open>C_schedule\<close>), moves with
  the posted \<open>cnt_action\<close> and ends in the call of the function; for a task it starts in
  the task's function. \<open>Clean a\<close> is the right to end the call of a task's function,
  \<open>Sched a\<close> to hand the continuation \<open>a\<close> to its executor, \<open>Run a\<close> to do this or to
  run it, and \<open>Subs a\<close> to subscribe to the futures of the sequence \<open>a\<close>.
\<close>

definition one_if :: "bool \<Rightarrow> nat" where
  "one_if b = (if b then 1 else 0)"

lemma one_if_simps [simp]: "one_if True = 1" "one_if False = 0" "0 < one_if b \<longleftrightarrow> b"
  by (simp_all add: one_if_def)

fun state_of_right :: "right \<Rightarrow> addr" where
  "state_of_right (Store a) = a"
| "state_of_right (Clean a) = a"
| "state_of_right (Sched a) = a"
| "state_of_right (Run a) = a"
| "state_of_right (Subs a) = a"

fun stores :: "right \<Rightarrow> addr \<Rightarrow> nat" where
  "stores (Store a) b = one_if (b = a)"
| "stores _ b = 0"

fun cleans :: "right \<Rightarrow> addr \<Rightarrow> nat" where
  "cleans (Clean a) b = one_if (b = a)"
| "cleans _ b = 0"

fun runs :: "right \<Rightarrow> addr \<Rightarrow> nat" where
  "runs (Store a) b = one_if (b = a)"
| "runs (Run a) b = one_if (b = a)"
| "runs _ b = 0"

fun scheds :: "right \<Rightarrow> addr \<Rightarrow> nat" where
  "scheds (Store a) b = one_if (b = a)"
| "scheds (Run a) b = one_if (b = a)"
| "scheds (Sched a) b = one_if (b = a)"
| "scheds _ b = 0"

fun subs :: "right \<Rightarrow> addr \<Rightarrow> nat" where
  "subs (Subs a) b = one_if (b = a)"
| "subs _ b = 0"

lemma stores_cleans: "stores a b + cleans a b \<le> one_if (b = state_of_right a)"
  by (cases a) simp_all

lemma rights_le:
  "stores a b \<le> runs a b" "runs a b \<le> scheds a b" "scheds a b \<le> one_if (b = state_of_right a)"
  by (cases a; simp)+

text \<open>The tokens that come with a new state: those of a function only if the command has one.\<close>

definition gains :: "bool \<Rightarrow> right \<Rightarrow> addr \<Rightarrow> nat" where
  "gains m r b = (if m \<or> (\<exists>a. r = Subs a) then one_if (b = state_of_right r) else 0)"

lemma gains_simps [simp]: "gains True r b = one_if (b = state_of_right r)" "subs r b \<le> gains m r b"
  "gains m r b \<le> one_if (b = state_of_right r)" "gains m r b \<le> Suc 0"
  "gains False (Store a) b = 0" "gains False (Clean a) b = 0" "gains False (Run a) b = 0" "gains False (Sched a) b = 0"
  "b \<noteq> state_of_right r \<Longrightarrow> gains m r b = 0"
  by (cases r; simp add: gains_def one_if_def)+

fun cont_tok :: "right \<Rightarrow> cont \<Rightarrow> nat" where
  "cont_tok a (C_schedule b) = scheds a b"
| "cont_tok a _ = 0"

definition conts_tok :: "right \<Rightarrow> cont list \<Rightarrow> nat" where
  "conts_tok a ks = sum_list (map (cont_tok a) ks)"

fun task_tok :: "right \<Rightarrow> task \<Rightarrow> nat" where
  "task_tok a (T_cnt (Some b)) = runs a b"
| "task_tok a _ = 0"

fun frame_tok :: "right \<Rightarrow> 'v frame \<Rightarrow> nat" where
  "frame_tok a (F_user (U_set b _) _ _) = stores a b"
| "frame_tok a (F_drop_task k) = task_tok a k"
| "frame_tok a (F_unwrap b _ _) = stores a b"
| "frame_tok a (F_loop ks _) = conts_tok a ks"
| "frame_tok a (F_post _ k) = task_tok a k"
| "frame_tok a (F_run b) = runs a b"
| "frame_tok a (F_apply _ b) = stores a b"
| "frame_tok a (F_clean_func b _) = cleans a b"
| "frame_tok a (F_subscribe_all b _) = subs a b"
| "frame_tok a (F_subscribe_any b _) = subs a b"
| "frame_tok a _ = 0"

definition frames_tok :: "right \<Rightarrow> 'v frame list \<Rightarrow> nat" where
  "frames_tok a fs = sum_list (map (frame_tok a) fs)"

fun body_tok :: "body \<Rightarrow> nat" where
  "body_tok (B_task (Fn_ready _)) = 1"
| "body_tok _ = 0"

definition obj_tok :: "right \<Rightarrow> addr \<Rightarrow> 'v obj \<Rightarrow> nat" where
  "obj_tok a b w = (case conts w of None \<Rightarrow> 0 | Some ks \<Rightarrow> conts_tok a ks) +
     (if b = state_of_right a then body_tok (body w) else 0)"

definition heap_tok :: "'v cfg \<Rightarrow> right \<Rightarrow> nat" where
  "heap_tok c a = (\<Sum>b < length (heap c). case obj_at c b of None \<Rightarrow> 0 | Some w \<Rightarrow> obj_tok a b w)"

definition posted_tok :: "'v cfg \<Rightarrow> right \<Rightarrow> nat" where
  "posted_tok c a = sum_list (map (\<lambda>p. task_tok a (snd p)) (posted c))"

definition stacks_tok :: "'v cfg \<Rightarrow> right \<Rightarrow> nat" where
  "stacks_tok c a = sum_list (map (frames_tok a) (stacks c))"

definition shared_tok :: "'v cfg \<Rightarrow> right \<Rightarrow> nat" where
  "shared_tok c a = heap_tok c a + posted_tok c a"

definition tokens :: "'v cfg \<Rightarrow> right \<Rightarrow> nat" where
  "tokens c a = shared_tok c a + stacks_tok c a"

lemma list_tok_simps [simp]:
  "conts_tok a [] = 0" "conts_tok a (k # ks) = cont_tok a k + conts_tok a ks"
  "conts_tok a (ks @ ks') = conts_tok a ks + conts_tok a ks'"
  "frames_tok a [] = 0" "frames_tok a (f # fs) = frame_tok a f + frames_tok a fs"
  "frames_tok a (fs @ fs') = frames_tok a fs + frames_tok a fs'"
  by (simp_all add: conts_tok_def frames_tok_def)

lemma heap_tok_upd:
  assumes "obj_at c b = Some w" "length (heap c') = length (heap c)"
    and "\<And>d. d \<noteq> b \<Longrightarrow> obj_at c' d = obj_at c d"
  shows "heap_tok c' a + obj_tok a b w = heap_tok c a + (case obj_at c' b of None \<Rightarrow> 0 | Some w' \<Rightarrow> obj_tok a b w')"
proof -
  let ?f = "\<lambda>c b. case obj_at c b of None \<Rightarrow> 0 | Some w \<Rightarrow> obj_tok a b w"
  let ?S = "{..<length (heap c)} - {b}"
  have b: "b \<in> {..<length (heap c)}" using obj_at_less [OF assms(1)] by simp
  have "heap_tok c' a = ?f c' b + (\<Sum>d \<in> ?S. ?f c' d)"
    using b assms(2) by (simp add: heap_tok_def sum.remove [of _ b])
  moreover have "heap_tok c a = ?f c b + (\<Sum>d \<in> ?S. ?f c d)"
    using b by (simp add: heap_tok_def sum.remove [of _ b])
  moreover have "(\<Sum>d \<in> ?S. ?f c' d) = (\<Sum>d \<in> ?S. ?f c d)"
    using assms(3) by (intro sum.cong) auto
  ultimately show ?thesis using assms(1) by simp
qed

lemma heap_tok_cong: "obj_at c' = obj_at c \<Longrightarrow> length (heap c') = length (heap c) \<Longrightarrow> heap_tok c' = heap_tok c"
  by (simp add: heap_tok_def fun_eq_iff)

lemma posted_tok_frame [simp]:
  "posted_tok (set_obj b w c) = posted_tok c" "posted_tok (kill b c) = posted_tok c"
  "posted_tok (new_obj w c) = posted_tok c" "posted_tok (observe e c) = posted_tok c"
  "posted_tok (set_stack t st c) = posted_tok c"
  by (simp_all add: posted_tok_def fun_eq_iff)

lemma shared_tok_frame [simp]:
  "shared_tok (observe e c) = shared_tok c" "shared_tok (set_stack t st c) = shared_tok c"
  "shared_tok (c\<lparr>waits := ws\<rparr>) = shared_tok c" "shared_tok (c\<lparr>signalled := ss\<rparr>) = shared_tok c"
  "shared_tok (c\<lparr>crashed := k\<rparr>) = shared_tok c"
  by (simp_all add: shared_tok_def fun_eq_iff heap_tok_def posted_tok_def)

lemma shared_tok_set_obj:
  "obj_at c b = Some w \<Longrightarrow> shared_tok (set_obj b w' c) a + obj_tok a b w = shared_tok c a + obj_tok a b w'"
  using heap_tok_upd [of c b w "set_obj b w' c" a] obj_at_less [of c b w]
  by (simp add: shared_tok_def obj_at_set_obj)

lemma shared_tok_kill:
  assumes "obj_at c b = Some w"
  shows "shared_tok (kill b c) a \<le> shared_tok c a"
proof -
  have "heap_tok (kill b c) a + obj_tok a b w = heap_tok c a"
    using heap_tok_upd [OF assms, of "kill b c" a] by (simp add: obj_at_kill)
  then show ?thesis by (simp add: shared_tok_def)
qed

lemma shared_tok_new_obj: "shared_tok (new_obj w c) a = shared_tok c a + obj_tok a (fresh c) w"
proof -
  have "(\<Sum>b < length (heap c). case obj_at (new_obj w c) b of None \<Rightarrow> 0 | Some w \<Rightarrow> obj_tok a b w) =
      (\<Sum>b < length (heap c). case obj_at c b of None \<Rightarrow> 0 | Some w \<Rightarrow> obj_tok a b w)"
    by (intro sum.cong) (auto simp: obj_at_new_obj fresh_def)
  then show ?thesis
    by (simp add: shared_tok_def heap_tok_def obj_at_new_obj fresh_def)
qed

lemma shared_tok_posted:
  "shared_tok (c\<lparr>posted := q\<rparr>) a + posted_tok c a = shared_tok c a + sum_list (map (\<lambda>p. task_tok a (snd p)) q)"
  by (simp add: shared_tok_def heap_tok_def posted_tok_def)

section \<open>Calls do not make tokens\<close>

text \<open>
  The tokens after a call, in shared memory and in the frames it leaves, against
  those before, of which the call itself had \<open>n\<close>.
\<close>

definition tok_le :: "'v cfg \<times> 'v frame list \<Rightarrow> right \<Rightarrow> nat \<Rightarrow> bool" where
  "tok_le r a m \<longleftrightarrow> shared_tok (fst r) a + frames_tok a (snd r) \<le> m"

lemma tok_le_pair [simp]: "tok_le (c, fs) a m \<longleftrightarrow> shared_tok c a + frames_tok a fs \<le> m"
  by (simp add: tok_le_def)

lemma tok_le_crash [simp]: "tok_le (crash_with k c) a m \<longleftrightarrow> shared_tok c a \<le> m"
  by (simp add: crash_with_def)

lemma tok_le_append:
  "tok_le (case r of (c', fs) \<Rightarrow> (c', fs @ gs)) a (m + frames_tok a gs) \<longleftrightarrow> tok_le r a m"
  "tok_le (case r of (c', fs) \<Rightarrow> (c', gs @ fs)) a (m + frames_tok a gs) \<longleftrightarrow> tok_le r a m"
  by (cases r; auto)+

lemma tok_le_mono: "tok_le r a m \<Longrightarrow> m \<le> m' \<Longrightarrow> tok_le r a m'"
  by (simp add: tok_le_def)

lemma tok_le_with_obj:
  "shared_tok c a \<le> m \<Longrightarrow> (\<And>w. obj_at c b = Some w \<Longrightarrow> tok_le (g w c) a m) \<Longrightarrow> tok_le (with_obj b g c) a m"
  by (auto simp: with_obj_def split: option.splits)

text \<open>An update of an object that neither adds continuations nor makes a task ready.\<close>

lemma set_obj_tok:
  assumes "obj_at c b = Some w" "obj_tok a b w' \<le> obj_tok a b w + n"
  shows "shared_tok (set_obj b w' c) a \<le> shared_tok c a + n"
  using shared_tok_set_obj [OF assms(1), of w' a] assms(2) by simp

lemma obj_tok_simps [simp]:
  "obj_tok a b (w\<lparr>store := s\<rparr>) = obj_tok a b w"
  "obj_tok a b (w\<lparr>conts := p\<rparr>) = (case p of None \<Rightarrow> 0 | Some ks \<Rightarrow> conts_tok a ks) + (if b = state_of_right a then body_tok (body w) else 0)"
  "obj_tok a b (w\<lparr>body := y\<rparr>) = (case conts w of None \<Rightarrow> 0 | Some ks \<Rightarrow> conts_tok a ks) + (if b = state_of_right a then body_tok y else 0)"
  "obj_tok a b (new_state y) = (if b = state_of_right a then body_tok y else 0)"
  by (simp_all add: obj_tok_def new_state_def)

lemma push_tok: "tok_le (push b k c) a (shared_tok c a + cont_tok a k)"
  unfolding push_def
proof (rule tok_le_with_obj)
  fix w assume w: "obj_at c b = Some w"
  show "tok_le (case conts w of None \<Rightarrow> (c, [F_loop [k] []])
      | Some ks \<Rightarrow> (set_obj b (w\<lparr>conts := Some (k # ks)\<rparr>) c, [])) a (shared_tok c a + cont_tok a k)"
    by (auto intro!: set_obj_tok [OF w] simp: obj_tok_def split: option.splits)
qed simp

lemma execute_tok: "tok_le (execute b c) a (shared_tok c a)"
  unfolding execute_def
proof (rule tok_le_with_obj)
  fix w assume w: "obj_at c b = Some w"
  show "tok_le (case conts w of None \<Rightarrow> (c, [])
      | Some ks \<Rightarrow> (observe (E_ready b) (set_obj b (w\<lparr>conts := None\<rparr>) c), [F_loop ks []])) a (shared_tok c a)"
    using shared_tok_set_obj [OF w, of "w\<lparr>conts := None\<rparr>" a] by (auto simp: obj_tok_def split: option.splits if_splits)
qed simp


lemma simple_tok:
  "tok_le (emplace b v c) a (shared_tok c a)" "tok_le (set_exception b e c) a (shared_tok c a)"
  "tok_le (abandon b c) a (shared_tok c a)" "tok_le (notify_all b c) a (shared_tok c a)"
  "tok_le (notify_any b i c) a (shared_tok c a)" "tok_le (clean_action b c) a (shared_tok c a)"
  "tok_le (clean_func b hs c) a (shared_tok c a)" "tok_le (task_run b c) a (shared_tok c a)"
  "tok_le (task_abandon b c) a (shared_tok c a)"
proof -
  have upd: "shared_tok (set_obj b w' c) a + n \<le> shared_tok c a"
    if "obj_at c b = Some w" "obj_tok a b w' + n \<le> obj_tok a b w" for w w' n
    using shared_tok_set_obj [OF that(1), of w' a] that(2) by simp
  have upd0: "shared_tok (set_obj b w' c) a \<le> shared_tok c a"
    if "obj_at c b = Some w" "obj_tok a b w' \<le> obj_tok a b w" for w w'
    using upd [OF that(1), of w' 0] that(2) by simp
  show "tok_le (emplace b v c) a (shared_tok c a)" "tok_le (set_exception b e c) a (shared_tok c a)"
    "tok_le (abandon b c) a (shared_tok c a)" "tok_le (notify_all b c) a (shared_tok c a)"
    "tok_le (notify_any b i c) a (shared_tok c a)" "tok_le (clean_action b c) a (shared_tok c a)"
    "tok_le (clean_func b hs c) a (shared_tok c a)"
    unfolding emplace_def set_exception_def abandon_def notify_all_def notify_any_def clean_action_def clean_func_def
    by (rule tok_le_with_obj; force simp: drop_action_def obj_tok_def Let_def
        intro!: upd0 split: body.splits func_state.splits option.splits if_splits)+
  show "tok_le (task_run b c) a (shared_tok c a)"
    unfolding task_run_def
  proof (rule tok_le_with_obj)
    fix w assume w: "obj_at c b = Some w"
    show "tok_le (case body w of B_task Fn_empty \<Rightarrow> (c, [F_raise already_satisfied])
      | B_task (Fn_ready f) \<Rightarrow> (observe (E_call (code f)) (set_obj b (w\<lparr>body := B_task Fn_running\<rparr>) c),
          [invoke f (U_set b (unwraps_in_try f)) [], F_clean_func b []])
      | _ \<Rightarrow> crash_with Undefined_behaviour c) a (shared_tok c a)"
      using upd [OF w, of "w\<lparr>body := B_task Fn_running\<rparr>" "stores a b + cleans a b"]
        stores_cleans [of a b]
      by (auto simp: invoke_def obj_tok_def one_if_def split: body.splits func_state.splits if_splits)
  qed simp
  show "tok_le (task_abandon b c) a (shared_tok c a)"
    unfolding task_abandon_def
  proof (rule tok_le_with_obj)
    fix w assume w: "obj_at c b = Some w"
    show "tok_le (case body w of B_task Fn_empty \<Rightarrow> (c, [F_abandon b])
      | B_task (Fn_ready f) \<Rightarrow> (set_obj b (w\<lparr>body := B_task Fn_empty\<rparr>) c, [F_home (caps f), F_abandon b])
      | _ \<Rightarrow> crash_with Undefined_behaviour c) a (shared_tok c a)"
      using upd0 [OF w, of "w\<lparr>body := B_task Fn_empty\<rparr>"]
      by (auto simp: obj_tok_def split: body.splits func_state.splits)
  qed simp
qed

lemma upd_tok:
  assumes "obj_at c b = Some w" "obj_tok a b w' + n \<le> obj_tok a b w"
  shows "shared_tok (set_obj b w' c) a + n \<le> shared_tok c a"
  using shared_tok_set_obj [OF assms(1), of w' a] assms(2) by simp

lemma frames_tok_map [simp]:
  "frames_tok a (drop_handles hs) = 0" "frames_tok a (map F_drop hs) = 0" "frames_tok a (cont_dtor k) = 0"
  "frames_tok a (drop_storage s) = 0" "frames_tok a (drop_action p) = 0" "frames_tok a (drop_conts ks) = 0"
proof -
  show h: "frames_tok a (map F_drop hs) = 0" for hs by (induction hs) auto
  show "frames_tok a (drop_handles hs) = 0" unfolding drop_handles_def by (rule h)
  show k: "frames_tok a (cont_dtor k) = 0" for k by (cases k) (auto simp: cont_dtor_def)
  show "frames_tok a (drop_storage s) = 0" by (cases s) auto
  show "frames_tok a (drop_action p) = 0" by (auto simp: drop_action_def split: option.splits)
  show "frames_tok a (drop_conts ks) = 0" by (cases ks) (auto simp: k)
qed

lemma lock_tok: "frames_tok a fs = 0 \<Longrightarrow> tok_le (lock b fs c) a (shared_tok c a)"
  by (auto simp: lock_def)

lemma tok_le_append_zero [simp]:
  "frames_tok a gs = 0 \<Longrightarrow> tok_le (case r of (c', fs) \<Rightarrow> (c', fs @ gs)) a m = tok_le r a m"
  "frames_tok a gs = 0 \<Longrightarrow> tok_le (case r of (c', fs) \<Rightarrow> (c', gs @ fs)) a m = tok_le r a m"
  by (cases r; simp)+

lemma dtor_tok [simp]:
  "tok_le (promise_dtor w c) a (shared_tok c a)" "tok_le (task_dtor w c) a (shared_tok c a)"
  "tok_le (cnt_action_dtor p c) a (shared_tok c a)" "tok_le (handle_dtor h c) a (shared_tok c a)"
  "tok_le (task_dtor_frames k c) a (shared_tok c a)" "tok_le (task_call w c) a (shared_tok c a)"
  "tok_le (call_closure f c) a (shared_tok c a)" "tok_le (unwrap_cont b c) a (shared_tok c a)"
  "tok_le (wait_cont n c) a (shared_tok c a)"
  by (auto simp: promise_dtor_def promise_abandon_def task_dtor_def cnt_action_dtor_def handle_dtor_def raise_def
      task_dtor_frames_def task_call_def call_closure_def unwrap_cont_def wait_cont_def invoke_def
      intro!: lock_tok split: owner.splits option.splits handle.splits task.splits)

lemma release_tok: "tok_le (release b c) a (shared_tok c a)"
proof (cases "obj_at c b")
  case (Some w)
  have "tok_le (obj_dtor w (observe (E_dead b) (kill b c))) a (shared_tok c a)"
    using shared_tok_kill [OF Some, of a]
    by (auto simp: obj_dtor_def state_dtor_def invoke_def split: body.splits func_state.splits option.splits)
  then show ?thesis by (simp add: release_def Some)
qed (simp add: release_def)

lemma schedule_tok:
  "tok_le (schedule b c) a (shared_tok c a + scheds a b)"
  "tok_le (run_cnt b c) a (shared_tok c a + runs a b)"
proof -
  have upd: "shared_tok (set_obj b (w\<lparr>body := B_cnt p q\<rparr>) c) a \<le> shared_tok c a" if "obj_at c b = Some w" for w p q
    using upd_tok [OF that, of a "w\<lparr>body := B_cnt p q\<rparr>" 0] by (simp add: obj_tok_def)
  show "tok_le (schedule b c) a (shared_tok c a + scheds a b)"
    "tok_le (run_cnt b c) a (shared_tok c a + runs a b)"
    using upd rights_le [of a b]
    by (auto simp: schedule_def run_cnt_def intro: add_mono split: option.splits body.splits)
qed

lemma apply_tok: "tok_le (apply_action k b c) a (shared_tok c a + stores a b)"
  by (cases "a_deco k") (auto simp: apply_action_def apply_then_def apply_next_def apply_void_next_def
      apply_interruptible_def invoke_def split: option.splits access.splits)

lemma call_cont_tok: "tok_le (call_cont k c) a (shared_tok c a + cont_tok a k)"
  using schedule_tok(1) dtor_tok by (cases k) (auto simp: call_cont_def split: exec.splits)

lemma loop_tok: "tok_le (loop ks done c) a (shared_tok c a + conts_tok a ks)"
proof (cases ks)
  case (Cons k ks')
  have "frames_tok a [F_loop ks' (done @ [called_cont k])] = conts_tok a ks'" by simp
  then show ?thesis
    using call_cont_tok [of k c a] tok_le_append(1) [where r = "call_cont k c" and gs = "[F_loop ks' (done @ [called_cont k])]" and a = a]
    by (simp add: Cons add.assoc [symmetric])
qed simp

lemma run_task_tok: "tok_le (run_task k c) a (shared_tok c a + task_tok a k)"
  by (auto simp: run_task_def intro: tok_le_mono split: task.splits option.splits)

lemma post_tok: "tok_le (post ex k c) a (shared_tok c a + task_tok a k)"
proof (cases ex)
  case (Executor n)
  have "shared_tok (c\<lparr>posted := posted c @ [(n, k)]\<rparr>) a = shared_tok c a + task_tok a k"
    using shared_tok_posted [of "posted c @ [(n, k)]" c a] by (simp add: posted_tok_def)
  then show ?thesis by (simp add: post_def Executor)
qed (simp add: post_def run_task_tok)

lemma unwrap_tok: "tok_le (unwrap b p c) a (shared_tok c a)"
proof (cases p)
  case (Some d)
  show ?thesis
    unfolding Some unwrap.simps
  proof (rule tok_le_with_obj)
    fix w assume w: "obj_at c b = Some w"
    let ?c = "set_obj b (w\<lparr>store := S_fwd d\<rparr>) c"
    have "shared_tok ?c a \<le> shared_tok c a" using upd_tok [OF w, of a _ 0] by simp
    then have "tok_le (push d (C_unwrap b) ?c) a (shared_tok c a)"
      using push_tok [of d "C_unwrap b" ?c a] by (auto intro: tok_le_mono)
    then show "tok_le (let (c', fs) = push d (C_unwrap b) ?c in (c', drop_storage (store w) @ fs)) a (shared_tok c a)"
      by simp
  qed simp
qed simp

lemma subscribe_tok:
  "tok_le (subscribe_all b i c) a (shared_tok c a + subs a b)" "tok_le (subscribe_any b i c) a (shared_tok c a + subs a b)"
proof -
  have p: "tok_le (let (c', fs) = push d (C_all b) c in (c', fs @ [F_subscribe_all b (i + 1)])) a (shared_tok c a + subs a b)"
    "tok_le (let (c', fs) = push d (C_any b j) c in (c', fs @ [F_subscribe_any b (i + 1)])) a (shared_tok c a + subs a b)" for d j
    using push_tok [of d "C_all b" c a] push_tok [of d "C_any b j" c a]
      tok_le_append(1) [where r = "push d (C_all b) c" and gs = "[F_subscribe_all b (i + 1)]" and a = a and m = "shared_tok c a"]
      tok_le_append(1) [where r = "push d (C_any b j) c" and gs = "[F_subscribe_any b (i + 1)]" and a = a and m = "shared_tok c a"]
    by simp_all
  show "tok_le (subscribe_all b i c) a (shared_tok c a + subs a b)" "tok_le (subscribe_any b i c) a (shared_tok c a + subs a b)"
    unfolding subscribe_all_def subscribe_any_def
    by (rule tok_le_with_obj; use p in \<open>auto split: body.splits option.splits\<close>)+
qed

lemma perform_tok: "tok_le (perform f c) a (shared_tok c a + frame_tok a f)"
proof (cases f)
  case (F_unwrap b p t)
  then show ?thesis using unwrap_tok [of b p c a] by (auto intro: tok_le_mono)
next
  case (F_clean_func b hs)
  then show ?thesis by (simp add: tok_le_mono [OF simple_tok(7)])
qed (auto simp: simple_tok execute_tok release_tok schedule_tok apply_tok loop_tok post_tok subscribe_tok
     cnt_abandon_def intro: tok_le_mono [OF dtor_tok(5)])


section \<open>Steps do not make tokens\<close>

lemma refill_tok [simp]: "frames_tok a (put_home hs fs) = frames_tok a fs"
  by (induction hs fs rule: put_home.induct) auto

lemma leave_tok [simp]: "frames_tok a (leave n hs fs rest) = frames_tok a fs + frames_tok a rest"
  by (simp add: leave_def)

lemma return_tok:
  fixes rest :: "'v frame list"
  assumes "return_step cm x n hs rest = Some st"
  shows "frames_tok a st \<le> frame_tok a (F_user x n hs :: 'v frame) + frames_tok a rest"
  using assms
proof (cases rule: return_step_cases)
  case (result b t r hs')
  then show ?thesis by (cases r) simp_all
qed simp_all

lemma cleanup_tok: "frames_tok a (cleanup f) \<le> frame_tok a f"
  by (cases f) (auto split: option.splits)

lemma unwind_tok: "frames_tok a (snd (unwind e fs c)) \<le> frames_tok a fs" "shared_tok (fst (unwind e fs c)) a = shared_tok c a"
  using cleanup_tok [of a "hd fs"]
  by (cases "(e, fs, c)" rule: unwind.cases; simp add: crash_with_def)+

lemma take_result_tok: "shared_tok (fst (take_result r c)) a \<le> shared_tok c a"
proof -
  have "shared_tok (fst (take_futures b c)) a \<le> shared_tok c a" for b
  proof (cases "obj_at c b")
    case (Some w)
    have "shared_tok (set_obj b (w\<lparr>body := y\<rparr>) c) a \<le> shared_tok c a" if "body_tok y = 0" for y
      using upd_tok [OF Some, of a "w\<lparr>body := y\<rparr>" 0] that by (simp add: obj_tok_def)
    then show ?thesis by (auto simp: take_futures_def Some split: body.splits)
  qed (simp add: take_futures_def)
  then show ?thesis by (auto simp: take_result_def split: vref.splits)
qed

lemma finish_get_tok:
  fixes rest :: "'v frame list"
  assumes "finish_get i x n hs rest c = Some (c', st)"
  shows "shared_tok c' a + frames_tok a st \<le> shared_tok c a + frame_tok a (F_user x n hs :: 'v frame) + frames_tok a rest"
  using assms
proof (cases rule: finish_get_cases)
  case (moved b g)
  then show ?thesis using take_result_tok [of g c a] by (cases x) auto
qed (cases x; simp add: crash_with_def)+

lemma lib_step_tok:
  assumes "lib_step f rest c = Some (c', st)"
  shows "shared_tok c' a + frames_tok a st \<le> shared_tok c a + frame_tok a f + frames_tok a rest"
  using assms
proof (cases rule: lib_step_cases)
  case (raised e)
  then show ?thesis using unwind_tok(1) [of a e rest c] by (simp add: unwind_tok(2))
next
  case (given h x n hs rest')
  then show ?thesis by (cases x) auto
next
  case (got i x n hs rest')
  then show ?thesis using finish_get_tok [OF got(3), of a] by (simp add: add.assoc)
next
  case performed
  then show ?thesis using perform_tok [of f c a] by (simp add: tok_le_def)
qed simp_all

lemma new_state_tok: "shared_tok (new_obj (new_state b) c) a = shared_tok c a + (if fresh c = state_of_right a then body_tok b else 0)"
  by (simp add: shared_tok_new_obj)

lemma push_tok_zero: "cont_tok a k = 0 \<Longrightarrow> shared_tok c a \<le> m \<Longrightarrow> tok_le (push b k c) a m"
  using push_tok [of b k c a] by (auto intro: tok_le_mono)

lemma wait_tok: "tok_le (wait b c) a (shared_tok c a)"
  by (auto simp: wait_def intro!: push_tok_zero)

lemma attach_tok: "tok_le (attach d h ex f g c) a (shared_tok c a + one_if (fresh c = state_of_right a))"
proof (cases "state_of h")
  case (Some p)
  let ?b = "B_cnt (Some ex) (Some \<lparr>a_deco = d, a_func = f, a_parent = p\<rparr>)"
  have "shared_tok (new_obj (new_state ?b) c) a = shared_tok c a" by (simp add: new_state_tok)
  then show ?thesis
    using push_tok [of p "C_schedule (fresh c)" "new_obj (new_state ?b) c" a] rights_le(3) [of a "fresh c"]
    by (auto intro: tok_le_mono simp add: attach_def Some make_then_state_def)
qed (simp add: attach_def no_state_def)

lemma future_tok:
  "tok_le (future_wait h c) a (shared_tok c a)" "tok_le (future_get i h c) a (shared_tok c a)"
  "tok_le (detach h c) a (shared_tok c a)" "tok_le (notify h f c) a (shared_tok c a)"
  "tok_le (notify_on h ex f c) a (shared_tok c a)"
  by (auto simp: future_eq detach_eq no_state_def
      intro!: wait_tok push_tok_zero split: option.splits)

lemma create_tok:
  "tok_le (make_ready_future v c) a (shared_tok c a)" "tok_le (make_exceptional_future e c) a (shared_tok c a)"
  "tok_le (when_all_make gs c) a (shared_tok c a + subs a (fresh c))"
  "tok_le (when_any_make gs c) a (shared_tok c a + subs a (fresh c))"
  "tok_le (promise_set_value w v c) a (shared_tok c a)" "tok_le (promise_set_exception w e c) a (shared_tok c a)"
  "tok_le (ask p c) a (shared_tok c a)" "tok_le (is_ready h c) a (shared_tok c a)"
  "tok_le (when_all_range gs v c) a (shared_tok c a + subs a (fresh c))"
  "tok_le (async ex f c) a (shared_tok c a + one_if (fresh c = state_of_right a))"
  by (auto simp: when_all_range_def make_ready_future_def make_exceptional_future_def when_all_make_def when_any_make_def
      promise_ctor_def make_promise_def async_def packaged_task_def promise_set_value_def promise_set_exception_def
      ask_def future_eq raise_def no_state_def new_state_tok Let_def split: option.splits sum.splits)

lemma api_step_tok:
  assumes r: "api_step cm hs c = Some (c', hs', fs)"
  shows "tok_le (c', fs) a (shared_tok c a + gains (makes_function cm) a (fresh c))"
proof (cases cm)
  case (New_promise p)
  then show ?thesis using r
    by (auto simp: promise_ctor_def new_state_tok canceler_body_def split: option.splits)
next
  case (Make_promise p)
  then show ?thesis using r
    by (auto simp: make_promise_def new_state_tok canceler_body_def split: option.splits)
next
  case (New_task f "is")
  then show ?thesis using r
    by (auto simp: packaged_task_def with_closure_def new_state_tok split: option.splits)
next
  case (Get_future i w)
  then show ?thesis using r by (auto simp: raise_def dest!: retrieve_Some split: handle.splits)
next
  case (Assign i j)
  then show ?thesis using r by (auto simp: assign_def Let_def split: if_splits option.splits)
next
  case (Async ex f "is")
  then show ?thesis using r create_tok(10)
    by (auto simp: call_Some with_closure_def tok_le_def split: option.splits)
next
  case (Local lc)
  then show ?thesis using r by (auto dest!: local_step_frames split: option.splits)
next
  case (When_all "is")
  then show ?thesis using r by (auto simp: call_Some intro!: tok_le_mono [OF create_tok(3)] simp del: tok_le_pair split: option.splits if_splits)
next
  case (When_any "is")
  then show ?thesis using r by (auto simp: call_Some intro!: tok_le_mono [OF create_tok(4)] simp del: tok_le_pair split: option.splits if_splits)
next
  case (When_all_range "is" v)
  then show ?thesis using r by (auto simp: call_Some intro!: tok_le_mono [OF create_tok(9)] simp del: tok_le_pair split: option.splits if_splits)
next
  case (When_any_range "is")
  then show ?thesis using r by (auto simp: call_Some intro!: tok_le_mono [OF create_tok(4)] simp del: tok_le_pair split: option.splits if_splits)
next
  case (Await_suspend i f "is")
  from await_suspend_Some [OF r [unfolded this]] show ?thesis
    using Await_suspend by (auto simp del: tok_le_pair elim!: attach_cmd_Some intro!: tok_le_mono [OF future_tok(4)])
next
  case (Notify i f "is")
  then show ?thesis using r by (auto simp del: tok_le_pair elim!: attach_cmd_Some intro!: tok_le_mono [OF future_tok(4)] tok_le_mono [OF future_tok(5)])
next
  case (Notify_on i ex f "is")
  then show ?thesis using r by (auto simp del: tok_le_pair elim!: attach_cmd_Some intro!: tok_le_mono [OF future_tok(4)] tok_le_mono [OF future_tok(5)])
next
  case (Then i ex f "is")
  then show ?thesis using r
    by (auto simp: future_then_eq Let_def simp del: tok_le_pair elim!: attach_cmd_Some intro: attach_tok)
next
  case (Then_promise i ex f "is")
  then show ?thesis using r
    by (auto simp: future_then_eq Let_def simp del: tok_le_pair elim!: attach_cmd_Some intro: attach_tok)
next
  case (Next i vd ex f "is")
  then show ?thesis using r
    by (auto simp: future_then_eq Let_def simp del: tok_le_pair elim!: attach_cmd_Some intro: attach_tok)
next
  case (Destroy i)
  then show ?thesis using r by (auto split: if_splits)
next
  case (Copy i)
  then show ?thesis using r by (auto split: handle.splits)
next
  case (Share i)
  then show ?thesis using r by (auto split: handle.splits)
qed (use r in \<open>auto simp: call_Some intro: tok_le_mono [OF create_tok(1)] tok_le_mono [OF create_tok(2)]
    tok_le_mono [OF create_tok(5)] tok_le_mono [OF create_tok(6)] tok_le_mono [OF create_tok(7)]
    tok_le_mono [OF create_tok(8)] tok_le_mono [OF future_tok(1)] tok_le_mono [OF future_tok(2)]
    tok_le_mono [OF future_tok(3)] tok_le_mono [OF dtor_tok(6)]
  simp del: tok_le_pair split: option.splits prod.splits handle.splits if_splits\<close>)

lemma posted_take:
  assumes "j < length (posted c)"
  shows "shared_tok (c\<lparr>posted := take j (posted c) @ drop (j + 1) (posted c)\<rparr>) a + task_tok a (snd (posted c ! j)) = shared_tok c a"
proof -
  have "posted c = take j (posted c) @ posted c ! j # drop (j + 1) (posted c)"
    using assms by (simp add: id_take_nth_drop)
  from arg_cong [OF this, of "\<lambda>q. sum_list (map (\<lambda>p. task_tok a (snd p)) q)"]
  have "posted_tok c a = sum_list (map (\<lambda>p. task_tok a (snd p)) (take j (posted c) @ drop (j + 1) (posted c))) +
      task_tok a (snd (posted c ! j))"
    by (simp add: posted_tok_def)
  then show ?thesis
    using shared_tok_posted [of "take j (posted c) @ drop (j + 1) (posted c)" c a] by simp
qed

lemma user_step_tok:
  fixes rest :: "'v frame list"
  assumes "user_step cm x n hs rest c = Some (c', st)"
  shows "shared_tok c' a + frames_tok a st \<le> shared_tok c a + frame_tok a (F_user x n hs :: 'v frame) + frames_tok a rest +
    gains (makes_function cm) a (fresh c)"
  using assms
proof (cases rule: user_step_cases)
  case returned
  then show ?thesis using return_tok [OF returned(1), of a] by (simp add: trans_le_add1 flip: add.assoc)
next
  case (called hs' fs)
  then show ?thesis using api_step_tok [OF called(1), of a] by (cases x) auto
next
  case (posted j g fs)
  let ?c = "c\<lparr>posted := take j (posted c) @ drop (j + 1) (posted c)\<rparr>"
  let ?k = "snd (posted c ! j)"
  from posted(2) have j: "j < length (posted c)" "c' = fst (g ?k ?c)" "fs = snd (g ?k ?c) @ [F_noexcept]"
    by (auto elim!: take_posted_Some)
  have "tok_le (g ?k ?c) a (shared_tok ?c a + task_tok a ?k)"
    using posted(1) by (auto simp: run_task_tok tok_le_mono [OF dtor_tok(5)])
  then have "shared_tok c' a + frames_tok a fs \<le> shared_tok c a"
    using posted_take [OF j(1), of a] by (simp add: j(2,3) tok_le_def)
  then show ?thesis by (simp add: posted(3))
qed


lemma top_step_tok:
  assumes "top_step l f rest c = Some (c', st)"
  shows "shared_tok c' a + frames_tok a st \<le> shared_tok c a + frame_tok a f + frames_tok a rest +
    gains (creates l) a (fresh c)"
proof (cases "\<exists>x n hs cm. f = F_user x n hs \<and> l = Some cm")
  case True
  then obtain x n hs cm where "f = F_user x n hs" "l = Some cm" by blast
  then show ?thesis using assms user_step_tok [of "forwarded cm" x n hs rest c c' st a] by (simp add: top_step_def creates_def)
next
  case False
  then have "l = None" "lib_step f rest c = Some (c', st)"
    using assms by (auto simp: top_step_def split: frame.splits option.splits)
  then show ?thesis using lib_step_tok [of f rest c c' st a] by (simp add: creates_def)
qed

lemma stacks_tok_set:
  assumes "t < length (stacks c)"
  shows "stacks_tok (set_stack t st c) a + frames_tok a (stacks c ! t) = stacks_tok c a + frames_tok a st"
proof -
  have "sum_list (map g (xs[i := v])) + g (xs ! i) = sum_list (map g xs) + g v" if "i < length xs"
    for g :: "'a frame list \<Rightarrow> nat" and xs i v
    using that by (induction xs arbitrary: i) (auto simp: less_Suc_eq_0_disj split: nat.splits)
  then show ?thesis using assms by (simp add: stacks_tok_def set_stack_def)
qed

lemma top_step_stacks: "top_step l f rest c = Some (c', st) \<Longrightarrow> stacks c' = stacks c"
proof (erule top_step_cases)
  fix x n hs cm assume "user_step cm x n hs rest c = Some (c', st)"
  then show "stacks c' = stacks c"
  proof (cases rule: user_step_cases)
    case (posted j g fs)
    then show ?thesis by (auto elim!: take_posted_Some)
  qed (auto simp: api_step_stacks)
qed (simp add: lib_step_stacks)

text \<open>What a step of the machine is made of.\<close>

lemma machine_stepE:
  assumes "machine_step t l c = Some c'"
  obtains f rest c1 st where "t < length (stacks c)" "stacks c ! t = f # rest"
    "top_step l f rest (set_stack t rest c) = Some (c1, st)" "c' = set_stack t st c1"
    "stacks c' = (stacks c)[t := st]" "obj_at c' = obj_at c1" "current c t = f"
proof -
  obtain f rest c1 st where *: "t < length (stacks c)" "stacks c ! t = f # rest"
    "top_step l f rest (set_stack t rest c) = Some (c1, st)" "c' = set_stack t st c1"
    using assms by (elim machine_step_cases)
  have "stacks c' = (stacks c)[t := st]" using top_step_stacks [OF *(3)] by (simp add: *(4) set_stack_def)
  then show thesis using that * by (simp add: current_def)
qed

lemma fresh_set_stack: "fresh (set_stack t st c) = fresh c"
  by (simp add: fresh_def)

lemma step_tokens:
  assumes "machine_step t l c = Some c'"
  shows "tokens c' a \<le> tokens c a + gains (creates l) a (fresh c)"
  using assms
proof (cases rule: machine_stepE)
  case (1 f rest c1 st)
  let ?d = "gains (creates l) a (fresh c)"
  have "stacks_tok c' a + frame_tok a f + frames_tok a rest = stacks_tok c a + frames_tok a st"
    using stacks_tok_set [OF 1(1), of st a] 1(2,5) by (simp add: stacks_tok_def set_stack_def)
  moreover have "shared_tok c' a = shared_tok c1 a" by (simp add: 1(4))
  moreover have "shared_tok c1 a + frames_tok a st \<le> shared_tok c a + frame_tok a f + frames_tok a rest + ?d"
    using top_step_tok [OF 1(3), of a] unfolding fresh_set_stack by simp
  ultimately show ?thesis unfolding tokens_def by linarith
qed


section \<open>Calls of the functions of tasks\<close>

text \<open>
  While a task's function is called, below the call is the frame that ends it; \<open>T\<close> are
  the tasks and \<open>S\<close> those that are ended further below.
\<close>

fun pending :: "'v frame \<Rightarrow> addr set" where
  "pending (F_user (U_set b _) _ _) = {b}"
| "pending (F_unwrap b _ _) = {b}"
| "pending _ = {}"

fun ends :: "'v frame \<Rightarrow> addr set" where
  "ends (F_clean_func b _) = {b}"
| "ends _ = {}"

definition ends_all :: "'v frame list \<Rightarrow> addr set" where
  "ends_all fs = (\<Union>f \<in> set fs. ends f)"

fun lent :: "addr set \<Rightarrow> addr set \<Rightarrow> 'v frame list \<Rightarrow> bool" where
  "lent T S [] = True"
| "lent T S (f # fs) \<longleftrightarrow> pending f \<inter> T \<subseteq> ends_all fs \<union> S \<and> lent T S fs"

lemma ends_all_simps [simp]:
  "ends_all [] = {}" "ends_all (f # fs) = ends f \<union> ends_all fs" "ends_all (fs @ gs) = ends_all fs \<union> ends_all gs"
  by (auto simp: ends_all_def)

lemma lent_append [simp]: "lent T S (fs @ gs) \<longleftrightarrow> lent T (ends_all gs \<union> S) fs \<and> lent T S gs"
  by (induction fs) auto

lemma lent_mono: "lent T S fs \<Longrightarrow> S \<subseteq> S' \<Longrightarrow> T' \<subseteq> T \<Longrightarrow> lent T' S' fs"
  by (induction fs) auto

lemma lent_none: "(\<And>f. f \<in> set fs \<Longrightarrow> pending f = {}) \<Longrightarrow> lent T S fs"
  by (induction fs) auto

text \<open>The calls that write a storage, or lead to one that does.\<close>

fun writers :: "'v frame \<Rightarrow> addr set" where
  "writers (F_emplace a _) = {a}"
| "writers (F_set_exn a _) = {a}"
| "writers (F_abandon a) = {a}"
| "writers (F_cnt_abandon a) = {a}"
| "writers (F_clean_action a) = {a}"
| "writers (F_catch a) = {a}"
| "writers _ = {}"

text \<open>
  Calls that neither begin nor end the call of a task's function, and write the
  storages of the states in \<open>W\<close> only.
\<close>

definition plain :: "addr set \<Rightarrow> 'v frame list \<Rightarrow> bool" where
  "plain W fs \<longleftrightarrow> (\<forall>f \<in> set fs. pending f = {} \<and> ends f = {} \<and> writers f \<subseteq> W)"

lemma plain_simps [simp]:
  "plain W []" "plain W (f # fs) \<longleftrightarrow> pending f = {} \<and> ends f = {} \<and> writers f \<subseteq> W \<and> plain W fs"
  "plain W (fs @ gs) \<longleftrightarrow> plain W fs \<and> plain W gs"
  by (auto simp: plain_def)

lemma plain_lent: "plain W fs \<Longrightarrow> lent T S fs" "plain W fs \<Longrightarrow> ends_all fs = {}"
  by (auto simp: plain_def ends_all_def intro: lent_none)

lemma plain_drop [simp]:
  "plain W (drop_handles hs)" "plain W (map F_drop hs)" "plain W (cont_dtor k)" "plain W (drop_storage s)"
  "plain W (drop_conts ks)" "plain W (drop_action p)"
proof -
  show m: "plain W (map F_drop hs)" for hs by (simp add: plain_def)
  show "plain W (drop_handles hs)" unfolding drop_handles_def by (rule m)
  show k: "plain W (cont_dtor k)" for k by (cases k) (auto simp: cont_dtor_def)
  show "plain W (drop_storage s)" by (cases s) auto
  show "plain W (drop_conts ks)" by (cases ks) (auto simp: k)
  show "plain W (drop_action p)" by (auto simp: drop_action_def split: option.splits)
qed

lemma plain_with_obj: "(\<And>w. obj_at c a = Some w \<Longrightarrow> plain W (snd (g w c))) \<Longrightarrow> plain W (snd (with_obj a g c))"
  by (auto simp: with_obj_def crash_with_def split: option.splits)

lemma plain_append_case [simp]:
  "plain W (snd (case r of (c', fs) \<Rightarrow> (c', fs @ gs))) \<longleftrightarrow> plain W (snd r) \<and> plain W gs"
  "plain W (snd (case r of (c', fs) \<Rightarrow> (c', gs @ fs))) \<longleftrightarrow> plain W (snd r) \<and> plain W gs"
  by (cases r; auto)+

lemma plain_calls [simp]:
  "plain W (snd (crash_with x c))" "plain W (snd (lock a fs c)) \<longleftrightarrow> (alive c a \<longrightarrow> plain W fs)"
  "plain W (snd (raise e c))" "plain W (snd (no_state hs c))"
  by (simp_all add: crash_with_def lock_def raise_def no_state_def)

lemma plain_push [simp]: "plain W (snd (push a k c))"
  unfolding push_def by (rule plain_with_obj) (auto split: option.splits)

text \<open>The states whose storages the destructor of a handle or of a posted function may write.\<close>

fun handle_writes :: "handle \<Rightarrow> addr set" where
  "handle_writes (H_promise w) = owner_addrs w"
| "handle_writes _ = {}"

fun task_writes :: "task \<Rightarrow> addr set" where
  "task_writes (T_cnt p) = set_option p"
| "task_writes _ = {}"

lemma plain_dtor [simp]:
  "plain W (snd (promise_dtor w c)) \<longleftrightarrow> (\<forall>a. w = Weak a \<longrightarrow> alive c a \<longrightarrow> a \<in> W)"
  "plain W (snd (task_dtor w c))"
  "plain W (snd (cnt_action_dtor p c)) \<longleftrightarrow> (\<forall>a. p = Some a \<longrightarrow> alive c a \<longrightarrow> a \<in> W)"
  "plain W (snd (task_call w c))" "plain W (snd (call_closure f c))" "plain W (snd (unwrap_cont b c))"
  "plain W (snd (wait_cont n c))" "plain W (snd (obj_dtor v c))"
  by (auto simp: promise_dtor_def promise_abandon_def task_dtor_def cnt_action_dtor_def
      task_call_def call_closure_def unwrap_cont_def wait_cont_def invoke_def obj_dtor_def state_dtor_def
      split: owner.splits option.splits body.splits func_state.splits)

lemma plain_drop_object:
  "handle_writes h \<subseteq> W \<Longrightarrow> plain W (snd (handle_dtor h c))"
  "task_writes k \<subseteq> W \<Longrightarrow> plain W (snd (task_dtor_frames k c))"
  by (auto simp: handle_dtor_def task_dtor_frames_def split: handle.splits task.splits option.splits)

lemma plain_release [simp]: "plain W (snd (release a c))"
  by (auto simp: release_def split: option.splits)

lemma plain_cnt [simp]: "plain W (snd (schedule a c))" "plain W (snd (run_cnt a c))"
  by (auto simp: schedule_def run_cnt_def split: option.splits body.splits)

lemma plain_call_cont [simp]: "plain W (snd (call_cont k c))"
  by (cases k) (auto simp: call_cont_def split: exec.splits)

lemma plain_run_task [simp]: "plain W (snd (run_task k c))"
  by (auto simp: run_task_def split: task.splits option.splits)

text \<open>What a call may write, or leave a call that does.\<close>

fun may_write :: "'v frame \<Rightarrow> addr set" where
  "may_write (F_drop h) = handle_writes h"
| "may_write (F_drop_task k) = task_writes k"
| "may_write (F_unwrap a _ _) = {a}"
| "may_write (F_task_abandon a) = {a}"
| "may_write (F_apply _ a) = {a}"
| "may_write f = writers f"

lemma perform_plain:
  assumes "\<And>k a. f \<noteq> F_apply k a" "\<And>a. f \<noteq> F_task_run a"
  shows "plain (may_write f) (snd (perform f c))"
proof (cases f)
  case (F_unwrap a p t)
  then show ?thesis by (cases p) (auto intro!: plain_with_obj)
next
  case (F_loop ks ks')
  then show ?thesis by (cases ks) auto
next
  case (F_post ex k)
  then show ?thesis by (cases ex) (auto simp: post_def)
qed (use assms in \<open>auto simp: emplace_def set_exception_def abandon_def execute_def cnt_abandon_def clean_action_def
     clean_func_def task_abandon_def subscribe_all_def subscribe_any_def notify_all_def notify_any_def Let_def
     intro!: plain_with_obj plain_drop_object split: option.splits body.splits func_state.splits\<close>)

lemma future_atoms_simps [simp]:
  "A_writer a \<notin> future_atoms p" "A_promise a \<notin> future_atoms p" "A_kind k a \<notin> future_atoms p"
  "A_future a \<in> future_atoms p \<longleftrightarrow> p = Some a" "A_strong a \<in> future_atoms p \<longleftrightarrow> p = Some a"
  by (cases p; auto)+

lemma no_writer_handles [simp]: "A_writer a \<notin> handle_atoms h" "A_writer a \<notin> handles_atoms hs"
proof -
  show h: "A_writer a \<notin> handle_atoms h" for h
  proof -
    have "A_writer a \<notin> strong_atoms w" for w by (cases w) auto
    then show ?thesis by (cases h) auto
  qed
  show "A_writer a \<notin> handles_atoms hs" using h by (auto simp: handles_atoms_def)
qed

lemma writers_atoms: "a \<in> writers f \<longleftrightarrow> A_writer a \<in> frame_atoms f"
proof -
  have "A_writer a \<notin> cont_atoms k" for k by (cases k) (auto simp: closure_atoms_def)
  then have "A_writer a \<notin> conts_atoms ks" for ks by (auto simp: conts_atoms_def)
  moreover have "A_writer a \<notin> task_atoms k" for k
    using no_writer_handles(1) [of a "H_task _"] by (cases k) (auto simp: closure_atoms_def)
  moreover have "A_writer a \<notin> ctx_atoms x" for x by (cases x) auto
  ultimately show ?thesis by (cases f) (auto simp: action_atoms_def closure_atoms_def)
qed

lemma plain_writers: "plain W fs \<Longrightarrow> A_writer a \<in> frames_atoms fs \<Longrightarrow> a \<in> W"
  unfolding plain_def frames_atoms_def using writers_atoms by blast

lemma perform_writers:
  assumes "A_writer a \<in> frames_atoms (snd (perform f c))"
  shows "a \<in> may_write f"
proof (cases "\<exists>k a. f = F_apply k a \<or> f = F_task_run a")
  case True
  have "A_writer a \<in> frames_atoms (snd (apply_action k b c)) \<Longrightarrow> a = b" for k b
    by (cases "a_deco k") (auto simp: apply_action_def apply_then_def apply_next_def apply_void_next_def
      apply_interruptible_def invoke_def crash_with_def writers_atoms [symmetric] split: option.splits access.splits)
  moreover have "A_writer a \<notin> frames_atoms (snd (task_run b c))" for b
    by (auto simp: task_run_def with_obj_def crash_with_def invoke_def writers_atoms [symmetric]
          split: option.splits body.splits func_state.splits)
  ultimately show ?thesis using True assms by auto
next
  case False
  then show ?thesis using plain_writers [OF perform_plain assms] by blast
qed

lemma put_home_ends [simp]: "ends_all (put_home hs fs) = ends_all fs"
  by (induction hs fs rule: put_home.induct) auto

lemma put_home_lent [simp]: "lent T S (put_home hs fs) = lent T S fs"
  by (induction hs fs rule: put_home.induct) auto

lemma leave_lent: "lent T S (leave n hs fs rest) \<longleftrightarrow> lent T (ends_all rest \<union> S) fs \<and> lent T S rest"
  by (auto simp: leave_def plain_lent)

lemma cleanup_lent [simp]: "lent T S (cleanup f)" "ends_all (cleanup f) = ends f"
  by (cases f; auto simp: plain_lent split: option.splits)+

lemma unwind_lent: "lent T {} fs \<Longrightarrow> lent T {} (snd (unwind e fs c))"
  by (cases "(e, fs, c)" rule: unwind.cases) (auto simp: crash_with_def simp del: cleanup.simps)

lemma return_lent:
  assumes "return_step cm x n hs rest = Some st" "lent T {} (F_user x n hs # rest)"
  shows "lent T {} st"
  using assms(1)
proof (cases rule: return_step_cases)
  case (result a t r hs')
  then show ?thesis using assms(2) by (cases r) (auto simp: leave_lent)
qed (use assms(2) in \<open>auto simp: leave_lent\<close>)

lemma finish_get_lent:
  assumes "finish_get i x n hs rest c = Some (c', st)" "lent T {} (F_user x n hs # rest)"
  shows "lent T {} st"
  using assms(1)
proof (cases rule: finish_get_cases)
qed (use assms(2) in \<open>cases x; auto\<close>)+

lemma apply_pending: "f \<in> set (snd (apply_action k a c)) \<Longrightarrow> pending f \<subseteq> {a}" "ends_all (snd (apply_action k a c)) = {}"
  by (cases "a_deco k"; auto simp: apply_action_def apply_then_def apply_next_def apply_void_next_def
      apply_interruptible_def invoke_def crash_with_def split: option.splits access.splits)+

lemma perform_lent:
  assumes "\<And>k a. f = F_apply k a \<Longrightarrow> a \<notin> T"
  shows "lent T S (snd (perform f c))"
proof (cases "\<exists>k a. f = F_apply k a \<or> f = F_task_run a")
  case True
  then consider k a where "f = F_apply k a" | a where "f = F_task_run a" by blast
  then show ?thesis
  proof cases
    case (1 k a)
    have *: "lent T S fs" if "\<And>f. f \<in> set fs \<Longrightarrow> pending f \<subseteq> {a}" for fs :: "'a frame list"
      using that assms [OF 1] by (induction fs) auto
    have "lent T S (snd (apply_action k a c))" by (rule *) (rule apply_pending(1))
    then show ?thesis by (simp add: 1)
  next
    case (2 a)
    then show ?thesis
      by (auto simp: task_run_def with_obj_def crash_with_def invoke_def
          split: option.splits body.splits func_state.splits)
  qed
next
  case False
  then show ?thesis by (intro plain_lent(1) [OF perform_plain]) auto
qed

lemma lib_step_lent:
  assumes "lib_step f rest c = Some (c', st)" "lent T {} (f # rest)" "\<And>k a. f = F_apply k a \<Longrightarrow> a \<notin> T"
  shows "lent T {} st"
  using assms(1)
proof (cases rule: lib_step_cases)
  case (raised e)
  then show ?thesis using assms(2) by (auto intro: unwind_lent)
next
  case (given h x n hs rest')
  then show ?thesis using assms(2) by (cases x) auto
next
  case (got i x n hs rest')
  then show ?thesis using assms(2) by (auto intro: finish_get_lent)
next
  case performed
  then show ?thesis using assms(2,3) by (auto intro: perform_lent)
qed (use assms(2) in auto)

lemma plain_wait [simp]: "plain W (snd (wait a c))"
  by (auto simp: wait_def)

lemma plain_attach [simp]: "plain W (snd (attach d h ex f g c))"
  by (auto simp: attach_def make_then_state_def Let_def split: option.splits)

lemma plain_future [simp]:
  "plain W (snd (future_wait h c))" "plain W (snd (future_get i h c))" "plain W (snd (detach h c))"
  "plain W (snd (notify h f c))" "plain W (snd (notify_on h ex f c))"
  "plain W (snd (snd (future_then h ex f c)))" "plain W (snd (snd (future_then_promise h ex f c)))"
  "plain W (snd (snd (future_next h vd ex f c)))"
  "plain W (snd (make_ready_future v c)) \<longleftrightarrow> fresh c \<in> W"
  "plain W (snd (make_exceptional_future e c)) \<longleftrightarrow> fresh c \<in> W"
  "plain W (snd (when_all_make gs c))" "plain W (snd (when_any_make gs c))"
  "plain W (snd (ask p c))" "plain W (snd (is_ready h c))" "plain W (snd (async ex f c))"
  "fresh c \<in> W \<Longrightarrow> plain W (snd (when_all_range gs v c))"
  by (auto simp: future_eq detach_eq future_then_eq
      make_ready_future_def make_exceptional_future_def when_all_make_def when_all_range_def
      when_any_make_def promise_ctor_def make_promise_def async_def packaged_task_def ask_def future_eq Let_def
      split: option.splits sum.splits)

lemma plain_promise:
  "owner_addrs w \<subseteq> W \<Longrightarrow> plain W (snd (promise_set_value w v c))"
  "owner_addrs w \<subseteq> W \<Longrightarrow> plain W (snd (promise_set_exception w e c))"
  by (auto simp: promise_set_value_def promise_set_exception_def get_state_def
      split: option.splits sum.splits owner.splits if_splits)

lemma var_promise: "var i hs = H_promise w \<Longrightarrow> owner_addrs w \<subseteq> {a. A_promise a \<in> handles_atoms hs}"
  using var_atoms [of i hs] by auto

lemma api_step_plain:
  assumes "api_step cm hs c = Some (c', hs', fs)"
  shows "plain ({a. A_promise a \<in> handles_atoms hs} \<union> (if makes_function cm then {} else {fresh c})) fs"
  using assms
proof (cases cm)
  case (Get_future i w)
  then show ?thesis using assms by (auto simp: raise_def dest!: retrieve_Some split: handle.splits)
next
  case (Assign i j)
  then show ?thesis using assms by (auto simp: assign_def Let_def split: if_splits option.splits)
next
  case (Local lc)
  then show ?thesis using assms by (auto dest!: local_step_frames split: option.splits)
next
  case (Await_suspend i f "is")
  from await_suspend_Some [OF assms [unfolded this]] show ?thesis by (auto elim!: attach_cmd_Some)
qed (auto simp: call_Some with_closure_def elim!: attach_cmd_Some intro!: plain_promise dest: var_promise
  split: option.splits prod.splits handle.splits if_splits)

lemma posted_plain:
  assumes "take_posted j g c = Some (c', fs)" "g = run_task \<or> g = task_dtor_frames"
  shows "plain (if g = run_task then {} else task_writes (snd (posted c ! j))) fs"
  using assms(2)
proof
  assume "g = task_dtor_frames"
  then show ?thesis using assms(1) by (auto elim!: take_posted_Some intro!: plain_drop_object)
qed (use assms(1) in \<open>auto elim!: take_posted_Some\<close>)

lemma user_step_lent:
  assumes "user_step cm x n hs rest c = Some (c', st)" "lent T {} (F_user x n hs # rest)"
  shows "lent T {} st"
  using assms(1)
proof (cases rule: user_step_cases)
  case returned
  then show ?thesis using assms(2) by (auto intro: return_lent)
next
  case (called hs' fs)
  then show ?thesis
    using assms(2) api_step_plain [OF called(1)] by (cases x) (auto intro: plain_lent(1))
next
  case (posted j g fs)
  then show ?thesis using assms(2) posted_plain [OF posted(2,1)] by (auto intro: plain_lent(1))
qed

lemma top_step_lent:
  assumes "top_step l f rest c = Some (c', st)" "lent T {} (f # rest)" "\<And>k a. f = F_apply k a \<Longrightarrow> a \<notin> T"
  shows "lent T {} st"
  using assms(1) by (cases rule: top_step_cases) (use assms(2,3) in \<open>auto intro: user_step_lent lib_step_lent\<close>)


section \<open>Who holds a token\<close>

lemma conts_tok_pos: "0 < conts_tok r ks \<Longrightarrow> A_kind K_cnt (state_of_right r) \<in> conts_atoms ks"
proof (induction ks)
  case (Cons k ks)
  have "0 < cont_tok r k \<Longrightarrow> A_kind K_cnt (state_of_right r) \<in> cont_atoms k"
    by (cases k; cases r) auto
  then show ?case using Cons by fastforce
qed simp

lemma task_tok_pos: "0 < task_tok r k \<Longrightarrow> A_kind K_cnt (state_of_right r) \<in> task_atoms k"
  by (cases "(r, k)" rule: task_tok.cases; cases r) auto

lemma frame_tok_pos:
  assumes "0 < frame_tok r f"
  shows "A_kind K_cnt (state_of_right r) \<in> frame_atoms f \<or> (\<exists>a. r = Subs a \<and> A_strong a \<in> frame_atoms f) \<or> (\<exists>a. r = Store a \<and> a \<in> pending f) \<or>
    (\<exists>a. r = Clean a \<and> a \<in> ends f)"
  using assms conts_tok_pos task_tok_pos
  by (cases "(r, f)" rule: frame_tok.cases; cases r) (auto split: if_splits)

lemma pending_atoms: "a \<in> pending f \<Longrightarrow> A_kind K_state a \<in> frame_atoms f"
  by (cases f rule: pending.cases) auto

lemma ends_atoms: "a \<in> ends f \<Longrightarrow> A_kind K_task a \<in> frame_atoms f"
  by (cases f rule: ends.cases) auto

lemma sum_list_pos: "0 < sum_list (map g xs) \<Longrightarrow> \<exists>x \<in> set xs. 0 < (g x :: nat)"
  by (induction xs) auto

lemma sum_pos_ex: "0 < sum g A \<Longrightarrow> \<exists>x \<in> A. 0 < (g x :: nat)"
  by (rule ccontr) simp

lemma token_holder:
  assumes "0 < tokens c r"
  obtains (kind) "A_kind K_cnt (state_of_right r) \<in> atoms c"
    | (subs) a where "r = Subs a" "A_strong a \<in> atoms c"
    | (ready) w f where "obj_at c (state_of_right r) = Some w" "body w = B_task (Fn_ready f)"
    | (frame) fs f where "fs \<in> set (stacks c)" "f \<in> set fs"
        "(\<exists>a. r = Store a \<and> a \<in> pending f) \<or> (\<exists>a. r = Clean a \<and> a \<in> ends f)"
proof -
  consider "0 < heap_tok c r" | "0 < posted_tok c r" | "0 < stacks_tok c r"
    using assms by (auto simp: tokens_def shared_tok_def)
  then show ?thesis
  proof cases
    case 1
    then obtain b where "0 < (case obj_at c b of None \<Rightarrow> 0 | Some w \<Rightarrow> obj_tok r b w)"
      unfolding heap_tok_def by (blast dest: sum_pos_ex)
    then obtain w where b: "obj_at c b = Some w" "0 < obj_tok r b w" by (auto split: option.splits)
    then consider ks where "conts w = Some ks" "0 < conts_tok r ks" | "b = state_of_right r" "0 < body_tok (body w)"
      by (auto simp: obj_tok_def split: option.splits if_splits)
    then show ?thesis
    proof cases
      case (1 ks)
      then have "A_kind K_cnt (state_of_right r) \<in> obj_atoms w" using conts_tok_pos by (auto simp: obj_atoms_def)
      then show ?thesis using kind obj_atoms_in [OF b(1)] by blast
    next
      case 2
      then show ?thesis using ready b(1) by (cases "body w" rule: body_tok.cases) auto
    qed
  next
    case 2
    then obtain p where "p \<in> set (posted c)" "0 < task_tok r (snd p)"
      unfolding posted_tok_def using sum_list_pos by blast
    then show ?thesis using kind task_tok_pos posted_atoms [of "fst p" "snd p" c] by (metis prod.collapse)
  next
    case 3
    then obtain fs where fs: "fs \<in> set (stacks c)" "0 < frames_tok r fs"
      unfolding stacks_tok_def using sum_list_pos by blast
    then obtain f where f: "f \<in> set fs" "0 < frame_tok r f" unfolding frames_tok_def using sum_list_pos by blast
    have "frame_atoms f \<subseteq> atoms c" using frames_atoms_other [OF fs(1)] f(1) by (auto simp: frames_atoms_def)
    then show ?thesis using frame_tok_pos [OF f(2)] kind subs frame [OF fs(1) f(1)] by blast
  qed
qed

lemma token_exists:
  assumes "mem_inv c" "0 < tokens c r"
  shows "state_of_right r < length (heap c)"
  using assms(2)
proof (cases rule: token_holder)
  case kind
  then show ?thesis using assms(1) mem_ok_atoms by (fastforce simp: mem_inv_def atom_ok.simps)
next
  case (subs a)
  then have "atom_ok (\<lambda>_. True) c (A_strong a)" using assms(1) mem_ok_atoms by (auto simp: mem_inv_def)
  then show ?thesis using subs(1) by (auto simp: atom_ok.simps alive_def intro: obj_at_less)
next
  case (ready w f)
  then show ?thesis by (simp add: obj_at_less)
next
  case (frame fs f)
  then have "\<exists>k. A_kind k (state_of_right r) \<in> frame_atoms f" using pending_atoms ends_atoms by fastforce
  then obtain k where "A_kind k (state_of_right r) \<in> atoms c"
    using frames_atoms_other [OF frame(1)] frame(2) by (auto simp: frames_atoms_def)
  then show ?thesis using assms(1) mem_ok_atoms by (fastforce simp: mem_inv_def atom_ok.simps)
qed

end
