(* ===== verification/Single_Writer.thy ===== *)
theory Single_Writer
  imports Tokens
begin

text \<open>
  The invariant of the machine's results: at most one function's result is on its way to
  a state, nobody else writes the state's storage then, and the storage is empty. It
  gives the main theorem on results: what is stored in a state stays there.
\<close>

section \<open>Promises, pending writes and futures name states\<close>

definition paired :: "atom set \<Rightarrow> bool" where
  "paired G \<longleftrightarrow> (\<forall>a. (A_promise a \<in> G \<or> A_writer a \<in> G \<longrightarrow> (\<exists>k. A_kind k a \<in> G)) \<and> (A_future a \<in> G \<longrightarrow> A_strong a \<in> G))"

lemma paired_empty [simp]: "paired {}" "paired {A_strong a}" "paired {A_kind k a}"
  by (simp_all add: paired_def)

lemma paired_union: "paired G \<Longrightarrow> paired H \<Longrightarrow> paired (G \<union> H)" "paired G \<Longrightarrow> paired (insert (A_strong a) G)"
  "paired G \<Longrightarrow> paired (insert (A_kind k a) G)" "(\<And>x. x \<in> X \<Longrightarrow> paired (g x)) \<Longrightarrow> paired (\<Union>x \<in> X. g x)"
  by (auto simp: paired_def, blast+)

lemma paired_image [simp]: "paired (A_strong ` X)" "paired (A_kind k ` X)" "paired (future_atoms p)"
  by (auto simp: paired_def)

lemma paired_handle [simp]: "paired (handle_atoms h)"
proof (cases h)
  case (H_promise w)
  then show ?thesis by (cases w) (auto simp: paired_def)
next
  case (H_task w)
  then show ?thesis by (cases w) (auto simp: paired_def)
qed auto

lemma paired_handles [simp]: "paired (handles_atoms hs)"
  unfolding handles_atoms_def by (rule paired_union(4)) simp

lemma paired_closure [simp]: "paired (closure_atoms f)" "paired (action_atoms k)"
  by (auto simp: closure_atoms_def action_atoms_def simp del: future_atoms.simps intro: paired_union)

lemma paired_cont [simp]: "paired (cont_atoms k)" "paired (conts_atoms ks)"
proof -
  show k: "paired (cont_atoms k)" for k by (cases k) (auto intro: paired_union)
  show "paired (conts_atoms ks)" unfolding conts_atoms_def by (rule paired_union(4)) (rule k)
qed

lemma paired_task [simp]: "paired (task_atoms k)"
  using paired_handle [of "H_task _"] by (cases k) auto

lemma paired_obj [simp]: "paired (obj_atoms w)"
proof -
  have "paired (storage_atoms s)" "paired (func_atoms g)" for s :: "'a storage" and g
    by (cases s, auto simp del: future_atoms.simps, cases g, auto)
  moreover from this(2) have "paired (body_atoms b)" for b by (cases b) (auto split: option.splits)
  ultimately show ?thesis by (auto simp: obj_atoms_def intro!: paired_union split: option.splits)
qed

lemma paired_frame [simp]: "paired (frame_atoms f)"
proof -
  have c: "paired (ctx_atoms x)" for x by (cases x) auto
  have w: "paired {A_writer a, A_kind k a}" for a k by (auto simp: paired_def)
  show ?thesis using paired_handle [of "H_task _"] by (cases f) (auto simp del: future_atoms.simps intro!: paired_union(1-3) intro: c w)
qed

lemma paired_frames [simp]: "paired (frames_atoms fs)"
  unfolding frames_atoms_def by (rule paired_union(4)) simp

lemma paired_atoms: "paired (atoms c)"
  unfolding atoms_def heap_atoms_def by (auto intro!: paired_union(1,4) split: option.splits)

definition writer :: "'v cfg \<Rightarrow> addr \<Rightarrow> bool" where
  "writer c a \<longleftrightarrow> A_promise a \<in> atoms c \<or> A_writer a \<in> atoms c"

lemma writer_exists: "mem_inv c \<Longrightarrow> writer c a \<Longrightarrow> a < length (heap c)"
  using paired_atoms [of c] mem_ok_atoms [of "\<lambda>_. True" c "{}"]
  by (fastforce simp: paired_def writer_def mem_inv_def atom_ok.simps)

section \<open>Where new writers come from\<close>

lemma apply_no_token:
  assumes "A_writer a \<in> frames_atoms (snd (apply_action k a c))"
  shows "frames_tok (Store a) (snd (apply_action k a c)) = 0"
  using assms
  by (cases "a_deco k") (auto simp: apply_action_def apply_then_def apply_next_def apply_void_next_def
      apply_interruptible_def invoke_def crash_with_def writers_atoms [symmetric] split: option.splits access.splits)

lemma apply_promise_no_token: "gives_promise k \<Longrightarrow> frames_tok r (snd (apply_action k a c)) = 0"
  by (cases "a_deco k") (auto simp: gives_promise_def apply_action_def apply_interruptible_def invoke_def)

lemma apply_shared_tok [simp]: "shared_tok (fst (apply_action k a c)) r = shared_tok c r"
  by (cases "a_deco k") (auto simp: apply_action_def apply_then_def apply_next_def apply_void_next_def
      apply_interruptible_def crash_with_def split: option.splits access.splits)

text \<open>The token that a step of a thread uses up.\<close>

definition uses_up :: "'v frame \<Rightarrow> 'v frame list \<Rightarrow> 'v cfg \<Rightarrow> 'v cfg \<Rightarrow> 'v frame list \<Rightarrow> right \<Rightarrow> bool" where
  "uses_up f rest c c' st r \<longleftrightarrow>
     shared_tok c' r + frames_tok r st < shared_tok c r + frame_tok r f + frames_tok r rest"

definition empty_task :: "'v cfg \<Rightarrow> addr \<Rightarrow> bool" where
  "empty_task c a \<longleftrightarrow> (\<exists>w. obj_at c a = Some w \<and> body w = B_task Fn_empty)"

lemma task_abandon_uses:
  assumes "A_writer a \<in> frames_atoms (snd (task_abandon a c))" "\<not> empty_task c a"
  shows "shared_tok (fst (task_abandon a c)) (Store a) + frames_tok (Store a) (snd (task_abandon a c)) < shared_tok c (Store a)"
proof (cases "obj_at c a")
  case (Some w)
  then obtain f where f: "body w = B_task (Fn_ready f)"
    using assms by (auto simp: task_abandon_def with_obj_def crash_with_def empty_task_def split: body.splits func_state.splits)
  have "shared_tok (set_obj a (w\<lparr>body := B_task Fn_empty\<rparr>) c) (Store a) + 1 \<le> shared_tok c (Store a)"
    by (rule upd_tok [OF Some]) (simp add: obj_tok_def f)
  then show ?thesis by (simp add: task_abandon_def with_obj_def Some f)
qed (use assms in \<open>auto simp: task_abandon_def with_obj_def crash_with_def\<close>)

lemma perform_new_writer:
  assumes w: "A_writer a \<in> frames_atoms (snd (perform f c))"
    and n: "A_writer a \<notin> frame_atoms f" "A_promise a \<notin> frame_atoms f" and e: "f = F_task_abandon a \<Longrightarrow> \<not> empty_task c a"
  shows "shared_tok (fst (perform f c)) (Store a) + frames_tok (Store a) (snd (perform f c)) <
    shared_tok c (Store a) + frame_tok (Store a) f"
  using perform_writers [OF w]
proof (cases f rule: may_write.cases)
  case (1 h)
  then show ?thesis using perform_writers [OF w] n(2) by (cases h) auto
next
  case (2 k)
  then have "k = T_cnt (Some a)" using perform_writers [OF w] by (cases k) auto
  then show ?thesis using dtor_tok(5) [of k c "Store a"] by (simp add: 2 tok_le_def)
next
  case (3 b p t)
  have "tok_le (perform (F_unwrap b p t) c) (Store a) (shared_tok c (Store a))" using unwrap_tok by auto
  then show ?thesis using perform_writers [OF w] by (simp add: 3 tok_le_def del: perform.simps)
next
  case (4 b)
  then show ?thesis using perform_writers [OF w] task_abandon_uses [of a c] e w by auto
next
  case (5 k b)
  then show ?thesis using perform_writers [OF w] apply_no_token [of a k c] w by auto
qed (use n(1) perform_writers [OF w] in \<open>auto simp: writers_atoms [symmetric]\<close>)


lemma leave_writer: "A_writer a \<in> frames_atoms (leave n hs fs rest) \<Longrightarrow>
    A_writer a \<in> frames_atoms fs \<or> A_writer a \<in> frames_atoms rest"
  using put_home_atoms(1) [of "take n hs" rest] by (auto simp: leave_def)

lemma return_new_writer:
  fixes rest :: "'v frame list"
  assumes r: "return_step cm x n hs rest = Some st" and w: "A_writer a \<in> frames_atoms st"
    and n: "A_writer a \<notin> frames_atoms rest"
  shows "frames_tok (Store a) st < frame_tok (Store a) (F_user x n hs :: 'v frame) + frames_tok (Store a) rest"
  using r
proof (cases rule: return_step_cases)
  case (result b t p hs')
  then have "A_writer a \<in> frames_atoms (set_state_value b t p)" using leave_writer w n by blast
  then show ?thesis using result by (cases p) auto
qed (use w n leave_writer in \<open>auto simp: leave_writer dest!: leave_writer\<close>)

lemma finish_get_writer:
  assumes "finish_get i x n hs rest c = Some (c', st)" "A_writer a \<in> frames_atoms st"
  shows "A_writer a \<in> frames_atoms rest"
proof -
  have x: "A_writer a \<notin> ctx_atoms x" by (cases x) auto
  from assms(1) show ?thesis
    by (cases rule: finish_get_cases) (use assms(2) x in auto)
qed

lemma lib_new_writer:
  assumes r: "lib_step f rest c = Some (c', st)" and w: "A_writer a \<in> frames_atoms st"
    and n: "A_writer a \<notin> frames_atoms (f # rest)" "A_promise a \<notin> frame_atoms f"
  shows "uses_up f rest c c' st (Store a) \<or> f = F_task_abandon a \<and> empty_task c a"
  using r
proof (cases rule: lib_step_cases)
  case (raised e)
  then show ?thesis using unwind_atoms [of e rest c] w n by auto
next
  case (got i x n hs rest')
  then show ?thesis using finish_get_writer [OF got(3) w] n by auto
next
  case performed
  then have p: "A_writer a \<in> frames_atoms (snd (perform f c))" using w n by auto
  show ?thesis
  proof (cases "f = F_task_abandon a \<and> empty_task c a")
    case False
    then have "uses_up f rest c c' st (Store a)"
      using perform_new_writer [OF p _ n(2)] n(1) by (auto simp: uses_up_def performed)
    then show ?thesis ..
  qed simp
qed (use w n in auto)

lemma user_new_writer:
  assumes r: "user_step cm x n hs rest c = Some (c', st)" and w: "A_writer a \<in> frames_atoms st"
    and n: "A_writer a \<notin> frames_atoms rest" "A_promise a \<notin> handles_atoms hs"
  shows "uses_up (F_user x n hs) rest c c' st (Store a) \<or> a = fresh c \<and> \<not> makes_function cm"
proof -
  have x: "A_writer a \<notin> ctx_atoms x" by (cases x) auto
  from r show ?thesis
  proof (cases rule: user_step_cases)
    case returned
    then show ?thesis using return_new_writer [OF returned(1) w n(1)] by (simp add: uses_up_def)
  next
    case (called hs' fs)
    then have "A_writer a \<in> frames_atoms fs" using w n x by auto
    from plain_writers [OF api_step_plain [OF called(1)] this] show ?thesis using n(2) by (auto split: if_splits)
  next
    case (posted j g fs)
    let ?c = "c\<lparr>posted := take j (posted c) @ drop (j + 1) (posted c)\<rparr>"
    let ?k = "snd (posted c ! j)"
    from posted(2) have j: "j < length (posted c)" "c' = fst (g ?k ?c)" "fs = snd (g ?k ?c) @ [F_noexcept]"
      by (auto elim!: take_posted_Some)
    have "A_writer a \<in> frames_atoms fs" using w n x by (auto simp: posted(3))
    then have a: "a \<in> (if g = run_task then {} else task_writes ?k)"
      using plain_writers [OF posted_plain [OF posted(2,1)]] by blast
    then have k: "g = task_dtor_frames" "?k = T_cnt (Some a)"
      using posted(1) by (auto split: if_splits, cases ?k) auto
    have "tok_le (task_dtor_frames ?k ?c) (Store a) (shared_tok ?c (Store a))" by simp
    then show ?thesis
      using posted_take [OF j(1), of "Store a"] by (simp add: uses_up_def posted(3) j(2,3) k tok_le_def)
  qed
qed

lemma top_new_writer:
  assumes r: "top_step l f rest c = Some (c', st)" and w: "A_writer a \<in> frames_atoms st"
    and n: "A_writer a \<notin> frames_atoms (f # rest)" "A_promise a \<notin> frame_atoms f"
  shows "uses_up f rest c c' st (Store a) \<or> a = fresh c \<and> \<not> creates l \<or> f = F_task_abandon a \<and> empty_task c a"
  using r
proof (cases rule: top_step_cases)
  case (user x m hs cm)
  then show ?thesis using user_new_writer [OF user(3) w] n by (auto simp: creates_def)
next
  case lib
  then show ?thesis using lib_new_writer [OF lib w n] by blast
qed

text \<open>A call of an interruptible continuation makes the promise of its state.\<close>

lemma top_new_promise:
  assumes r: "top_step l f rest c = Some (c', st)" and f: "f = F_apply k a" "gives_promise k"
  shows "uses_up f rest c c' st (Store a)"
proof -
  have "lib_step f rest c = Some (c', st)"
    using r by (cases rule: top_step_cases) (use f in auto)
  then show ?thesis
  proof (cases rule: lib_step_cases)
    case performed
    then show ?thesis using f by (simp add: uses_up_def apply_promise_no_token)
  qed (use f in auto)
qed


section \<open>The invariant\<close>

text \<open>The addresses that are not states of other kinds.\<close>

definition maybe_task :: "'v cfg \<Rightarrow> addr set" where
  "maybe_task c = {a. a < length (heap c) \<longrightarrow> (\<exists>w g. obj_at c a = Some w \<and> body w = B_task g)}"

definition running :: "'v cfg \<Rightarrow> addr \<Rightarrow> bool" where
  "running c a \<longleftrightarrow> (\<exists>w. obj_at c a = Some w \<and> body w = B_task Fn_running)"

definition result_inv :: "'v cfg \<Rightarrow> bool" where
  "result_inv c \<longleftrightarrow> mem_inv c \<and> (\<forall>r. tokens c r \<le> 1) \<and>
     (\<forall>fs \<in> set (stacks c). lent (maybe_task c) {} fs \<and> (\<forall>a \<in> ends_all fs. running c a)) \<and>
     (\<forall>a. writer c a \<longrightarrow> tokens c (Store a) = 0) \<and>
     (\<forall>a w. obj_at c a = Some w \<longrightarrow> 0 < tokens c (Store a) \<longrightarrow> store w = S_empty)"

lemma kind_not_task:
  assumes "mem_inv c" "A_kind K_cnt a \<in> atoms c"
  shows "a \<notin> maybe_task c"
proof -
  have "atom_ok (\<lambda>_. True) c (A_kind K_cnt a)" using assms mem_ok_atoms by (auto simp: mem_inv_def)
  then show ?thesis by (auto simp: maybe_task_def atom_ok.simps)
qed

text \<open>Nobody is about to store a result in a task whose function is gone.\<close>

lemma empty_task_no_token:
  assumes i: "result_inv c" and e: "empty_task c a"
  shows "tokens c (Store a) = 0"
proof (rule ccontr)
  assume "tokens c (Store a) \<noteq> 0"
  then have "0 < tokens c (Store a)" by simp
  then show False
  proof (cases rule: token_holder)
    case kind
    then show False
      using kind_not_task [of c a] i e by (auto simp: result_inv_def maybe_task_def empty_task_def)
  next
    case (ready w f)
    then show False using e by (auto simp: empty_task_def)
  next
    case (frame fs f)
    have "a \<in> maybe_task c" using e by (auto simp: maybe_task_def empty_task_def)
    moreover have "pending f \<inter> T \<subseteq> ends_all fs" if "lent T {} fs" for T
      using that frame(2) by (induction fs) auto
    ultimately have "a \<in> ends_all fs" using i frame by (auto simp: result_inv_def)
    then have "running c a" using i frame(1) unfolding result_inv_def by blast
    then show False using e by (auto simp: running_def empty_task_def)
  qed simp
qed

lemma ends_token:
  assumes "fs \<in> set (stacks c)" "a \<in> ends_all fs"
  shows "0 < tokens c (Clean a)"
proof -
  obtain f where f: "f \<in> set fs" "a \<in> ends f" using assms(2) by (auto simp: ends_all_def)
  have "frame_tok (Clean a) f = 1" using f(2) by (cases f rule: ends.cases) auto
  then have "0 < frames_tok (Clean a) fs"
    using f(1) member_le_sum_list [of 1 "map (frame_tok (Clean a)) fs"] by (force simp: frames_tok_def)
  then have "0 < stacks_tok c (Clean a)"
    using assms(1) member_le_sum_list [of "frames_tok (Clean a) fs" "map (frames_tok (Clean a)) (stacks c)"]
    by (auto simp: stacks_tok_def)
  then show ?thesis by (simp add: tokens_def)
qed

lemma covers_raw: "covers {} fs \<Longrightarrow> g \<in> set fs \<Longrightarrow> a \<in> raw g \<Longrightarrow> A_strong a \<in> frames_atoms fs"
  by (induction fs) auto

text \<open>The end of a task's call uses its token up.\<close>

lemma clean_uses_up:
  assumes "top_step l f rest c = Some (c', st)" "f = F_clean_func a hs"
  shows "uses_up f rest c c' st (Clean a)"
proof -
  have "lib_step f rest c = Some (c', st)"
    using assms by (cases rule: top_step_cases) auto
  then show ?thesis
  proof (cases rule: lib_step_cases)
    case performed
    then show ?thesis
      using simple_tok(7) [of a hs c "Clean a"] assms(2) by (simp add: uses_up_def tok_le_def)
  qed (use assms in auto)
qed

lemma unwrap_uses_up:
  assumes "top_step l f rest c = Some (c', st)" "f = F_unwrap a p t"
  shows "uses_up f rest c c' st (Store a)"
proof -
  have "lib_step f rest c = Some (c', st)"
    using assms by (cases rule: top_step_cases) auto
  then show ?thesis
  proof (cases rule: lib_step_cases)
    case performed
    have "tok_le (perform f c) (Store a) (shared_tok c (Store a))"
      using unwrap_tok [of a p c "Store a"] by (auto simp: assms(2))
    then show ?thesis
      using performed by (simp add: uses_up_def tok_le_def assms(2) del: perform.simps)
  qed (use assms in auto)
qed

lemma step_uses_up:
  assumes "t < length (stacks c)" "stacks c ! t = f # rest" "c' = set_stack t st c1" "stacks c' = (stacks c)[t := st]"
    and "uses_up f rest (set_stack t rest c) c1 st r"
  shows "tokens c' r < tokens c r"
proof -
  have "stacks_tok c' r + frame_tok r f + frames_tok r rest = stacks_tok c r + frames_tok r st"
    using stacks_tok_set [OF assms(1), of st r] assms(2,4) by (simp add: stacks_tok_def set_stack_def)
  moreover have "shared_tok c' r = shared_tok c1 r" by (simp add: assms(3))
  moreover have "shared_tok c1 r + frames_tok r st < shared_tok c r + frame_tok r f + frames_tok r rest"
    using assms(5) by (simp add: uses_up_def)
  ultimately show ?thesis unfolding tokens_def by linarith
qed


section \<open>Every step keeps the invariant\<close>

lemma rights_iff:
  "Clean a \<in> rights f \<longleftrightarrow> (\<exists>hs. f = F_clean_func a hs)"
  "Store a \<in> rights f \<longleftrightarrow> (\<exists>v. f = F_emplace a v) \<or> (\<exists>e. f = F_set_exn a e) \<or> (\<exists>p t. f = F_unwrap a p t)"
proof -
  have k: "Clean a \<notin> cont_rights k" "Store a \<notin> cont_rights k" for k by (cases k; simp)+
  show "Clean a \<in> rights f \<longleftrightarrow> (\<exists>hs. f = F_clean_func a hs)"
    "Store a \<in> rights f \<longleftrightarrow> (\<exists>v. f = F_emplace a v) \<or> (\<exists>e. f = F_set_exn a e) \<or> (\<exists>p t. f = F_unwrap a p t)"
    by (cases f rule: rights.cases; auto simp: k)+
qed

text \<open>The parts of the proof, for one step: a thread \<open>t\<close> performs \<open>f\<close>.\<close>

lemma step_maybe_task:
  assumes "machine_step t l c = Some c'"
  shows "maybe_task c' \<subseteq> maybe_task c"
proof
  fix a assume a: "a \<in> maybe_task c'"
  have ev: "evolves (rights (current c t)) c c'" using moves_step [OF assms] by (simp add: moves_def)
  show "a \<in> maybe_task c"
  proof (cases "a < length (heap c)")
    case True
    then have "a < length (heap c')" using ev by (auto simp: evolves_def)
    then obtain w' g where w': "obj_at c' a = Some w'" "body w' = B_task g" using a by (auto simp: maybe_task_def)
    then obtain w where w: "obj_at c a = Some w" "body_ages (body w) (B_task g)"
      using ev True unfolding evolves_def obj_ages_def by metis
    then show ?thesis by (cases "body w") (auto simp: maybe_task_def)
  qed (simp add: maybe_task_def)
qed

lemma step_lent:
  assumes i: "result_inv c" and r: "machine_step t l c = Some c'" and fs: "fs \<in> set (stacks c')"
  shows "lent (maybe_task c') {} fs"
  using r
proof (cases rule: machine_stepE)
  case (1 f rest c1 st)
  have top: "lent (maybe_task c) {} (f # rest)" using i 1(1,2) unfolding result_inv_def by (metis nth_mem)
  have "frame_atoms f \<subseteq> atoms c" using frames_atoms_other [of "f # rest" c] 1(1,2) by (metis Un_subset_iff list_atoms_simps(2) nth_mem)
  then have "a \<notin> maybe_task c" if "f = F_apply k a" for k a
    using that kind_not_task [of c a] i by (auto simp: result_inv_def)
  from top_step_lent [OF 1(3) top this] have "lent (maybe_task c) {} st" .
  moreover have "fs \<in> insert st (set (stacks c))" using fs set_update_subset_insert by (force simp: 1(5))
  ultimately have "lent (maybe_task c) {} fs" using i by (auto simp: result_inv_def)
  then show ?thesis using lent_mono step_maybe_task [OF r] by blast
qed

lemma step_tokens_le:
  assumes i: "result_inv c" and r: "machine_step t l c = Some c'"
  shows "tokens c' r \<le> 1"
proof (cases "fresh c = state_of_right r")
  case True
  then have "tokens c r = 0" using token_exists [of c r] i by (auto simp: result_inv_def fresh_def)
  then show ?thesis using step_tokens [OF r, of r] gains_simps(4) [of "creates l" r "fresh c"] by linarith
next
  case False
  then show ?thesis using step_tokens [OF r, of r] i by (auto simp: result_inv_def intro: order_trans)
qed

text \<open>A token of a state that exists was there before.\<close>

lemma step_old_token:
  assumes i: "result_inv c" and r: "machine_step t l c = Some c'"
    and p: "0 < tokens c' q" "state_of_right q < length (heap c)"
  shows "0 < tokens c q"
  using step_tokens [OF r, of q] p by (auto simp: fresh_def split: if_splits)

lemma top_ends:
  assumes r: "top_step l f rest c = Some (c', st)" and a: "a \<in> ends_all st"
  shows "a \<in> ends_all (f # rest) \<or> f = F_task_run a \<and> running c' a"
proof -
  have perf: "a \<in> ends_all (snd (perform f c)) \<Longrightarrow> f = F_task_run a \<and> running (fst (perform f c)) a"
  proof (cases "\<exists>k b. f = F_apply k b \<or> f = F_task_run b")
    case True
    assume "a \<in> ends_all (snd (perform f c))"
    then show ?thesis using True
      by (auto simp: apply_pending(2) task_run_def with_obj_def crash_with_def invoke_def running_def obj_at_set_obj
          dest: obj_at_less split: option.splits body.splits func_state.splits)
  next
    case False
    assume "a \<in> ends_all (snd (perform f c))"
    then show ?thesis using plain_lent(2) [OF perform_plain] False by blast
  qed
  from r show ?thesis
  proof (cases rule: top_step_cases)
    case (user x m hs cm)
    from user(3) show ?thesis
    proof (cases rule: user_step_cases)
      case returned
      from returned(1) show ?thesis
      proof (cases rule: return_step_cases)
        case (result b t p hs')
        then show ?thesis using a by (cases p) (auto simp: leave_def plain_lent)
      qed (use a in \<open>auto simp: leave_def plain_lent\<close>)
    next
      case (called hs' fs)
      then show ?thesis using a plain_lent(2) [OF api_step_plain [OF called(1)]] by auto
    next
      case (posted j g fs)
      then show ?thesis using a plain_lent(2) [OF posted_plain [OF posted(2,1)]] by auto
    qed
  next
    case lib
    then show ?thesis
    proof (cases rule: lib_step_cases)
      case (raised e)
      have "ends_all (snd (unwind e rest c)) \<subseteq> ends_all rest"
        by (cases "(e, rest, c)" rule: unwind.cases) (auto simp: crash_with_def simp del: cleanup.simps)
      then show ?thesis using a raised by auto
    next
      case (got i x n hs rest')
      from got(3) show ?thesis by (cases rule: finish_get_cases) (use a got in auto)
    next
      case performed
      then show ?thesis using a perf by auto
    qed (use a in auto)
  qed
qed

lemma step_running:
  assumes i: "result_inv c" and r: "machine_step t l c = Some c'" and fs: "fs \<in> set (stacks c')" "a \<in> ends_all fs"
  shows "running c' a"
  using r
proof (cases rule: machine_stepE)
  case (1 f rest c1 st)
  have i': "mem_inv c'" using machine_step_mem r i by (auto simp: result_inv_def)
  obtain g where g: "g \<in> set fs" "a \<in> ends g" using fs(2) by (auto simp: ends_all_def)
  have "A_strong a \<in> frames_atoms fs"
  proof -
    have "a \<in> raw g" using g(2) by (cases g rule: ends.cases) auto
    then show ?thesis using i' fs(1) g(1) covers_raw unfolding mem_inv_def by blast
  qed
  then have "alive c' a"
    using frames_atoms_other [OF fs(1)] i' mem_ok_atoms by (fastforce simp: mem_inv_def atom_ok.simps)
  then obtain w' where w': "obj_at c' a = Some w'" by (auto simp: alive_def)
  have "a \<in> ends_all fs' \<and> fs' \<in> set (stacks c)" if "a \<in> ends_all (f # rest)" "fs' = f # rest" for fs'
    using that 1(1,2) by (metis nth_mem)
  moreover have "fs \<in> insert st (set (stacks c))" using fs(1) set_update_subset_insert by (force simp: 1(5))
  ultimately consider fs' where "a \<in> ends_all fs'" "fs' \<in> set (stacks c)" | "f = F_task_run a" "running c1 a"
    using top_ends [OF 1(3)] fs(2) by blast
  then show ?thesis
  proof cases
    case (1 fs')
    then have "running c a" using i by (auto simp: result_inv_def)
    then obtain w where w: "obj_at c a = Some w" "body w = B_task Fn_running" by (auto simp: running_def)
    have "obj_ages (rights (current c t)) a w w'"
      using moves_step [OF r] w(1) w' obj_at_less [OF w(1)] unfolding moves_def evolves_def by force
    then have "body w' = B_task Fn_running \<or> Clean a \<in> rights (current c t)" using w(2) by (simp add: obj_ages_def)
    moreover have False if clean: "Clean a \<in> rights (current c t)"
    proof -
      obtain hs where "f = F_clean_func a hs" using clean \<open>current c t = f\<close> by (auto simp: rights_iff)
      then have "tokens c' (Clean a) < tokens c (Clean a)"
        using step_uses_up [OF \<open>t < length (stacks c)\<close> \<open>stacks c ! t = f # rest\<close> \<open>c' = set_stack t st c1\<close>
            \<open>stacks c' = (stacks c)[t := st]\<close>] clean_uses_up \<open>top_step l f rest (set_stack t rest c) = Some (c1, st)\<close> by blast
      moreover have "tokens c (Clean a) \<le> 1" using i by (simp add: result_inv_def)
      ultimately show False using ends_token [OF fs] by simp
    qed
    ultimately show ?thesis using w' by (auto simp: running_def)
  next
    case 2
    then show ?thesis using \<open>obj_at c' = obj_at c1\<close> by (simp add: running_def)
  qed
qed


lemma top_frame_atoms:
  assumes "t < length (stacks c)" "stacks c ! t = f # rest"
  shows "frames_atoms (f # rest) \<subseteq> atoms c"
  using assms frames_atoms_other [of "f # rest" c] by (metis nth_mem)

lemma step_new_writer:
  assumes i: "result_inv c" and r: "machine_step t l c = Some c'" and w: "writer c' a" "\<not> writer c a"
  shows "tokens c' (Store a) = 0"
proof (rule ccontr)
  assume n: "tokens c' (Store a) \<noteq> 0"
  have mi: "mem_inv c" using i by (simp add: result_inv_def)
  from r show False
  proof (cases rule: machine_stepE)
    case (1 f rest c1 st)
    let ?c = "set_stack t rest c"
    note at = top_frame_atoms [OF 1(1,2)]
    have used: False if "uses_up f rest ?c c1 st (Store a)"
    proof -
      have "tokens c' (Store a) < tokens c (Store a)" by (rule step_uses_up [OF 1(1,2,4,5) that])
      moreover have "tokens c (Store a) \<le> 1" using i by (simp add: result_inv_def)
      ultimately show False using n by simp
    qed
    have fresh: "creates l" if "a = fresh c"
    proof (rule ccontr)
      assume "\<not> creates l"
      then have "0 < tokens c (Store a)" using step_tokens [OF r, of "Store a"] n by simp
      then show False using token_exists [OF mi, of "Store a"] that by (simp add: fresh_def)
    qed
    have "A_writer a \<notin> frames_atoms st"
    proof
      assume wst: "A_writer a \<in> frames_atoms st"
      have "A_writer a \<notin> frames_atoms (f # rest)" "A_promise a \<notin> frame_atoms f"
        using at w(2) by (auto simp: writer_def)
      from top_new_writer [OF 1(3) wst this] used fresh
      have "f = F_task_abandon a" "empty_task c a"
        by (auto simp: fresh_set_stack empty_task_def)
      then have "tokens c (Store a) = 0" "a < length (heap c)"
        using empty_task_no_token [OF i] by (auto simp: empty_task_def dest: obj_at_less)
      then show False using step_old_token [OF i r, of "Store a"] n by simp
    qed
    moreover have "A_writer a \<notin> atoms c1"
    proof -
      have no: "A_writer a \<notin> obj_atoms v" "A_writer a \<notin> task_atoms k" for v :: "'a obj" and k
      proof -
        show tk: "A_writer a \<notin> task_atoms k" for k
          using no_writer_handles(1) [of a "H_task _"] by (cases k) (auto simp: closure_atoms_def)
        have "A_writer a \<notin> cont_atoms k" for k by (cases k) (auto simp: closure_atoms_def)
        then have "A_writer a \<notin> conts_atoms ks" for ks by (auto simp: conts_atoms_def)
        moreover have "A_writer a \<notin> storage_atoms s" for s :: "'a storage" by (cases s) auto
        moreover have "A_writer a \<notin> func_atoms g" for g by (cases g) (auto simp: closure_atoms_def)
        then have "A_writer a \<notin> body_atoms b" for b
          by (cases b) (auto simp: closure_atoms_def action_atoms_def split: option.splits)
        ultimately show "A_writer a \<notin> obj_atoms v" by (auto simp: obj_atoms_def split: option.splits)
      qed
      have "A_writer a \<notin> frames_atoms gs" if "gs \<in> set (stacks c1)" for gs
      proof -
        have "stacks c1 = (stacks c)[t := rest]"
          using top_step_stacks [OF 1(3)] by (simp add: set_stack_def)
        then have "gs \<in> insert rest (set (stacks c))" using that set_update_subset_insert by force
        then show ?thesis using at w(2) frames_atoms_other [of gs c] by (auto simp: writer_def)
      qed
      then show ?thesis using no by (auto simp: atoms_iff other_atoms_def)
    qed
    moreover have "A_promise a \<notin> atoms c1 \<union> frames_atoms st"
    proof -
      let ?Q = "\<lambda>x. x \<noteq> A_promise a"
      have "atom_ok ?Q c x" if "x \<in> atoms c" for x
      proof (cases x)
        case (A_promise b)
        then show ?thesis using w(2) that by (auto simp: writer_def atom_ok.simps)
      qed (use that mi mem_ok_atoms [of "\<lambda>_. True" c "{}" x] in \<open>auto simp: mem_inv_def atom_ok.simps\<close>)
      then have m: "mem_ok ?Q ?c (frame_atoms f)" by (intro mem_ok_pop [OF _ 1(1,2)]) (auto simp: mem_ok_def)
      have q1: "permits ?Q ?c cm" if "l = Some cm" for cm
        using fresh that by (auto simp: fresh_set_stack permits_def creates_def)
      have q2: "?Q (A_promise b)" if "f = F_apply k b" "gives_promise k" for k b
        using top_new_promise [OF 1(3), of k b] that used by auto
      have rest: "rest \<in> set (stacks ?c)" using 1(1) by (auto simp: set_stack_def intro: set_update_memI)
      have cov: "covers {} (f # rest)" using mi 1(1,2) unfolding mem_inv_def by (metis nth_mem)
      have "mem_ok ?Q c1 (frames_atoms st)"
        by (rule conjunct1, rule top_step_mem [OF m _ _ _ rest 1(3) cov]) (use q1 q2 in blast)+
      then show ?thesis unfolding mem_ok_def by (metis atom_ok.simps(3))
    qed
    ultimately show False using w(1) set_stack_atoms [of _ t st c1] by (auto simp: writer_def 1(4))
  qed
qed


lemma step_writer:
  assumes i: "result_inv c" and r: "machine_step t l c = Some c'" and w: "writer c' a"
  shows "tokens c' (Store a) = 0"
proof (cases "writer c a")
  case True
  then have "tokens c (Store a) = 0" "a < length (heap c)"
    using i writer_exists by (auto simp: result_inv_def)
  then show ?thesis using step_old_token [OF i r, of "Store a"] by fastforce
next
  case False
  then show ?thesis using step_new_writer [OF i r w] by simp
qed

text \<open>A storage is written only while it is empty.\<close>

lemma step_store:
  assumes i: "result_inv c" and r: "machine_step t l c = Some c'"
    and w: "obj_at c a = Some w" "obj_at c' a = Some w'" and n: "store w \<noteq> S_empty"
  shows "store w' = store w"
  using r
proof (cases rule: machine_stepE)
  case (1 f rest c1 st)
  let ?c = "set_stack t rest c"
  have "obj_ages (rights f) a w w'"
    using moves_step [OF r] w obj_at_less [OF w(1)] 1(7) unfolding moves_def evolves_def by force
  then have *: "store w' = store w \<or> Store a \<in> rights f" by (auto simp: obj_ages_def)
  have lib: "lib_step f rest ?c = Some (c1, st)" if "Store a \<in> rights f"
    using 1(3) by (cases rule: top_step_cases) (use that in auto)
  show ?thesis
  proof (cases "\<exists>p t. f = F_unwrap a p t")
    case True
    then have "tokens c' (Store a) < tokens c (Store a)"
      using step_uses_up [OF 1(1,2,4,5)] unwrap_uses_up [OF 1(3)] by blast
    then have "0 < tokens c (Store a)" by simp
    then have "store w = S_empty" using i w(1) unfolding result_inv_def by blast
    then show ?thesis using n by simp
  next
    case False
    then consider "store w' = store w" | v where "f = F_emplace a v" | e where "f = F_set_exn a e"
      using * by (auto simp: rights_iff)
    then show ?thesis
    proof cases
      case (2 v)
      then have "c1 = fst (emplace a v ?c)" using lib by (auto elim: lib_step_cases)
      then show ?thesis using w n 1(6) by (cases "store w") (auto simp: emplace_def with_obj_def)
    next
      case (3 e)
      then have "c1 = fst (set_exception a e ?c)" using lib by (auto elim: lib_step_cases)
      then show ?thesis using w n 1(6) by (cases "store w") (auto simp: set_exception_def with_obj_def)
    qed
  qed
qed

lemma step_pending_store:
  assumes i: "result_inv c" and r: "machine_step t l c = Some c'"
    and w': "obj_at c' a = Some w'" and p: "0 < tokens c' (Store a)"
  shows "store w' = S_empty"
  using r
proof (cases rule: machine_stepE)
  case (1 f rest c1 st)
  have ev: "evolves (rights f) c c'" using moves_step [OF r] 1(7) by (simp add: moves_def)
  have no: "Store a \<notin> rights f"
  proof
    assume s: "Store a \<in> rights f"
    then have a: "A_writer a \<in> frame_atoms f \<or> (\<exists>p t. f = F_unwrap a p t)" by (auto simp: rights_iff)
    show False
    proof (cases "\<exists>p t. f = F_unwrap a p t")
      case True
      then have "tokens c' (Store a) < tokens c (Store a)"
        using step_uses_up [OF 1(1,2,4,5)] unwrap_uses_up [OF 1(3)] by blast
      moreover have "tokens c (Store a) \<le> 1" using i by (simp add: result_inv_def)
      ultimately show False using p by simp
    next
      case False
      then have "writer c a" using a top_frame_atoms [OF 1(1,2)] by (auto simp: writer_def)
      then have "tokens c (Store a) = 0" "a < length (heap c)"
        using i writer_exists by (auto simp: result_inv_def)
      then show False using step_old_token [OF i r, of "Store a"] p by simp
    qed
  qed
  show ?thesis
  proof (cases "a < length (heap c)")
    case True
    then obtain w where w: "obj_at c a = Some w" "obj_ages (rights f) a w w'"
      using ev w' unfolding evolves_def by blast
    have "0 < tokens c (Store a)" using step_old_token [OF i r p] True by simp
    then have "store w = S_empty" using i w(1) unfolding result_inv_def by blast
    then show ?thesis using w(2) no by (simp add: obj_ages_def)
  next
    case False
    then show ?thesis using ev w' no unfolding evolves_def born_def by blast
  qed
qed

lemma result_inv_step:
  assumes i: "result_inv c" and r: "machine_step t l c = Some c'"
  shows "result_inv c'"
  unfolding result_inv_def
proof (intro conjI allI ballI impI)
  show "mem_inv c'" using machine_step_mem r i by (auto simp: result_inv_def)
qed (use step_tokens_le [OF i r] step_lent [OF i r] step_running [OF i r] step_writer [OF i r]
  step_pending_store [OF i r] in blast)+

lemma result_inv_init: "result_inv (machine_init n)"
proof -
  have "tokens (machine_init n) r = 0" for r
    by (simp add: tokens_def shared_tok_def heap_tok_def posted_tok_def stacks_tok_def machine_init_def sum_list_replicate)
  moreover have "\<not> writer (machine_init n) a" for a
    by (auto simp: writer_def machine_init_def atoms_def heap_atoms_def)
  moreover have "lent T {} fs \<and> ends_all fs = {}" if "fs \<in> set (stacks (machine_init n))" for T and fs :: "'a frame list"
    using that by (auto simp: machine_init_def)
  ultimately show ?thesis by (auto simp: result_inv_def machine_init_mem)
qed

interpretation machine_results: invariant_system "\<lambda>c. \<exists>n. c = machine_init n" mstep result_inv
  by unfold_locales (auto simp: mstep_def result_inv_init intro: result_inv_step)

end
