(* ===== verification/Results.thy ===== *)
theory Results
  imports Single_Writer
begin

text \<open>
  What holds along every execution of the machine: the life of a shared state, the
  types of pointers, and the results that states hold.
\<close>

section \<open>Executions\<close>

lemma reach_result: "run mstep (machine_init n) ls c \<Longrightarrow> result_inv c"
  by (rule machine_results.run_inv) auto

lemma reach_mem: "run mstep (machine_init n) ls c \<Longrightarrow> mem_inv c"
  using reach_result by (auto simp: result_inv_def)

lemma obj_ages_mono: "obj_ages U a w w' \<Longrightarrow> U \<subseteq> U' \<Longrightarrow> obj_ages U' a w w'"
  by (auto simp: obj_ages_def)

lemma born_mono: "born U a w \<Longrightarrow> U \<subseteq> U' \<Longrightarrow> born U' a w"
  by (auto simp: born_def)

lemma moves_mono: "moves U c c' \<Longrightarrow> U \<subseteq> U' \<Longrightarrow> moves U' c c'"
  unfolding moves_def evolves_def by (meson obj_ages_mono born_mono)

lemma run_moves: "run mstep c ls c' \<Longrightarrow> moves UNIV c c'"
proof (induction rule: run.induct)
  case (run_snoc s ls c1 l c2)
  have "moves UNIV c1 c2" using run_snoc(2) moves_mono [OF moves_step subset_UNIV] by (simp add: mstep_def)
  then show ?case by (rule moves_trans [OF run_snoc(3)])
qed simp

text \<open>A state that is alive at the end was alive in between, and got older.\<close>

lemma run_ages:
  assumes "run mstep c ls c'" "a < length (heap c)" "obj_at c' a = Some w'"
  obtains w where "obj_at c a = Some w" "obj_ages UNIV a w w'"
  using run_moves [OF assms(1)] assms(2,3) that unfolding moves_def evolves_def by blast

lemma run_ages_obj:
  assumes "run mstep c ls c'" "obj_at c a = Some w" "obj_at c' a = Some w'"
  shows "obj_ages UNIV a w w'"
  using run_ages [OF assms(1) obj_at_less [OF assms(2)] assms(3)] assms(2) by auto

lemma log_ok_init: "log_ok (machine_init n)"
  by (simp add: log_ok_def machine_init_def executed_def obj_at_def)

lemma reach_log: "run mstep (machine_init n) ls c \<Longrightarrow> log_ok c"
  using run_moves log_ok_init by (auto simp: moves_def)

lemma body_ages_fits: "body_ages b b' \<Longrightarrow> fits k b' \<longleftrightarrow> fits k b"
  by (cases b; cases k) auto

lemma run_store:
  assumes "run mstep c ls c'" "result_inv c" "obj_at c a = Some w" "store w \<noteq> S_empty" "obj_at c' a = Some w'"
  shows "store w' = store w"
  using assms
proof (induction arbitrary: w' rule: run.induct)
  case (run_snoc s ls c1 l c2)
  have "a < length (heap c1)"
    using run_moves [OF run_snoc(1)] obj_at_less [OF run_snoc(5)] by (auto simp: moves_def evolves_def)
  then obtain w1 where w1: "obj_at c1 a = Some w1"
    using run_ages [OF run_single [of mstep c1 l c2]] run_snoc(2,7) by blast
  have i: "result_inv c1" using run_snoc(1,4) machine_results.run_keeps by blast
  have "store w1 = store w" using run_snoc.IH [OF run_snoc(4-6) w1] .
  then show ?case using step_store [OF i _ w1 run_snoc(7)] run_snoc(2,6) by (simp add: mstep_def)
qed simp

text \<open>
  Examples: a promise whose value is set and whose future is read; a task that returns
  a future; a second notification of a \<open>when_any\<close> state.
\<close>

definition set_labels :: "(nat \<times> nat cmd option) list" where
  "set_labels = [(0, Some (Make_promise None)), (0, Some (Set_value 0 42))]"

definition set_cfg :: "nat cfg" where
  "set_cfg = the (exec_steps set_labels (machine_init 1))"

definition stored_cfg :: "nat cfg" where
  "stored_cfg = the (exec_steps [(0, None)] set_cfg)"

definition read_labels :: "(nat \<times> nat cmd option) list" where
  "read_labels = replicate 4 (0, None) @ [(0, Some (Get 1))]"

definition read_cfg :: "nat cfg" where
  "read_cfg = the (exec_steps read_labels stored_cfg)"

lemma set_run: "run mstep (machine_init 1) set_labels set_cfg"
  unfolding set_cfg_def by (rule exec_reach) code_simp

lemma stored_step: "machine_step 0 None set_cfg = Some stored_cfg"
  by code_simp

lemma stored_run: "run mstep (machine_init 1) (set_labels @ [(0, None)]) stored_cfg"
  by (rule run_snoc [OF set_run]) (simp add: mstep_def stored_step)

lemma exec_from: "exec_steps ls c \<noteq> None \<Longrightarrow> run mstep c ls (the (exec_steps ls c))"
  by (auto intro: exec_steps_run)

lemma read_run: "run mstep stored_cfg read_labels read_cfg"
  unfolding read_cfg_def by (rule exec_from) code_simp

definition unwrap_labels :: "(nat \<times> nat cmd option) list" where
  "unwrap_labels = [(0, Some (New_task (user_fn 5\<lparr>wrap := Of_future\<rparr>) [])), (0, Some (Get_future 0 Of_future)),
     (0, Some (Call_task 0)), (0, None), (0, Some (Make_promise None)), (0, Some (Return_future 1))] @ replicate 9 (0, None)"

definition unwrap_cfg :: "nat cfg" where
  "unwrap_cfg = the (exec_steps unwrap_labels (machine_init 1))"

lemma unwrap_run: "run mstep (machine_init 1) unwrap_labels unwrap_cfg"
  unfolding unwrap_cfg_def by (rule exec_reach) code_simp

definition any_cfg :: "nat cfg" where
  "any_cfg = \<lparr>heap = [Some \<lparr>store = S_empty, conts = None, body = B_any [H_gone, H_gone] 0 True\<rparr>], posted = [],
     stacks = [[F_notify_any 0 1, F_release 0]], waits = [], signalled = {}, log = [], crashed = None\<rparr>"

section \<open>The life of a state\<close>





section \<open>Results\<close>





text \<open>
  The index of a \<open>when_any\<close> result is decided once: when its flag is set, neither the
  flag nor the index nor the number of futures changes any more.
\<close>

theorem any_first_wins:
  assumes "run mstep c ls c'" "obj_at c a = Some w" "body w = B_any hs i True" "obj_at c' a = Some w'"
  shows "\<exists>hs'. body w' = B_any hs' i True \<and> length hs' = length hs"
  using run_ages_obj [OF assms(1,2,4)] assms(3) by (auto simp: obj_ages_def)

theorem any_first_wins_witness:
  "\<exists>hs'. body (the (obj_at (the (machine_step 0 None any_cfg)) 0)) = B_any hs' 0 True \<and> length hs' = 2"
proof -
  have "obj_at any_cfg 0 = Some \<lparr>store = S_empty, conts = None, body = B_any [H_gone, H_gone] 0 True\<rparr>"
    "obj_at (the (machine_step 0 None any_cfg)) 0 = Some (the (obj_at (the (machine_step 0 None any_cfg)) 0))"
    by code_simp+
  moreover have "machine_step 0 None any_cfg = Some (the (machine_step 0 None any_cfg))" by code_simp
  then have "run mstep any_cfg [(0, None)] (the (machine_step 0 None any_cfg))"
    by (intro run_single) (simp add: mstep_def)
  ultimately show ?thesis using any_first_wins by fastforce
qed

text \<open>What \<open>value_ref\<close> and \<open>exception\<close> give for a ready state that is no \<open>when_all\<close> or \<open>when_any\<close> state.\<close>

lemma read_back:
  assumes "executed c a" "obj_at c a = Some w" "fits K_state (body w)"
  shows "store w = S_value v \<Longrightarrow> value_ref c a = Some (Gives (V_value v)) \<and> exception_of c a = Some (Gives None)"
    "store w = S_error e \<Longrightarrow> value_ref c a = Some (Throws e) \<and> exception_of c a = Some (Gives (Some e))"
proof -
  have "value_ref c a = (case store w of S_empty \<Rightarrow> Some Asserts | S_value v \<Rightarrow> Some (Gives (V_value v))
      | S_fwd b \<Rightarrow> value_ref c b | S_error e \<Rightarrow> Some (Throws e))"
    using assms by (subst value_ref.simps) (cases "body w", auto)
  moreover have "exception_of c a = (case store w of S_empty \<Rightarrow> Some Asserts | S_value v \<Rightarrow> Some (Gives None)
      | S_fwd b \<Rightarrow> exception_of c b | S_error e \<Rightarrow> Some (Gives (Some e)))"
    using assms by (subst exception_of.simps) (cases "body w", auto)
  ultimately show "store w = S_value v \<Longrightarrow> value_ref c a = Some (Gives (V_value v)) \<and> exception_of c a = Some (Gives None)"
    "store w = S_error e \<Longrightarrow> value_ref c a = Some (Throws e) \<and> exception_of c a = Some (Gives (Some e))"
    by simp_all
qed

lemma stored_read_back:
  assumes r: "run mstep (machine_init n) ls c" and k: "A_kind K_state a \<in> atoms c"
    and s: "run mstep c ls' c'" "obj_at c' a = Some w'" "store w' = st" "st \<noteq> S_empty"
    and l: "run mstep c' ls'' c''" "executed c'' a"
  shows "st = S_value v \<Longrightarrow> value_ref c'' a = Some (Gives (V_value v)) \<and> exception_of c'' a = Some (Gives None)"
    "st = S_error e \<Longrightarrow> value_ref c'' a = Some (Throws e) \<and> exception_of c'' a = Some (Gives (Some e))"
proof -
  obtain w'' where w: "obj_at c'' a = Some w''" using l(2) by (auto simp: executed_def split: option.splits)
  have r': "run mstep (machine_init n) (ls @ ls') c'" by (rule run_trans [OF s(1) r])
  have "store w'' = st" using run_store [OF l(1) reach_result [OF r'] s(2) _ w] s(3,4) by simp
  moreover have "fits K_state (body w'')"
  proof -
    have "obj_ages UNIV a w' w''" by (rule run_ages_obj [OF l(1) s(2) w])
    then have "fits K_state (body w'') \<longleftrightarrow> fits K_state (body w')" by (auto simp: obj_ages_def body_ages_fits)
    moreover have *: "mem_ok (\<lambda>_. True) c {}" using reach_mem [OF r] by (simp add: mem_inv_def)
    have "a < length (heap c)" using mem_ok_atoms [OF * k] by (simp add: atom_ok.simps)
    then obtain w where "obj_at c a = Some w" "obj_ages UNIV a w w'" using run_ages [OF s(1) _ s(2)] by blast
    ultimately show ?thesis using mem_ok_atoms [OF * k] by (auto simp: obj_ages_def body_ages_fits atom_ok.simps)
  qed
  ultimately show "st = S_value v \<Longrightarrow> value_ref c'' a = Some (Gives (V_value v)) \<and> exception_of c'' a = Some (Gives None)"
    "st = S_error e \<Longrightarrow> value_ref c'' a = Some (Throws e) \<and> exception_of c'' a = Some (Gives (Some e))"
    using read_back [OF l(2) w] by simp_all
qed



end
