(* ===== verification/Readiness.thy ===== *)
theory Readiness
  imports Results
begin

text \<open>
  Readiness: a continuation runs, a wait ends and a result is read only after the
  state in question is ready, and a ready state has a result.
\<close>

section \<open>What a state and a call rely on\<close>

text \<open>A state was made ready; \<open>rank\<close> is when.\<close>

definition was_ready :: "'v cfg \<Rightarrow> addr \<Rightarrow> bool" where
  "was_ready c a \<longleftrightarrow> E_ready a \<in> set (log c)"

definition rank :: "'v cfg \<Rightarrow> addr \<Rightarrow> nat" where
  "rank c a = length (takeWhile (\<lambda>e. e \<noteq> E_ready a) (log c))"

fun is_seq :: "body \<Rightarrow> bool" where
  "is_seq (B_all _ _) = True"
| "is_seq (B_any _ _ _) = True"
| "is_seq _ = False"

text \<open>A state has a result, or forwards to one that was made ready.\<close>

definition settled :: "'v cfg \<Rightarrow> 'v obj \<Rightarrow> bool" where
  "settled c w \<longleftrightarrow> is_seq (body w) \<or> store w \<noteq> S_empty \<and> (\<forall>b. store w = S_fwd b \<longrightarrow> was_ready c b)"

text \<open>The continuations of \<open>p\<close> are for \<open>p\<close>.\<close>

fun cont_for :: "'v cfg \<Rightarrow> addr \<Rightarrow> cont \<Rightarrow> bool" where
  "cont_for c p (C_schedule a) \<longleftrightarrow> a < length (heap c) \<and>
     (\<forall>w ex k. obj_at c a = Some w \<longrightarrow> body w = B_cnt ex (Some k) \<longrightarrow> a_parent k = p)"
| "cont_for c p (C_unwrap a) \<longleftrightarrow> a < length (heap c) \<and> (\<forall>w. obj_at c a = Some w \<longrightarrow> store w = S_fwd p)"
| "cont_for c p (C_wait n) \<longleftrightarrow> n < length (waits c) \<and> waits c ! n = p"
| "cont_for c p _ \<longleftrightarrow> True"

definition cont_ok :: "'v cfg \<Rightarrow> cont \<Rightarrow> bool" where
  "cont_ok c k \<longleftrightarrow> (\<exists>p. was_ready c p \<and> cont_for c p k)"

definition run_ok :: "'v cfg \<Rightarrow> addr \<Rightarrow> bool" where
  "run_ok c a \<longleftrightarrow> a < length (heap c) \<and>
     (\<forall>w ex k. obj_at c a = Some w \<longrightarrow> body w = B_cnt ex (Some k) \<longrightarrow> was_ready c (a_parent k))"

fun task_ok :: "'v cfg \<Rightarrow> task \<Rightarrow> bool" where
  "task_ok c (T_cnt (Some a)) = run_ok c a"
| "task_ok c _ = True"

fun frame_ok :: "'v cfg \<Rightarrow> 'v frame \<Rightarrow> bool" where
  "frame_ok c (F_execute a) \<longleftrightarrow> a < length (heap c) \<and> (\<forall>w. obj_at c a = Some w \<longrightarrow> settled c w)"
| "frame_ok c (F_loop ks _) \<longleftrightarrow> (\<forall>k \<in> set ks. cont_ok c k)"
| "frame_ok c (F_post _ k) \<longleftrightarrow> task_ok c k"
| "frame_ok c (F_run a) \<longleftrightarrow> run_ok c a"
| "frame_ok c (F_apply k _) \<longleftrightarrow> was_ready c (a_parent k)"
| "frame_ok c (F_get _) \<longleftrightarrow> False"
| "frame_ok c _ \<longleftrightarrow> True"

text \<open>A ready state has a result; a state that it forwards to was made ready before it.\<close>

definition obj_ready :: "'v cfg \<Rightarrow> addr \<Rightarrow> 'v obj \<Rightarrow> bool" where
  "obj_ready c a w \<longleftrightarrow> (case conts w of
     None \<Rightarrow> was_ready c a \<and> settled c w \<and>
       (\<forall>b. \<not> is_seq (body w) \<longrightarrow> store w = S_fwd b \<longrightarrow> rank c b < rank c a)
   | Some ks \<Rightarrow> \<not> was_ready c a \<and> (\<forall>k \<in> set ks. cont_for c a k))"

definition shared_ready :: "'v cfg \<Rightarrow> bool" where
  "shared_ready c \<longleftrightarrow> (\<forall>a w. obj_at c a = Some w \<longrightarrow> obj_ready c a w) \<and>
     (\<forall>q \<in> set (posted c). task_ok c (snd q)) \<and>
     (\<forall>n \<in> signalled c. n < length (waits c) \<and> was_ready c (waits c ! n)) \<and>
     (\<forall>a. was_ready c a \<longrightarrow> a < length (heap c))"

section \<open>Growth\<close>

text \<open>What the calls rely on never gets lost.\<close>

definition body_grows :: "body \<Rightarrow> body \<Rightarrow> bool" where
  "body_grows b b' \<longleftrightarrow> (is_seq b' \<longleftrightarrow> is_seq b) \<and>
     (\<forall>ex' k. b' = B_cnt ex' (Some k) \<longrightarrow> (\<exists>ex. b = B_cnt ex (Some k)))"

definition obj_grows :: "'v obj \<Rightarrow> 'v obj \<Rightarrow> bool" where
  "obj_grows w w' \<longleftrightarrow> (store w \<noteq> S_empty \<longrightarrow> store w' = store w) \<and> body_grows (body w) (body w')"

definition grows :: "'v cfg \<Rightarrow> 'v cfg \<Rightarrow> bool" where
  "grows c c' \<longleftrightarrow> length (heap c) \<le> length (heap c') \<and>
     (\<forall>a w'. a < length (heap c) \<longrightarrow> obj_at c' a = Some w' \<longrightarrow> (\<exists>w. obj_at c a = Some w \<and> obj_grows w w')) \<and>
     (\<exists>l. log c' = log c @ l) \<and> (\<exists>ws. waits c' = waits c @ ws)"

lemma body_grows_refl [simp]: "body_grows b b"
  by (simp add: body_grows_def)

lemma obj_grows_refl [simp]: "obj_grows w w"
  by (simp add: obj_grows_def)

lemma obj_grows_trans: "obj_grows w1 w2 \<Longrightarrow> obj_grows w2 w3 \<Longrightarrow> obj_grows w1 w3"
  unfolding obj_grows_def body_grows_def by metis

lemma grows_refl [simp]: "grows c c"
  by (auto simp: grows_def)

lemma grows_obj: "grows c c' \<Longrightarrow> a < length (heap c) \<Longrightarrow> obj_at c' a = Some w' \<Longrightarrow>
    \<exists>w. obj_at c a = Some w \<and> obj_grows w w'"
  by (simp add: grows_def)

lemma grows_trans:
  assumes "grows c1 c2" "grows c2 c3"
  shows "grows c1 c3"
proof -
  have "\<exists>w. obj_at c1 a = Some w \<and> obj_grows w w3" if a: "a < length (heap c1)" "obj_at c3 a = Some w3" for a w3
  proof -
    have "a < length (heap c2)" using assms(1) a(1) by (auto simp: grows_def)
    then show ?thesis using grows_obj [OF assms(2) _ a(2)] grows_obj [OF assms(1) a(1)] obj_grows_trans by blast
  qed
  then show ?thesis using assms by (auto simp: grows_def)
qed

lemma was_ready_grows: "grows c c' \<Longrightarrow> was_ready c a \<Longrightarrow> was_ready c' a"
  by (auto simp: grows_def was_ready_def)

lemma takeWhile_member: "y \<in> set xs \<Longrightarrow> takeWhile (\<lambda>x. x \<noteq> y) (xs @ ys) = takeWhile (\<lambda>x. x \<noteq> y) xs"
  by (induction xs) auto

lemma rank_grows: "grows c c' \<Longrightarrow> was_ready c a \<Longrightarrow> rank c' a = rank c a"
  by (auto simp: grows_def was_ready_def rank_def takeWhile_member)

lemma settled_grows: "grows c c' \<Longrightarrow> obj_grows w w' \<Longrightarrow> settled c w \<Longrightarrow> settled c' w'"
  by (auto simp: settled_def obj_grows_def body_grows_def intro: was_ready_grows)

lemma cont_for_grows:
  assumes g: "grows c c'" and k: "cont_for c p k"
  shows "cont_for c' p k"
proof (cases k)
  case (C_schedule a)
  have "a_parent q = p" if "obj_at c' a = Some w'" "body w' = B_cnt ex (Some q)" for w' ex q
    using grows_obj [OF g _ that(1)] k C_schedule that(2) by (auto simp: obj_grows_def body_grows_def)
  then show ?thesis using g k C_schedule by (auto simp: grows_def)
next
  case (C_unwrap a)
  have "store w' = S_fwd p" if "obj_at c' a = Some w'" for w'
    using grows_obj [OF g _ that(1)] k C_unwrap by (auto simp: obj_grows_def)
  then show ?thesis using g k C_unwrap by (auto simp: grows_def)
next
  case (C_wait n)
  then show ?thesis using g k by (auto simp: grows_def nth_append)
qed simp_all

lemma cont_ok_grows: "grows c c' \<Longrightarrow> cont_ok c k \<Longrightarrow> cont_ok c' k"
  using cont_for_grows was_ready_grows unfolding cont_ok_def by blast

lemma run_ok_grows:
  assumes g: "grows c c'" and r: "run_ok c a"
  shows "run_ok c' a"
proof -
  have "was_ready c' (a_parent k)" if "obj_at c' a = Some w'" "body w' = B_cnt ex (Some k)" for w' ex k
    using grows_obj [OF g _ that(1)] r that(2) was_ready_grows [OF g]
    by (auto simp: obj_grows_def body_grows_def run_ok_def)
  then show ?thesis using g r by (auto simp: run_ok_def grows_def)
qed

lemma task_ok_T_cnt: "task_ok c k \<longleftrightarrow> (\<forall>a. k = T_cnt (Some a) \<longrightarrow> run_ok c a)"
proof (cases k)
  case (T_cnt p)
  then show ?thesis by (cases p) auto
qed auto

lemma task_ok_grows: "grows c c' \<Longrightarrow> task_ok c k \<Longrightarrow> task_ok c' k"
  by (auto simp: task_ok_T_cnt intro: run_ok_grows)

lemma frame_ok_grows:
  assumes g: "grows c c'" and f: "frame_ok c f"
  shows "frame_ok c' f"
proof (cases f)
  case (F_execute a)
  have "settled c' w'" if "obj_at c' a = Some w'" for w'
    using grows_obj [OF g _ that] f F_execute settled_grows [OF g] by auto
  then show ?thesis using g f F_execute by (auto simp: grows_def)
qed (use g f in \<open>auto intro: cont_ok_grows run_ok_grows task_ok_grows was_ready_grows\<close>)

section \<open>Rules\<close>

text \<open>A call that keeps the shared part in order and leaves frames that are.\<close>

definition sound :: "'v cfg \<Rightarrow> 'v cfg \<times> 'v frame list \<Rightarrow> bool" where
  "sound c r \<longleftrightarrow> grows c (fst r) \<and> shared_ready (fst r) \<and> (\<forall>f \<in> set (snd r). frame_ok (fst r) f)"

lemma sound_pair: "sound c (c', fs) \<longleftrightarrow> grows c c' \<and> shared_ready c' \<and> (\<forall>f \<in> set fs. frame_ok c' f)"
  by (simp add: sound_def)

lemma sound_frames [simp]: "sound c (c, fs) \<longleftrightarrow> shared_ready c \<and> (\<forall>f \<in> set fs. frame_ok c f)"
  by (simp add: sound_def)

lemma sound_append:
  assumes "sound c r" "\<And>c'. grows c c' \<Longrightarrow> \<forall>f \<in> set gs. frame_ok c' f"
  shows "sound c (case r of (c', fs) \<Rightarrow> (c', fs @ gs))"
  using assms by (cases r) (auto simp: sound_pair)

lemma sound_trans: "sound c' r \<Longrightarrow> grows c c' \<Longrightarrow> sound c r"
  by (auto simp: sound_def intro: grows_trans)

text \<open>Parts of a configuration that nothing relies on.\<close>

lemma ready_cong:
  assumes "heap c' = heap c" "log c' = log c" "waits c' = waits c"
  shows "was_ready c' = was_ready c" "rank c' = rank c" "settled c' = settled c" "cont_for c' = cont_for c"
    "cont_ok c' = cont_ok c" "run_ok c' = run_ok c" "task_ok c' = task_ok c" "frame_ok c' = frame_ok c"
    "obj_ready c' = obj_ready c" "grows c c'" "grows c' d \<longleftrightarrow> grows c d"
proof -
  have o: "obj_at c' = obj_at c" by (rule obj_at_heap) (rule assms(1))
  show 1: "was_ready c' = was_ready c" "rank c' = rank c" using assms(2) by (auto simp: was_ready_def rank_def fun_eq_iff)
  then show 2: "settled c' = settled c" by (simp add: settled_def fun_eq_iff)
  show 3: "cont_for c' = cont_for c"
  proof (intro ext)
    fix p k show "cont_for c' p k = cont_for c p k" using assms o by (cases k) simp_all
  qed
  show 4: "cont_ok c' = cont_ok c" "run_ok c' = run_ok c" using 1 3 assms o by (simp_all add: cont_ok_def run_ok_def fun_eq_iff)
  show 5: "task_ok c' = task_ok c" using 4(2) by (simp add: fun_eq_iff task_ok_T_cnt)
  show "frame_ok c' = frame_ok c"
  proof (intro ext)
    fix f show "frame_ok c' f = frame_ok c f" using 1 2 4 5 o assms by (cases f) simp_all
  qed
  show "obj_ready c' = obj_ready c" unfolding obj_ready_def 1 2 3 by (rule refl)
  show "grows c c'" "grows c' d \<longleftrightarrow> grows c d" using assms o by (auto simp: grows_def)
qed


lemma obj_ready_grows:
  assumes g: "grows c c'" "obj_grows w w'" and w: "obj_ready c a w" "conts w' = conts w"
    and r: "was_ready c' a \<Longrightarrow> was_ready c a"
  shows "obj_ready c' a w'"
proof (cases "conts w")
  case None
  then have o: "was_ready c a" "settled c w" "\<And>b. \<not> is_seq (body w) \<Longrightarrow> store w = S_fwd b \<Longrightarrow> rank c b < rank c a"
    using w(1) by (auto simp: obj_ready_def)
  have "rank c' b < rank c' a" if b: "\<not> is_seq (body w')" "store w' = S_fwd b" for b
  proof -
    have "\<not> is_seq (body w)" using g(2) b(1) by (auto simp: obj_grows_def body_grows_def)
    moreover from this have "store w = S_fwd b" using o(2) g(2) b(2) by (auto simp: settled_def obj_grows_def)
    moreover from calculation have "was_ready c b" using o(2) by (auto simp: settled_def)
    ultimately show ?thesis using o(1,3) rank_grows [OF g(1)] by simp
  qed
  then show ?thesis
    using None w(2) was_ready_grows [OF g(1) o(1)] settled_grows [OF g o(2)] by (simp add: obj_ready_def)
next
  case (Some ks)
  then show ?thesis using w r cont_for_grows [OF g(1)] by (auto simp: obj_ready_def)
qed

lemma shared_readyI:
  assumes s: "shared_ready c" and g: "grows c c'"
    and o: "\<And>a w'. obj_at c' a = Some w' \<Longrightarrow> obj_ready c' a w' \<or>
      (\<exists>w. obj_at c a = Some w \<and> obj_grows w w' \<and> conts w' = conts w \<and> (was_ready c' a \<longrightarrow> was_ready c a))"
    and p: "\<And>q. q \<in> set (posted c') \<Longrightarrow> q \<in> set (posted c) \<or> task_ok c' (snd q)"
    and n: "\<And>n. n \<in> signalled c' \<Longrightarrow> n \<in> signalled c \<or> n < length (waits c') \<and> was_ready c' (waits c' ! n)"
    and l: "\<And>a. was_ready c' a \<Longrightarrow> was_ready c a \<or> a < length (heap c')"
  shows "shared_ready c'"
  unfolding shared_ready_def
proof (intro conjI allI ballI impI)
  fix a w' assume "obj_at c' a = Some w'"
  from o [OF this] show "obj_ready c' a w'" using obj_ready_grows [OF g] s unfolding shared_ready_def by blast
next
  fix q assume "q \<in> set (posted c')"
  then show "task_ok c' (snd q)" using p s task_ok_grows [OF g] unfolding shared_ready_def by blast
next
  fix m assume "m \<in> signalled c'"
  then consider "m < length (waits c) \<and> was_ready c (waits c ! m)" | "m < length (waits c') \<and> was_ready c' (waits c' ! m)"
    using n s unfolding shared_ready_def by blast
  then have "m < length (waits c') \<and> was_ready c' (waits c' ! m)"
    by cases (use g in \<open>auto simp: grows_def nth_append intro: was_ready_grows [OF g]\<close>)
  then show "m < length (waits c')" "was_ready c' (waits c' ! m)" by simp_all
next
  fix a assume "was_ready c' a"
  then show "a < length (heap c')" using l s g unfolding shared_ready_def grows_def by (meson less_le_trans)
qed

text \<open>The primitive updates.\<close>

lemma cong_ready:
  assumes "shared_ready c" "heap c' = heap c" "log c' = log c" "waits c' = waits c"
    "set (posted c') \<subseteq> set (posted c)" "signalled c' \<subseteq> signalled c"
  shows "shared_ready c'"
proof -
  have "obj_at c' = obj_at c" by (rule obj_at_heap) (rule assms(2))
  then show ?thesis
    using assms by (intro shared_readyI [OF assms(1) ready_cong(10) [OF assms(2-4)]]) (auto simp: ready_cong [OF assms(2-4)])
qed

lemma shared_parts [simp]:
  "posted (set_obj a w c) = posted c" "posted (kill a c) = posted c" "posted (new_obj w c) = posted c" "posted (observe e c) = posted c"
  "signalled (set_obj a w c) = signalled c" "signalled (kill a c) = signalled c" "signalled (new_obj w c) = signalled c"
  "signalled (observe e c) = signalled c"
  "waits (set_obj a w c) = waits c" "waits (kill a c) = waits c" "waits (new_obj w c) = waits c" "waits (observe e c) = waits c"
  by (simp_all add: set_obj_def kill_def new_obj_def observe_def)

lemma grows_observe [simp]: "grows c (observe e c)"
  by (auto simp: grows_def observe_def obj_at_def)

lemma was_ready_observe [simp]: "was_ready (observe e c) a \<longleftrightarrow> e = E_ready a \<or> was_ready c a"
  by (auto simp: was_ready_def observe_def)

lemma observe_ready: "shared_ready c \<Longrightarrow> (\<And>a. e \<noteq> E_ready a) \<Longrightarrow> shared_ready (observe e c)"
  by (rule shared_readyI [OF _ grows_observe]) (auto simp: observe_def obj_at_def was_ready_def)

lemma was_ready_frame [simp]:
  "was_ready (set_obj a w c) = was_ready c" "was_ready (kill a c) = was_ready c" "was_ready (new_obj w c) = was_ready c"
  "was_ready (c\<lparr>waits := ws\<rparr>) = was_ready c" "was_ready (c\<lparr>signalled := ss\<rparr>) = was_ready c"
  "was_ready (c\<lparr>posted := q\<rparr>) = was_ready c"
  by (simp_all add: was_ready_def fun_eq_iff set_obj_def kill_def new_obj_def)

lemma grows_set_obj: "obj_at c a = Some w \<Longrightarrow> obj_grows w w' \<Longrightarrow> grows c (set_obj a w' c)"
  using obj_at_less [of c a w] by (auto simp: grows_def obj_at_set_obj) (simp_all add: set_obj_def)

lemma set_obj_ready:
  assumes "shared_ready c" "obj_at c a = Some w" "obj_grows w w'" "conts w' = conts w"
  shows "shared_ready (set_obj a w' c)"
  by (rule shared_readyI [OF assms(1) grows_set_obj [OF assms(2,3)]])
    (use assms obj_at_less [OF assms(2)] in \<open>auto simp: obj_at_set_obj split: if_splits\<close>)

lemma grows_new_obj [simp]: "grows c (new_obj w c)"
  by (auto simp: grows_def obj_at_new_obj fresh_def) (simp_all add: new_obj_def)

lemma new_obj_ready:
  assumes "shared_ready c"
  shows "shared_ready (new_obj (new_state b) c)"
proof -
  have "\<not> was_ready c (fresh c)" using assms by (auto simp: shared_ready_def fresh_def)
  then show ?thesis
    by (intro shared_readyI [OF assms grows_new_obj])
      (auto simp: obj_at_new_obj obj_ready_def new_state_def split: if_splits)
qed

lemma grows_kill [simp]: "grows c (kill a c)"
  by (auto simp: grows_def obj_at_kill) (simp_all add: kill_def)

lemma kill_ready: "shared_ready c \<Longrightarrow> shared_ready (kill a c)"
  by (rule shared_readyI [OF _ grows_kill]) (auto simp: obj_at_kill split: if_splits)

section \<open>Calls\<close>

lemma sound_crash: "shared_ready c \<Longrightarrow> sound c (crash_with k c)"
  unfolding crash_with_def sound_pair by (auto simp: ready_cong(10) intro: cong_ready)

lemma sound_with_obj:
  assumes "shared_ready c" "\<And>w. obj_at c a = Some w \<Longrightarrow> sound c (g w c)"
  shows "sound c (with_obj a g c)"
  using assms sound_crash by (auto simp: with_obj_def split: option.splits)

lemma obj_ready_at: "shared_ready c \<Longrightarrow> obj_at c a = Some w \<Longrightarrow> obj_ready c a w"
  by (simp add: shared_ready_def)

lemma push_sound:
  assumes s: "shared_ready c" and k: "cont_for c a k"
  shows "sound c (push a k c)"
  unfolding push_def
proof (rule sound_with_obj [OF s])
  fix w assume w: "obj_at c a = Some w"
  show "sound c (case conts w of None \<Rightarrow> (c, [F_loop [k] []]) | Some ks \<Rightarrow> (set_obj a (w\<lparr>conts := Some (k # ks)\<rparr>) c, []))"
  proof (cases "conts w")
    case None
    then have "was_ready c a" using obj_ready_at [OF s w] by (simp add: obj_ready_def)
    then show ?thesis using None s k by (auto simp: cont_ok_def)
  next
    case (Some ks)
    let ?w = "w\<lparr>conts := Some (k # ks)\<rparr>"
    have g: "grows c (set_obj a ?w c)" by (rule grows_set_obj [OF w]) (simp add: obj_grows_def)
    have "obj_ready (set_obj a ?w c) a ?w"
      using obj_ready_at [OF s w] Some cont_for_grows [OF g] k by (auto simp: obj_ready_def)
    then have "shared_ready (set_obj a ?w c)"
      by (intro shared_readyI [OF s g]) (use obj_at_less [OF w] in \<open>auto simp: obj_at_set_obj split: if_splits\<close>)
    then show ?thesis using g Some by (simp add: sound_pair)
  qed
qed

lemma push_after: "shared_ready c' \<Longrightarrow> grows c c' \<Longrightarrow> cont_for c' a k \<Longrightarrow> sound c (push a k c')"
  by (rule sound_trans [OF push_sound])

lemma rank_last: "\<not> was_ready c a \<Longrightarrow> rank (observe (E_ready a) c) a = length (log c)"
proof -
  assume "\<not> was_ready c a"
  then have "takeWhile (\<lambda>e. e \<noteq> E_ready a) (log c) = log c" by (auto simp: was_ready_def takeWhile_eq_all_conv)
  then show ?thesis by (simp add: rank_def observe_def takeWhile_append)
qed

lemma rank_less: "was_ready c b \<Longrightarrow> rank c b < length (log c)"
proof -
  assume "was_ready c b"
  then obtain xs ys where "log c = xs @ E_ready b # ys" "E_ready b \<notin> set xs"
    unfolding was_ready_def by (meson split_list_first)
  moreover from this(2) have "takeWhile (\<lambda>e. e \<noteq> E_ready b) (xs @ E_ready b # ys) = xs"
    by (induction xs) auto
  ultimately show ?thesis by (simp add: rank_def)
qed

lemma execute_sound:
  assumes s: "shared_ready c" and f: "frame_ok c (F_execute a)"
  shows "sound c (execute a c)"
  unfolding execute_def
proof (rule sound_with_obj [OF s])
  fix w assume w: "obj_at c a = Some w"
  show "sound c (case conts w of None \<Rightarrow> (c, [])
    | Some ks \<Rightarrow> (observe (E_ready a) (set_obj a (w\<lparr>conts := None\<rparr>) c), [F_loop ks []]))"
  proof (cases "conts w")
    case (Some ks)
    let ?c = "set_obj a (w\<lparr>conts := None\<rparr>) c" let ?c' = "observe (E_ready a) ?c"
    have g: "grows c ?c" by (rule grows_set_obj [OF w]) (simp add: obj_grows_def)
    then have g': "grows c ?c'" by (rule grows_trans) simp
    have a: "\<not> was_ready c a" "\<forall>k \<in> set ks. cont_for c a k"
      using obj_ready_at [OF s w] Some by (simp_all add: obj_ready_def)
    have st: "settled c w" using f w by simp
    have "rank ?c' b < rank ?c' a" if "was_ready c b" for b
    proof -
      have "rank ?c' a = length (log ?c)" using rank_last [of ?c a] a(1) by simp
      then show ?thesis using rank_less [OF that] rank_grows [OF g' that] by (simp add: set_obj_def)
    qed
    then have "obj_ready ?c' a (w\<lparr>conts := None\<rparr>)"
      using st settled_grows [OF g', of w "w\<lparr>conts := None\<rparr>"] by (auto simp: obj_ready_def settled_def obj_grows_def)
    then have "shared_ready ?c'"
      by (intro shared_readyI [OF s g']) (use obj_at_less [OF w] in \<open>auto simp: obj_at_set_obj split: if_splits\<close>)
    moreover have "\<forall>k \<in> set ks. cont_ok ?c' k"
      unfolding cont_ok_def using a(2) cont_for_grows [OF g'] by (metis was_ready_observe)
    ultimately show ?thesis using g' Some by (simp add: sound_pair)
  qed (use s in simp)
qed

text \<open>Destructors and calls of user code.\<close>

lemma sound_same:
  assumes "shared_ready c" "heap c' = heap c" "log c' = log c" "waits c' = waits c"
    "set (posted c') \<subseteq> set (posted c)" "signalled c' \<subseteq> signalled c" "\<forall>f \<in> set fs. frame_ok c f"
  shows "sound c (c', fs)"
  using cong_ready [OF assms(1-6)] ready_cong [OF assms(2-4)] assms(7) by (simp add: sound_pair)

lemma sound_observe:
  assumes "shared_ready c" "\<And>a. e \<noteq> E_ready a" "\<forall>f \<in> set fs. frame_ok c f"
  shows "sound c (observe e c, fs)"
  unfolding sound_pair using observe_ready [OF assms(1,2)] assms(3) by (blast intro: frame_ok_grows [OF grows_observe] grows_observe)

lemma invoke_ok [simp]: "frame_ok c (invoke f x hs)"
  by (simp add: invoke_def)

lemma drops_ok [simp]:
  "f \<in> set (drop_handles hs) \<Longrightarrow> frame_ok c f" "f \<in> set (drop_storage s) \<Longrightarrow> frame_ok c f"
  "f \<in> set (drop_conts ks) \<Longrightarrow> frame_ok c f" "f \<in> set (drop_action k) \<Longrightarrow> frame_ok c f"
  "f \<in> set (drop_owner w) \<Longrightarrow> frame_ok c f" "f \<in> set (state_dtor v) \<Longrightarrow> frame_ok c f"
proof -
  show 1: "f \<in> set (drop_storage s) \<Longrightarrow> frame_ok c f" for s f by (cases s) auto
  show "f \<in> set (state_dtor v) \<Longrightarrow> frame_ok c f" using 1 by (auto simp: state_dtor_def split: option.splits)
  show "f \<in> set (drop_conts ks) \<Longrightarrow> frame_ok c f" by (cases ks) (auto simp: cont_dtor_def split: cont.splits)
  show "f \<in> set (drop_owner w) \<Longrightarrow> frame_ok c f" by (cases w) auto
qed (auto simp: drop_handles_def drop_action_def split: option.splits)

lemma lock_sound: "shared_ready c \<Longrightarrow> (alive c a \<Longrightarrow> \<forall>f \<in> set fs. frame_ok c f) \<Longrightarrow> sound c (lock a fs c)"
  by (auto simp: lock_def)

lemma dtor_sound:
  assumes "shared_ready c"
  shows "sound c (promise_dtor w c)" "sound c (task_dtor w c)" "sound c (cnt_action_dtor p c)" "sound c (handle_dtor h c)"
    "sound c (task_dtor_frames k c)" "sound c (task_call w c)" "sound c (call_closure f c)"
proof -
  have l: "sound c (lock a fs c)" if "\<forall>f \<in> set fs. frame_ok c f" for a fs using lock_sound [OF assms] that by blast
  show 1: "sound c (promise_dtor w c)" for w
    using assms l by (auto simp: promise_dtor_def promise_abandon_def intro!: sound_append split: owner.splits)
  show 2: "sound c (task_dtor w c)" for w
    using assms l by (auto simp: task_dtor_def intro!: sound_append split: owner.splits)
  show 3: "sound c (cnt_action_dtor p c)" for p
    using assms l by (auto simp: cnt_action_dtor_def intro!: sound_append split: option.splits)
  show "sound c (handle_dtor h c)"
    using assms 1 2 by (auto simp: handle_dtor_def split: handle.splits option.splits)
  show "sound c (task_dtor_frames k c)" using assms 2 3 by (auto simp: task_dtor_frames_def split: task.splits)
  show "sound c (task_call w c)"
    using assms l by (auto simp: task_call_def raise_def split: owner.splits)
  show "sound c (call_closure f c)" using assms by (auto simp: call_closure_def intro: sound_observe)
qed

lemma release_sound:
  assumes s: "shared_ready c"
  shows "sound c (release a c)"
proof (cases "obj_at c a")
  case None
  then show ?thesis using s sound_crash by (auto simp: release_def)
next
  case (Some w)
  let ?c = "observe (E_dead a) (kill a c)"
  have s': "shared_ready ?c" by (intro observe_ready kill_ready s) simp
  have "sound ?c (obj_dtor w ?c)"
    using s' by (auto simp: obj_dtor_def intro!: sound_observe split: body.splits func_state.splits)
  moreover have "grows c ?c" by (rule grows_trans [OF grows_kill grows_observe])
  ultimately have "sound c (obj_dtor w ?c)" using sound_trans by blast
  then show ?thesis using s by (simp add: release_def Some)
qed

lemma cont_ok_C_schedule: "cont_ok c (C_schedule a) \<Longrightarrow> run_ok c a"
  by (auto simp: cont_ok_def run_ok_def)

lemma set_obj_sound:
  assumes "shared_ready c" "obj_at c a = Some w" "obj_grows w w'" "conts w' = conts w"
    "\<And>f. f \<in> set fs \<Longrightarrow> frame_ok (set_obj a w' c) f"
  shows "sound c (set_obj a w' c, fs)"
  unfolding sound_pair using grows_set_obj [OF assms(2,3)] set_obj_ready [OF assms(1-4)] assms(5) by blast

lemma schedule_sound:
  assumes s: "shared_ready c" and r: "run_ok c a"
  shows "sound c (schedule a c)"
proof (cases "obj_at c a")
  case (Some w)
  show ?thesis
  proof (cases "\<exists>ex k. body w = B_cnt (Some ex) k")
    case True
    then obtain ex k where b: "body w = B_cnt (Some ex) k" by blast
    let ?w = "w\<lparr>body := B_cnt None k\<rparr>"
    have g: "obj_grows w ?w" using b by (simp add: obj_grows_def body_grows_def)
    have "sound c (set_obj a ?w c, [F_release a, F_post ex (T_cnt (Some a))])"
      using run_ok_grows [OF grows_set_obj [OF Some g] r] by (intro set_obj_sound [OF s Some g]) auto
    then show ?thesis by (simp add: schedule_def Some b)
  next
    case False
    then have "schedule a c = crash_with Undefined_behaviour c"
      by (auto simp: schedule_def Some split: body.splits option.splits)
    then show ?thesis using sound_crash [OF s] by simp
  qed
qed (use s in \<open>simp add: schedule_def\<close>)

lemma run_cnt_sound:
  assumes s: "shared_ready c" and r: "run_ok c a"
  shows "sound c (run_cnt a c)"
proof (cases "obj_at c a")
  case (Some w)
  show ?thesis
  proof (cases "\<exists>ex k. body w = B_cnt ex (Some k)")
    case True
    then obtain ex k where b: "body w = B_cnt ex (Some k)" by blast
    let ?w = "w\<lparr>body := B_cnt ex None\<rparr>"
    have "sound c (set_obj a ?w c, [F_apply k a, F_noexcept])"
      using r Some b by (intro set_obj_sound [OF s Some]) (auto simp: obj_grows_def body_grows_def run_ok_def)
    then show ?thesis by (simp add: run_cnt_def Some b)
  next
    case False
    then have "run_cnt a c = crash_with Undefined_behaviour c"
      by (auto simp: run_cnt_def Some split: body.splits option.splits)
    then show ?thesis using sound_crash [OF s] by simp
  qed
qed (use s in \<open>simp add: run_cnt_def\<close>)

lemma unwrap_cont_sound:
  assumes s: "shared_ready c" and k: "cont_ok c (C_unwrap a)"
  shows "sound c (unwrap_cont a c)"
proof -
  have "settled c w" if "obj_at c a = Some w" for w
    using k that by (auto simp: cont_ok_def settled_def)
  then show ?thesis unfolding unwrap_cont_def
    by (intro lock_sound [OF s]) (auto simp: alive_def dest: obj_at_less)
qed

lemma wait_cont_sound:
  assumes s: "shared_ready c" and k: "cont_ok c (C_wait n)"
  shows "sound c (wait_cont n c)"
proof -
  let ?c = "c\<lparr>signalled := insert n (signalled c)\<rparr>"
  have g: "grows c ?c" by (rule ready_cong(10)) simp_all
  have "obj_at ?c = obj_at c" by (rule obj_at_heap) simp
  then have "shared_ready ?c" by (intro shared_readyI [OF s g]) (use k in \<open>auto simp: cont_ok_def\<close>)
  then show ?thesis using g by (simp add: wait_cont_def sound_pair)
qed

lemma call_cont_sound:
  assumes s: "shared_ready c" and k: "cont_ok c k"
  shows "sound c (call_cont k c)"
proof (cases k)
  case (C_post ex f)
  then show ?thesis using s dtor_sound(7) by (cases ex) (auto simp: call_cont_def)
qed (use s k dtor_sound(7) schedule_sound [OF s cont_ok_C_schedule] unwrap_cont_sound wait_cont_sound in \<open>auto simp: call_cont_def\<close>)

lemma loop_sound:
  assumes s: "shared_ready c" and k: "\<forall>k \<in> set ks. cont_ok c k"
  shows "sound c (loop ks done' c)"
proof (cases ks)
  case (Cons k ks')
  show ?thesis unfolding Cons loop.simps Let_def
    by (rule sound_append [OF call_cont_sound [OF s]]) (use k Cons in \<open>auto intro: cont_ok_grows\<close>)
qed (use s in simp)

lemma run_task_sound:
  assumes s: "shared_ready c" and k: "task_ok c k"
  shows "sound c (run_task k c)"
  using s k dtor_sound(6,7) by (auto simp: run_task_def intro!: sound_append split: task.splits option.splits)

lemma post_sound:
  assumes s: "shared_ready c" and k: "task_ok c k"
  shows "sound c (post ex k c)"
proof (cases ex)
  case (Executor n)
  let ?c = "c\<lparr>posted := posted c @ [(n, k)]\<rparr>"
  have e: "heap ?c = heap c" "log ?c = log c" "waits ?c = waits c" by simp_all
  have "obj_at ?c = obj_at c" by (rule obj_at_heap) simp
  then have "shared_ready ?c" by (intro shared_readyI [OF s ready_cong(10) [OF e]]) (use k in \<open>auto simp: ready_cong [OF e]\<close>)
  then show ?thesis using ready_cong(10) [OF e] by (simp add: post_def Executor sound_pair)
qed (use s k run_task_sound in \<open>simp add: post_def\<close>)

lemma apply_sound:
  assumes s: "shared_ready c"
  shows "sound c (apply_action k a c)"
proof -
  have o: "sound c (observe e c, fs)" if "\<And>a. e \<noteq> E_ready a" "\<forall>f \<in> set fs. frame_ok c f" for e fs
    using sound_observe [OF s] that by blast
  have o2: "sound c (observe e (observe d c), fs)"
    if "\<And>a. e \<noteq> E_ready a" "\<And>a. d \<noteq> E_ready a" "\<And>c. \<forall>f \<in> set fs. frame_ok c f" for e d fs
    by (rule sound_trans [OF sound_observe [OF observe_ready [OF s]] grows_observe]) (use that in auto)
  show ?thesis
    by (cases "a_deco k") (auto simp: apply_action_def apply_then_def apply_next_def apply_void_next_def
      apply_interruptible_def s intro!: o o2 sound_crash [OF s] split: option.splits access.splits)
qed

lemma unwrap_sound:
  assumes s: "shared_ready c" and e: "\<And>w. p \<noteq> None \<Longrightarrow> obj_at c a = Some w \<Longrightarrow> store w = S_empty"
  shows "sound c (unwrap a p c)"
proof (cases p)
  case (Some b)
  show ?thesis
    unfolding Some unwrap.simps
  proof (rule sound_with_obj [OF s])
    fix w assume w: "obj_at c a = Some w"
    let ?w = "w\<lparr>store := S_fwd b\<rparr>" let ?c = "set_obj a ?w c"
    have st: "store w = S_empty" using e w Some by blast
    then have g: "obj_grows w ?w" by (simp add: obj_grows_def)
    have "cont_for ?c b (C_unwrap a)" using obj_at_less [OF w] by (auto simp: obj_at_set_obj set_obj_def obj_at_def)
    then have "sound c (push b (C_unwrap a) ?c)"
      by (intro push_after set_obj_ready [OF s w g] grows_set_obj [OF w g]) simp_all
    then show "sound c (let (c', fs) = push b (C_unwrap a) ?c in (c', drop_storage (store w) @ fs))"
      by (simp add: st)
  qed
qed (use s in simp)

lemma store_sound:
  assumes s: "shared_ready c"
  shows "sound c (emplace a v c)" "sound c (set_exception a e c)"
proof -
  have "sound c (if \<not> is_empty (store w) then (c, [F_raise x])
      else (set_obj a (w\<lparr>store := st\<rparr>) c, [F_execute a]))"
    if w: "obj_at c a = Some w" and st: "st \<noteq> S_empty" "\<And>b. st \<noteq> S_fwd b" for w st x
  proof (cases "is_empty (store w)")
    case True
    then have "store w = S_empty" by (cases "store w") auto
    moreover have "frame_ok (set_obj a (w\<lparr>store := st\<rparr>) c) (F_execute a)"
      using obj_at_less [OF w] st by (simp add: obj_at_set_obj settled_def)
    ultimately show ?thesis using True by (auto intro!: set_obj_sound [OF s w] simp: obj_grows_def)
  qed (use s in simp)
  then show "sound c (emplace a v c)" "sound c (set_exception a e c)"
    by (auto simp: emplace_def set_exception_def intro!: sound_with_obj [OF s])
qed

lemma seq_sound:
  assumes s: "shared_ready c"
  shows "sound c (notify_all a c)" "sound c (notify_any a i c)" "sound c (subscribe_all a i c)" "sound c (subscribe_any a i c)"
proof -
  have seq: "sound c (set_obj a (w\<lparr>body := b\<rparr>) c, fs)"
    if w: "obj_at c a = Some w" "is_seq (body w)" "is_seq b" "set fs \<subseteq> {F_execute a}" for w b fs
  proof (rule set_obj_sound [OF s w(1)])
    show "obj_grows w (w\<lparr>body := b\<rparr>)" using w(2,3) by (cases b) (auto simp: obj_grows_def body_grows_def)
    show "f \<in> set fs \<Longrightarrow> frame_ok (set_obj a (w\<lparr>body := b\<rparr>) c) f" for f
      using w obj_at_less [OF w(1)] by (auto simp: obj_at_set_obj settled_def)
  qed simp
  show "sound c (notify_all a c)" unfolding notify_all_def
  proof (rule sound_with_obj [OF s], goal_cases)
    case (1 w)
    then show ?case using sound_crash [OF s] by (cases "body w") (auto simp: Let_def intro!: seq)
  qed
  show "sound c (notify_any a i c)" unfolding notify_any_def
  proof (rule sound_with_obj [OF s], goal_cases)
    case (1 w)
    then show ?case using sound_crash [OF s] s by (cases "body w") (auto intro!: seq)
  qed
  show "sound c (subscribe_all a i c)" unfolding subscribe_all_def
  proof (rule sound_with_obj [OF s], goal_cases)
    case (1 w)
    then show ?case using sound_crash [OF s] s push_sound [OF s]
      by (cases "body w") (auto simp: Let_def intro!: sound_append split: option.splits)
  qed
  show "sound c (subscribe_any a i c)" unfolding subscribe_any_def
  proof (rule sound_with_obj [OF s], goal_cases)
    case (1 w)
    then show ?case using sound_crash [OF s] s push_sound [OF s] obj_at_less [OF 1]
      by (cases "body w") (auto simp: Let_def settled_def intro!: sound_append split: option.splits)
  qed
qed

lemma perform_sound:
  assumes s: "shared_ready c" and f: "frame_ok c f"
    and e: "\<And>a b t w. f = F_unwrap a (Some b) t \<Longrightarrow> obj_at c a = Some w \<Longrightarrow> store w = S_empty"
  shows "sound c (perform f c)"
proof (cases f)
  case (F_unwrap a p t)
  show ?thesis unfolding F_unwrap perform.simps Let_def
    by (rule sound_append [OF unwrap_sound [OF s]]) (use e F_unwrap in auto)
next
  case (F_clean_action a)
  show ?thesis unfolding F_clean_action perform.simps clean_action_def
  proof (rule sound_with_obj [OF s], goal_cases)
    case (1 w)
    then show ?case using sound_crash [OF s]
      by (cases "body w") (auto intro!: set_obj_sound [OF s 1] simp: obj_grows_def body_grows_def)
  qed
next
  case (F_task_run a)
  show ?thesis unfolding F_task_run perform.simps task_run_def
  proof (rule sound_with_obj [OF s], goal_cases)
    case (1 w)
    have "sound c (observe (E_call n) (set_obj a (w\<lparr>body := B_task Fn_running\<rparr>) c), [invoke g x [], F_clean_func a []])"
      if "body w = B_task h" for n g x h
      by (rule sound_trans [OF sound_observe [OF set_obj_ready [OF s 1]] grows_set_obj [OF 1]])
        (use that in \<open>auto simp: obj_grows_def body_grows_def\<close>)
    then show ?case using sound_crash [OF s] s by (auto split: body.splits func_state.splits)
  qed
next
  case (F_clean_func a hs)
  show ?thesis unfolding F_clean_func perform.simps clean_func_def
  proof (rule sound_with_obj [OF s], goal_cases)
    case (1 w)
    then show ?case using sound_crash [OF s]
      by (cases "body w") (auto intro!: set_obj_sound [OF s 1] simp: obj_grows_def body_grows_def)
  qed
next
  case (F_task_abandon a)
  show ?thesis unfolding F_task_abandon perform.simps task_abandon_def
  proof (rule sound_with_obj [OF s], goal_cases)
    case (1 w)
    then show ?case using sound_crash [OF s] s
      by (auto intro!: set_obj_sound [OF s 1] simp: obj_grows_def body_grows_def split: body.splits func_state.splits)
  qed
next
  case (F_abandon a)
  show ?thesis unfolding F_abandon perform.simps abandon_def by (rule sound_with_obj [OF s]) (use s in auto)
qed (use s f execute_sound loop_sound post_sound run_cnt_sound in
  \<open>auto simp: release_sound dtor_sound store_sound apply_sound seq_sound cnt_abandon_def\<close>)

section \<open>User code\<close>

lemma new_state_sound: "shared_ready c \<Longrightarrow> \<forall>f \<in> set fs. frame_ok (new_obj (new_state b) c) f \<Longrightarrow> sound c (new_obj (new_state b) c, fs)"
  by (simp add: sound_pair new_obj_ready)

lemma wait_sound:
  assumes s: "shared_ready c"
  shows "sound c (wait a c)"
proof -
  let ?c = "c\<lparr>waits := waits c @ [a]\<rparr>"
  have o: "obj_at ?c = obj_at c" by (rule obj_at_heap) simp
  have g: "grows c ?c" using o by (auto simp: grows_def)
  have s': "shared_ready ?c"
    by (rule shared_readyI [OF s g]) (use o s in \<open>auto simp: shared_ready_def\<close>)
  have "sound c (push a (C_wait (length (waits c))) ?c)" by (rule push_after [OF s' g]) simp
  then show ?thesis unfolding wait_def Let_def by (rule sound_append) simp
qed

lemma attach_sound:
  assumes s: "shared_ready c"
  shows "sound c (attach d h ex f g c)"
proof -
  have "sound c (make_then_state p ex \<lparr>a_deco = d, a_func = f, a_parent = p\<rparr> g c)" for p
    unfolding make_then_state_def Let_def
    by (rule sound_append [OF push_after [OF new_obj_ready [OF s] grows_new_obj]])
      (auto simp: obj_at_new_obj new_state_def, simp add: new_obj_def fresh_def)
  then show ?thesis using s by (auto simp: attach_def no_state_def split: option.splits)
qed

lemma create_sound:
  assumes s: "shared_ready c"
  shows "sound c (promise_set_value w v c)" "sound c (promise_set_exception w e c)"
    "sound c (ask p c)" "sound c (is_ready h c)" "sound c (make_ready_future v c)" "sound c (make_exceptional_future e c)"
    "sound c (when_all_make gs c)" "sound c (when_any_make gs c)" "sound c (async ex f c)"
    "sound c (when_all_range gs v c)"
  using s by (auto simp: when_all_range_def promise_set_value_def promise_set_exception_def ask_def future_eq make_ready_future_def
      make_exceptional_future_def when_all_make_def when_any_make_def async_def promise_ctor_def make_promise_def
      packaged_task_def raise_def no_state_def Let_def intro!: new_state_sound sound_observe split: option.splits sum.splits)

lemma future_sound:
  assumes s: "shared_ready c"
  shows "sound c (future_wait h c)" "sound c (detach h c)" "sound c (notify h f c)" "sound c (notify_on h ex f c)"
    "sound c (snd (future_then h ex f c))" "sound c (snd (future_then_promise h ex f c))"
    "sound c (snd (future_next h vd ex f c))"
  using s wait_sound push_sound [OF s] attach_sound
  by (auto simp: future_eq detach_eq future_then_eq no_state_def Let_def intro!: sound_append split: option.splits)

lemma attach_cmd_sound:
  assumes "attach_cmd i f is hs g = Some (c', hs', fs)" "\<And>h f'. sound c (snd (g h f'))"
  shows "sound c (c', fs)"
  using assms(1) by (rule attach_cmd_Some) (metis assms(2) prod.collapse)

lemma api_sound:
  assumes s: "shared_ready c" and r: "api_step cm hs c = Some (c', hs', fs)" and n: "\<And>i. cm \<noteq> Get i"
  shows "sound c (c', fs)"
proof (cases cm)
  case (New_promise p)
  then show ?thesis using r s by (auto simp: promise_ctor_def intro!: new_state_sound split: option.splits)
next
  case (Make_promise p)
  then show ?thesis using r s by (auto simp: make_promise_def intro!: new_state_sound split: option.splits)
next
  case (New_task f "is")
  then show ?thesis using r s
    by (auto simp: packaged_task_def with_closure_def intro!: new_state_sound split: option.splits)
next
  case (Get_future i w)
  then show ?thesis using r s by (auto simp: raise_def dest!: retrieve_Some split: handle.splits)
next
  case (Assign i j)
  then show ?thesis using r s by (auto simp: assign_def Let_def split: if_splits option.splits)
next
  case (Local lc)
  then show ?thesis using r s by (auto dest!: local_step_frames split: option.splits)
next
  case (Await_suspend i f "is")
  from await_suspend_Some [OF r [unfolded this]] show ?thesis using future_sound [OF s] by (auto elim!: attach_cmd_sound)
next
  case (Notify i f "is")
  then show ?thesis using r future_sound [OF s] by (auto elim!: attach_cmd_sound)
next
  case (Notify_on i ex f "is")
  then show ?thesis using r future_sound [OF s] by (auto elim!: attach_cmd_sound)
next
  case (Then i ex f "is")
  then show ?thesis using r future_sound [OF s] by (auto elim!: attach_cmd_sound)
next
  case (Then_promise i ex f "is")
  then show ?thesis using r future_sound [OF s] by (auto elim!: attach_cmd_sound)
next
  case (Next i vd ex f "is")
  then show ?thesis using r future_sound [OF s] by (auto elim!: attach_cmd_sound)
qed (use r s n dtor_sound(6) [OF s] create_sound [OF s] future_sound [OF s] in
  \<open>auto simp: call_Some with_closure_def split: option.splits prod.splits handle.splits if_splits\<close>)

text \<open>
  The calls on a stack: a \<open>get\<close> on its way to read a result waits for the state, unless it is
  known to be ready or the call is being unwound.
\<close>

fun gets :: "'v cfg \<Rightarrow> 'v frame option \<Rightarrow> 'v frame list \<Rightarrow> bool" where
  "gets c p [] \<longleftrightarrow> True"
| "gets c p (f # fs) \<longleftrightarrow> gets c (Some f) fs \<and> (\<forall>i. f = F_get i \<longrightarrow>
     (\<exists>x n hs rest a. fs = F_user x n hs # rest \<and> state_of (var i hs) = Some a \<and>
       (was_ready c a \<or> (\<exists>m. p = Some (F_await m) \<and> m < length (waits c) \<and> waits c ! m = a) \<or> (\<exists>e. p = Some (F_raise e)))))"

definition stack_ok :: "'v cfg \<Rightarrow> 'v frame list \<Rightarrow> bool" where
  "stack_ok c fs \<longleftrightarrow> (\<forall>f \<in> set fs. frame_ok c f \<or> (\<exists>i. f = F_get i)) \<and> gets c None fs"

definition ready_inv :: "'v cfg \<Rightarrow> bool" where
  "ready_inv c \<longleftrightarrow> shared_ready c \<and> (\<forall>fs \<in> set (stacks c). stack_ok c fs)"

lemma gets_grows: "grows c c' \<Longrightarrow> gets c p fs \<Longrightarrow> gets c' p fs"
proof (induction fs arbitrary: p)
  case (Cons f fs)
  then show ?case using was_ready_grows [OF Cons.prems(1)]
    by (auto simp: grows_def nth_append)
qed simp

lemma gets_weaken: "gets c None fs \<Longrightarrow> gets c p fs"
  by (cases fs) auto

lemma gets_append: "\<forall>f \<in> set fs. frame_ok c f \<Longrightarrow> gets c None rest \<Longrightarrow> gets c p (fs @ rest)"
  by (induction fs arbitrary: p) (auto intro: gets_weaken)

lemma gets_pop:
  assumes s: "shared_ready c" and g: "gets c p (f # rest)" and f: "\<And>m. f = F_await m \<Longrightarrow> m \<in> signalled c" "\<And>e. f \<noteq> F_raise e"
  shows "gets c None rest"
  using g f(1) s by (cases rest) (auto simp: f(2) shared_ready_def)

lemma gets_raise: "gets c p (f # rest) \<Longrightarrow> gets c q (F_raise e # rest)"
  by (cases rest) auto

lemma put_home_frames: "(\<forall>f \<in> set (put_home hs fs). frame_ok c f \<or> (\<exists>i. f = F_get i)) \<longleftrightarrow>
    (\<forall>f \<in> set fs. frame_ok c f \<or> (\<exists>i. f = F_get i))"
  by (induction hs fs rule: put_home.induct) auto

lemma put_home_user: "put_home hs fs = F_user x n gs # rest' \<longleftrightarrow>
    (\<exists>rest. fs = F_user x n gs # rest \<and> rest' = put_home hs rest)"
  by (cases "(hs, fs)" rule: put_home.cases) auto

lemma put_home_gets: "gets c p fs \<Longrightarrow> gets c p (put_home hs fs)"
proof (induction hs fs arbitrary: p rule: put_home.induct)
  case (2 hs gs fs)
  then show ?case by (cases fs) auto
next
  case (3 hs a gs fs)
  then show ?case by (cases fs) auto
next
  case (4 hs ks done' fs)
  then show ?case by (cases fs) auto
qed (auto simp: put_home_user)

lemma stack_ok_append: "\<forall>f \<in> set fs. frame_ok c f \<Longrightarrow> stack_ok c rest \<Longrightarrow> stack_ok c (fs @ rest)"
  by (auto simp: stack_ok_def intro: gets_append)

lemma stack_ok_Cons: "frame_ok c f \<Longrightarrow> stack_ok c rest \<Longrightarrow> stack_ok c (f # rest)"
  by (auto simp: stack_ok_def intro: gets_weaken)

lemma stack_ok_grows: "grows c c' \<Longrightarrow> stack_ok c fs \<Longrightarrow> stack_ok c' fs"
  by (auto simp: stack_ok_def intro: gets_grows frame_ok_grows)

lemma stack_ok_pop:
  assumes "shared_ready c" "stack_ok c (f # rest)" "\<And>m. f = F_await m \<Longrightarrow> m \<in> signalled c" "\<And>e. f \<noteq> F_raise e"
  shows "stack_ok c rest"
  using assms gets_pop [OF assms(1) _ assms(3,4)] by (auto simp: stack_ok_def simp del: gets.simps)

lemma leave_ok:
  assumes "stack_ok c rest" "\<forall>f \<in> set fs. frame_ok c f"
  shows "stack_ok c (leave n hs fs rest)"
proof -
  have "stack_ok c (put_home (take n hs) rest)"
    using assms(1) unfolding stack_ok_def put_home_frames by (auto intro: put_home_gets)
  then show ?thesis unfolding leave_def append_assoc [symmetric] by (rule stack_ok_append [rotated]) (use assms(2) in auto)
qed

lemma cleanup_ok: "f \<in> set (cleanup g) \<Longrightarrow> frame_ok c f"
  by (cases g) (auto split: option.splits)

lemma unwind_ok:
  assumes s: "shared_ready c" and k: "stack_ok c (F_raise e # fs)"
  shows "grows c (fst (unwind e fs c)) \<and> shared_ready (fst (unwind e fs c)) \<and> stack_ok (fst (unwind e fs c)) (snd (unwind e fs c))"
proof -
  have crash: "grows c (fst (crash_with x c)) \<and> shared_ready (fst (crash_with x c)) \<and> stack_ok (fst (crash_with x c)) (snd (crash_with x c))"
    for x using sound_crash [OF s, of x] by (auto simp: sound_def stack_ok_def crash_with_def)
  have *: "unwind e fs c = (c, cleanup (hd fs) @ (if cleanup (hd fs) = [] then [] else [F_noexcept]) @ F_raise e # tl fs)"
    if "fs \<noteq> []" "hd fs \<noteq> F_noexcept" "\<And>a. hd fs \<noteq> F_catch a" "\<And>x n hs. hd fs \<noteq> F_user x n hs"
    using that by (cases "(e, fs, c)" rule: unwind.cases) auto
  have st: "stack_ok c (F_raise e # tl fs)"
  proof (cases fs)
    case (Cons f fs')
    have "gets c (Some (F_raise e)) fs" using k by (simp add: stack_ok_def)
    then have "gets c None (F_raise e # fs')" unfolding Cons by (rule gets_raise)
    then show ?thesis using k Cons by (simp add: stack_ok_def del: gets.simps)
  qed (use k in simp)
  have pop: "stack_ok c (tl fs)" if "fs \<noteq> []" "\<And>i. hd fs \<noteq> F_get i" "\<And>n. hd fs \<noteq> F_await n" "\<And>e. hd fs \<noteq> F_raise e"
    using stack_ok_pop [OF s, of "hd fs" "tl fs"] k that by (cases fs) (auto simp: stack_ok_def)
  consider (empty) "fs = []" | (stop) "fs \<noteq> []" "hd fs = F_noexcept" | (handler) a where "fs \<noteq> []" "hd fs = F_catch a"
    | (user) x n hs where "fs \<noteq> []" "hd fs = F_user x n hs"
    | (clean) "fs \<noteq> []" "hd fs \<noteq> F_noexcept" "\<And>a. hd fs \<noteq> F_catch a" "\<And>x n hs. hd fs \<noteq> F_user x n hs" by blast
  then show ?thesis
  proof cases
    case stop
    then have "unwind e fs c = crash_with Terminated c" by (cases fs) auto
    then show ?thesis using crash by simp
  next
    case (handler a)
    then have "unwind e fs c = (c, F_set_exn a e # tl fs)" by (cases fs) auto
    then show ?thesis using pop handler s by (simp add: stack_ok_Cons)
  next
    case (user x n hs)
    then have u: "unwind e fs c = (observe (E_threw e) c, hd fs # tl fs)" by (cases fs) auto
    have "stack_ok c (hd fs # tl fs)" using pop user by (intro stack_ok_Cons) auto
    then show ?thesis using u observe_ready [OF s] stack_ok_grows [OF grows_observe] by simp
  next
    case clean
    then show ?thesis using * [OF clean] s st cleanup_ok by (auto intro!: stack_ok_append stack_ok_Cons)
  qed (use crash in simp)
qed

section \<open>Steps\<close>

text \<open>What a step of a thread achieves.\<close>

definition steps_to :: "'v cfg \<Rightarrow> 'v cfg \<Rightarrow> 'v frame list \<Rightarrow> bool" where
  "steps_to c c' st \<longleftrightarrow> grows c c' \<and> shared_ready c' \<and> stack_ok c' st"

lemma sound_steps: "sound c r \<Longrightarrow> stack_ok c rest \<Longrightarrow> steps_to c (fst r) (snd r @ rest)"
  by (auto simp: steps_to_def sound_def intro: stack_ok_append stack_ok_grows)

lemma sound_user: "sound c (c', fs) \<Longrightarrow> stack_ok c rest \<Longrightarrow> steps_to c c' (fs @ F_user x n hs # rest)"
  using sound_steps [of c "(c', fs)" "F_user x n hs # rest"] by (simp add: stack_ok_Cons)

lemma take_result_ready:
  assumes s: "shared_ready c"
  shows "grows c (fst (take_result g c)) \<and> shared_ready (fst (take_result g c))"
proof -
  have "grows c (fst (take_futures b c)) \<and> shared_ready (fst (take_futures b c))" for b
  proof (cases "obj_at c b")
    case (Some w)
    have "grows c (set_obj b (w\<lparr>body := d\<rparr>) c) \<and> shared_ready (set_obj b (w\<lparr>body := d\<rparr>) c)"
      if "is_seq (body w)" "is_seq d" for d
    proof -
      have "obj_grows w (w\<lparr>body := d\<rparr>)" using that by (cases d) (auto simp: obj_grows_def body_grows_def)
      then show ?thesis using grows_set_obj [OF Some] set_obj_ready [OF s Some] by simp
    qed
    then show ?thesis using s by (auto simp: take_futures_def Some split: body.splits)
  qed (use s in \<open>simp add: take_futures_def\<close>)
  then show ?thesis using s by (auto simp: take_result_def split: vref.splits)
qed

lemma finish_get_steps:
  assumes s: "shared_ready c" and k: "stack_ok c rest" and r: "finish_get i x n hs rest c = Some (c', st)"
  shows "steps_to c c' st"
  using r
proof (cases rule: finish_get_cases)
  case (moved a g)
  have "grows c c'" using take_result_ready [OF s] moved(3) grows_trans [OF _ grows_observe] by blast
  moreover have "shared_ready c'" unfolding moved(3) by (rule observe_ready) (use take_result_ready [OF s] in auto)
  ultimately show ?thesis using stack_ok_grows [OF _ k] moved(4) by (simp add: steps_to_def stack_ok_Cons)
next
  case (asserts a)
  then show ?thesis using sound_crash [OF s, of Undefined_behaviour] by (simp add: steps_to_def sound_def stack_ok_def)
next
  case (thrown a e)
  then show ?thesis using s k by (simp add: steps_to_def stack_ok_Cons)
next
  case (copied a g)
  then show ?thesis using observe_ready [OF s, of "E_got g"] stack_ok_grows [OF grows_observe k]
    by (simp add: steps_to_def stack_ok_Cons)
next
  case (rethrown a e)
  then show ?thesis using s k by (simp add: steps_to_def stack_ok_Cons)
qed

lemma lib_steps:
  assumes s: "shared_ready c" and k: "stack_ok c (f # rest)" and r: "lib_step f rest c = Some (c', st)"
    and e: "\<And>a b t w. f = F_unwrap a (Some b) t \<Longrightarrow> obj_at c a = Some w \<Longrightarrow> store w = S_empty"
  shows "steps_to c c' st"
proof -
  consider (raised) e where "f = F_raise e" | (awaited) n where "f = F_await n" | (got) i where "f = F_get i"
    | (other) "\<And>e. f \<noteq> F_raise e" "\<And>n. f \<noteq> F_await n" "\<And>i. f \<noteq> F_get i" by blast
  then show ?thesis
  proof cases
    case (raised e)
    then have "(c', st) = unwind e rest c" using r by (simp add: lib_step_def)
    then show ?thesis using unwind_ok [OF s] k raised by (auto simp: steps_to_def) (metis fst_conv snd_conv)+
  next
    case (awaited n)
    then have "n \<in> signalled c" "c' = c" "st = rest" using r by (auto simp: lib_step_def split: if_splits)
    then show ?thesis using stack_ok_pop [OF s k] awaited s by (auto simp: steps_to_def)
  next
    case (got i)
    then obtain x n hs rest' where rest: "rest = F_user x n hs # rest'" "finish_get i x n hs rest' c = Some (c', st)"
      using r by (auto simp: lib_step_def split: list.splits frame.splits)
    have "stack_ok c rest" using stack_ok_pop [OF s k] got by simp
    then have "stack_ok c rest'" using stack_ok_pop [OF s, of "F_user x n hs" rest'] rest(1) by simp
    then show ?thesis using finish_get_steps [OF s _ rest(2)] by blast
  next
    case other
    then have f: "frame_ok c f" and rest: "stack_ok c rest" using k stack_ok_pop [OF s k] by (auto simp: stack_ok_def)
    show ?thesis
      using r
    proof (cases rule: lib_step_cases)
      case (given h x n hs rest')
      then have "stack_ok c rest'" using stack_ok_pop [OF s, of "F_user x n hs" rest'] rest by simp
      then show ?thesis using given s by (auto simp: steps_to_def intro: stack_ok_Cons)
    next
      case performed
      then show ?thesis using sound_steps [OF perform_sound [OF s f e] rest] by auto
    qed (use other in auto)
  qed
qed

lemma get_steps:
  assumes s: "shared_ready c" and k: "stack_ok c rest" and r: "api_step (Get i) hs c = Some (c', hs', fs)"
  shows "steps_to c c' (fs @ F_user x n hs' # rest)"
proof -
  have *: "is_future (var i hs)" "hs' = hs" "c' = fst (future_get i (var i hs) c)" "fs = snd (future_get i (var i hs) c)"
    using r by (auto simp: call_Some split: if_splits)
  show ?thesis
  proof (cases "state_of (var i hs)")
    case None
    then show ?thesis using * s k by (auto simp: future_eq no_state_def steps_to_def intro!: stack_ok_Cons)
  next
    case (Some a)
    obtain c1 fs1 where w: "push a (C_wait (length (waits c))) (c\<lparr>waits := waits c @ [a]\<rparr>) = (c1, fs1)" by fastforce
    then have e: "wait a c = (c1, fs1 @ [F_await (length (waits c))])" by (simp add: wait_def)
    have so: "sound c (c1, fs1 @ [F_await (length (waits c))])" using wait_sound [OF s, of a] e by simp
    have "waits c1 = waits c @ [a]"
      using arg_cong [OF w, of fst] by (auto simp: push_def with_obj_def crash_with_def split: option.splits)
    then have "stack_ok c1 (F_await (length (waits c)) # F_get i # F_user x n hs # rest)"
      using Some stack_ok_grows [OF _ k] so by (auto simp: stack_ok_def sound_pair intro: gets_weaken)
    then have "stack_ok c1 (fs1 @ F_await (length (waits c)) # F_get i # F_user x n hs # rest)"
      using so by (intro stack_ok_append) (auto simp: sound_pair)
    then show ?thesis using * Some e so by (auto simp: future_eq steps_to_def sound_pair)
  qed
qed

lemma user_steps:
  assumes s: "shared_ready c" and k: "stack_ok c rest" and r: "user_step cm x n hs rest c = Some (c', st)"
  shows "steps_to c c' st"
  using r
proof (cases rule: user_step_cases)
  case returned
  have "stack_ok c st" using returned(1)
  proof (cases rule: return_step_cases)
    case (result a t r hs')
    then show ?thesis by (cases r) (auto intro!: leave_ok k)
  qed (auto intro!: leave_ok k)
  then show ?thesis using s returned by (simp add: steps_to_def)
next
  case (called hs' fs)
  show ?thesis
  proof (cases "\<exists>i. cm = Get i")
    case True
    then show ?thesis using get_steps [OF s k] called by auto
  next
    case False
    then show ?thesis using sound_user [OF api_sound [OF s called(1)] k] called(2) by simp
  qed
next
  case (posted j g fs)
  let ?c = "c\<lparr>posted := take j (posted c) @ drop (j + 1) (posted c)\<rparr>" let ?k = "snd (posted c ! j)"
  have p: "j < length (posted c)" "c' = fst (g ?k ?c)" "fs = snd (g ?k ?c) @ [F_noexcept]"
    using posted(2) by (auto elim!: take_posted_Some)
  have e: "heap ?c = heap c" "log ?c = log c" "waits ?c = waits c" by simp_all
  have s': "shared_ready ?c"
    by (rule cong_ready [OF s e]) (auto dest: in_set_takeD in_set_dropD)
  have "task_ok c ?k" using s p(1) by (simp add: shared_ready_def)
  then have k': "task_ok ?c ?k" unfolding ready_cong [OF e] .
  have "sound ?c (g ?k ?c)"
    using posted(1) run_task_sound [OF s' k'] dtor_sound(5) [OF s', of ?k] by blast
  then have "sound c (g ?k ?c)" by (rule sound_trans) (rule ready_cong(10) [OF e])
  then have "sound c (c', fs)" using p by (auto simp: sound_def)
  then show ?thesis using sound_user [OF _ k] posted(3) by simp
qed

lemma machine_steps:
  assumes i: "ready_inv c" "result_inv c" and r: "machine_step t l c = Some c'"
  shows "ready_inv c' \<and> grows c c'"
  using r
proof (cases rule: machine_stepE)
  case (1 f rest c1 st)
  let ?c = "set_stack t rest c"
  have e: "heap ?c = heap c" "log ?c = log c" "waits ?c = waits c" "posted ?c = posted c" "signalled ?c = signalled c"
    by (simp_all add: set_stack_def)
  note cong = ready_cong [OF e(1-3)]
  have gets: "gets ?c = gets c"
  proof (intro ext)
    fix p fs show "gets ?c p fs = gets c p fs" by (induction fs arbitrary: p) (simp_all add: cong e)
  qed
  have ok: "stack_ok ?c = stack_ok c" by (auto simp: fun_eq_iff stack_ok_def gets cong)
  have s: "shared_ready ?c" by (rule cong_ready) (use i(1) e in \<open>auto simp: ready_inv_def\<close>)
  have k: "stack_ok ?c (f # rest)" using i(1) 1(1,2) ok unfolding ready_inv_def by (metis nth_mem)
  have "steps_to ?c c1 st"
    using 1(3)
  proof (cases rule: top_step_cases)
    case (user x n hs cm)
    then show ?thesis using user_steps [OF s] stack_ok_pop [OF s k] by auto
  next
    case lib
    show ?thesis
    proof (rule lib_steps [OF s k lib])
      fix a b t' w assume u: "f = F_unwrap a (Some b) t'" "obj_at ?c a = Some w"
      then have "tokens c' (Store a) < tokens c (Store a)"
        using step_uses_up [OF 1(1,2,4,5)] unwrap_uses_up [OF 1(3)] by blast
      then have "0 < tokens c (Store a)" by simp
      then show "store w = S_empty" using i(2) u(2) unfolding result_inv_def by simp
    qed
  qed
  then have st: "grows c c1" "shared_ready c1" "stack_ok c1 st" using cong by (auto simp: steps_to_def)
  have e': "heap c' = heap c1" "log c' = log c1" "waits c' = waits c1" "posted c' = posted c1" "signalled c' = signalled c1"
    by (simp_all add: 1(4) set_stack_def)
  have g: "grows c c'" using grows_trans [OF st(1) ready_cong(10) [OF e'(1-3)]] .
  have "shared_ready c'" by (rule cong_ready [OF st(2)]) (use e' in auto)
  moreover have "stack_ok c' fs" if "fs \<in> set (stacks c')" for fs
  proof -
    have "fs = st \<or> fs \<in> set (stacks c)" using that set_update_subset_insert 1(5) by (metis insertE subsetD)
    then show ?thesis
      using st(3) stack_ok_grows [OF ready_cong(10) [OF e'(1-3)]] stack_ok_grows [OF g] i(1) by (auto simp: ready_inv_def)
  qed
  ultimately show ?thesis using g by (simp add: ready_inv_def)
qed

lemma ready_inv_init: "ready_inv (machine_init n)"
  by (auto simp: ready_inv_def shared_ready_def stack_ok_def machine_init_def obj_at_def was_ready_def)

text \<open>Results and readiness together are an invariant of the machine.\<close>

interpretation machine_ready: invariant_system "\<lambda>c. \<exists>n. c = machine_init n" mstep "\<lambda>c. result_inv c \<and> ready_inv c"
  by unfold_locales (auto simp: mstep_def result_inv_init ready_inv_init intro: result_inv_step dest: machine_steps)

lemma reach_ready: "run mstep (machine_init n) ls c \<Longrightarrow> ready_inv c"
  using machine_ready.run_inv by blast

section \<open>What the invariant gives\<close>

lemma held_alive: "mem_inv c \<Longrightarrow> A_strong a \<in> atoms c \<Longrightarrow> alive c a"
  using mem_ok_atoms [of "\<lambda>_. True" c "{}" "A_strong a"] by (simp add: mem_inv_def atom_ok.simps)

lemma ready_alive_executed:
  assumes "shared_ready c" "was_ready c a" "alive c a"
  shows "executed c a"
proof -
  obtain w where w: "obj_at c a = Some w" using assms(3) by (auto simp: alive_def)
  then have "conts w = None" using obj_ready_at [OF assms(1) w] assms(2) by (cases "conts w") (auto simp: obj_ready_def)
  then show ?thesis by (simp add: executed_def w)
qed

text \<open>Where a ready state forwards to is ready, and was so before.\<close>

lemma forward_ready:
  assumes s: "shared_ready c" and m: "mem_inv c" and e: "executed c a"
    and w: "obj_at c a = Some w" "\<not> is_seq (body w)" "store w = S_fwd b"
  shows "executed c b \<and> rank c b < rank c a"
proof -
  have o: "obj_ready c a w" by (rule obj_ready_at [OF s w(1)])
  have n: "conts w = None" using e w(1) by (simp add: executed_def)
  have r: "was_ready c b" "rank c b < rank c a" using o n w(2,3) by (auto simp: obj_ready_def settled_def)
  have "A_strong b \<in> atoms c" using w(3) by (intro obj_atoms_in [OF w(1)]) (simp add: obj_atoms_def)
  then show ?thesis using ready_alive_executed [OF s r(1)] held_alive [OF m] r(2) by blast
qed

lemma result_read:
  assumes "shared_ready c" "mem_inv c" "executed c a"
  shows "(\<exists>g. value_ref c a = Some (Gives g) \<and> exception_of c a = Some (Gives None)) \<or>
    (\<exists>e. value_ref c a = Some (Throws e) \<and> exception_of c a = Some (Gives (Some e)))"
  using assms(3)
proof (induction "rank c a" arbitrary: a rule: less_induct)
  case less
  obtain w where w: "obj_at c a = Some w" using less.prems by (auto simp: executed_def split: option.splits)
  have n: "conts w = None" using less.prems w by (simp add: executed_def)
  have o: "settled c w" using obj_ready_at [OF assms(1) w] n by (simp add: obj_ready_def)
  show ?case
  proof (cases "is_seq (body w)")
    case True
    then show ?thesis using less.prems w
      by (cases "body w") (simp_all add: value_ref.simps [of c a] exception_of.simps [of c a])
  next
    case False
    have v: "value_ref c a = (case store w of S_empty \<Rightarrow> Some Asserts | S_value v \<Rightarrow> Some (Gives (V_value v))
        | S_fwd b \<Rightarrow> value_ref c b | S_error e \<Rightarrow> Some (Throws e))"
      using less.prems w False by (subst value_ref.simps) (cases "body w", auto)
    have x: "exception_of c a = (case store w of S_empty \<Rightarrow> Some Asserts | S_value v \<Rightarrow> Some (Gives None)
        | S_fwd b \<Rightarrow> exception_of c b | S_error e \<Rightarrow> Some (Gives (Some e)))"
      using less.prems w False by (subst exception_of.simps) (cases "body w", auto)
    show ?thesis
    proof (cases "store w")
      case (S_fwd b)
      then have b: "executed c b \<and> rank c b < rank c a"
        using forward_ready [OF assms(1,2) less.prems w False] by simp
      show ?thesis unfolding v x S_fwd storage.case using less.hyps [of b] b by simp
    qed (use o False v x in \<open>auto simp: settled_def\<close>)
  qed
qed

text \<open>What is read depends on the heap only.\<close>

lemma value_ref_heap:
  assumes "value_ref c a = Some r" "heap c' = heap c"
  shows "value_ref c' a = Some r"
proof -
  have "\<forall>c'. heap c' = heap c \<longrightarrow> value_ref c' a = Some r"
    using _ assms(1)
  proof (rule value_ref.raw_induct [of "\<lambda>c a r. \<forall>c'. heap c' = heap c \<longrightarrow> value_ref c' a = Some r"])
    fix f :: "'a cfg \<Rightarrow> addr \<Rightarrow> 'a vref access option" and d b q
    assume ih: "\<And>c a r. f c a = Some r \<Longrightarrow> \<forall>c'. heap c' = heap c \<longrightarrow> value_ref c' a = Some r"
      and f: "(if \<not> executed d b then Some Asserts else
       case obj_at d b of None \<Rightarrow> Some Asserts | Some w \<Rightarrow>
       (case body w of
          B_all _ _ \<Rightarrow> Some (Gives (V_all b))
        | B_any _ _ _ \<Rightarrow> Some (Gives (V_any b))
        | _ \<Rightarrow> (case store w of
            S_empty \<Rightarrow> Some Asserts
          | S_value v \<Rightarrow> Some (Gives (V_value v))
          | S_fwd b \<Rightarrow> f d b
          | S_error e \<Rightarrow> Some (Throws e)))) = Some q"
    show "\<forall>c'. heap c' = heap d \<longrightarrow> value_ref c' b = Some q"
    proof (intro allI impI)
      fix c' :: "'a cfg" assume h: "heap c' = heap d"
      have o: "obj_at c' = obj_at d" by (rule obj_at_heap) (rule h)
      have x: "executed c' b = executed d b" by (simp add: executed_def o)
      show "value_ref c' b = Some q"
      proof (cases "obj_at d b")
        case None
        then show ?thesis using f by (subst value_ref.simps) (simp add: o x split: if_splits)
      next
        case (Some w)
        show ?thesis using f ih h
          by (subst value_ref.simps) (cases "body w"; cases "store w"; simp add: o x Some split: if_splits)
      qed
    qed
  qed
  then show ?thesis using assms(2) by blast
qed

lemma finish_get_result:
  assumes "state_of (var i hs) = Some a"
  shows "value_ref c a = Some (Gives g) \<Longrightarrow>
      \<exists>c1 st. finish_get i x n hs rest c = Some (c1, st) \<and> log c1 = log c @ [E_got g] \<and> crashed c1 = crashed c \<and> stacks c1 = stacks c"
    "value_ref c a = Some (Throws e) \<Longrightarrow> \<exists>st. finish_get i x n hs rest c = Some (c, st) \<and> F_raise e \<in> set st"
proof -
  have take: "log (fst (take_result g c)) = log c" "crashed (fst (take_result g c)) = crashed c"
    by (auto simp: take_result_def take_futures_def set_obj_def split: vref.splits option.splits body.splits)
  consider "var i hs = H_future (Some a)" | "var i hs = H_shared (Some a)" using assms by (cases "var i hs") auto
  then show "value_ref c a = Some (Gives g) \<Longrightarrow>
      \<exists>c1 st. finish_get i x n hs rest c = Some (c1, st) \<and> log c1 = log c @ [E_got g] \<and> crashed c1 = crashed c \<and> stacks c1 = stacks c"
  proof cases
    case 1
    obtain c2 gs where "take_result g c = (c2, gs)" by fastforce
    moreover assume "value_ref c a = Some (Gives g)"
    ultimately show ?thesis using 1 take take_result_stacks [of g c] by (simp add: finish_get_def observe_def)
  next
    case 2
    moreover assume "value_ref c a = Some (Gives g)"
    ultimately show ?thesis by (simp add: finish_get_def observe_def)
  qed
  show "value_ref c a = Some (Throws e) \<Longrightarrow> \<exists>st. finish_get i x n hs rest c = Some (c, st) \<and> F_raise e \<in> set st"
    using assms by (cases "var i hs") (auto simp: finish_get_def)
qed

lemma stack_frame: "ready_inv c \<Longrightarrow> fs \<in> set (stacks c) \<Longrightarrow> f \<in> set fs \<Longrightarrow> frame_ok c f \<or> (\<exists>i. f = F_get i)"
  unfolding ready_inv_def stack_ok_def by blast

lemma stack_atoms: "fs \<in> set (stacks c) \<Longrightarrow> f \<in> set fs \<Longrightarrow> x \<in> frame_atoms f \<Longrightarrow> x \<in> atoms c"
  by (auto simp: atoms_def frames_atoms_def)

text \<open>The future whose result a thread is about to read.\<close>

lemma get_target:
  assumes i: "ready_inv c" and t: "t < length (stacks c)" "stacks c ! t = F_get i # rest"
  obtains x n hs rest' a where "rest = F_user x n hs # rest'" "state_of (var i hs) = Some a" "was_ready c a" "A_strong a \<in> atoms c"
proof -
  have fs: "stacks c ! t \<in> set (stacks c)" using t(1) by simp
  then have "gets c None (F_get i # rest)" using i t(2) by (auto simp: ready_inv_def stack_ok_def)
  then obtain x n hs rest' a where u: "rest = F_user x n hs # rest'" "state_of (var i hs) = Some a" "was_ready c a"
    by auto
  have "A_strong a \<in> frame_atoms (F_user x n hs :: 'a frame)"
    using state_of_atoms [of "var i hs"] var_atoms [of i hs] u(2) by auto
  then have "A_strong a \<in> atoms c" by (intro stack_atoms [OF fs, of "F_user x n hs"]) (simp_all add: t(2) u(1))
  then show thesis using that u by blast
qed

section \<open>Properties\<close>

text \<open>
  Examples: a continuation that is about to run; a \<open>get\<close> that stops waiting and one that
  reads; and the execution that the last property is about.
\<close>

definition next_labels :: "(nat \<times> nat cmd option) list" where
  "next_labels = [(0, Some (Make_promise None)), (0, Some (Next 1 False Inplace (user_fn 7) [])), (0, None),
     (0, Some (Set_value 0 42))] @ replicate 6 (0, None)"

definition next_cfg :: "nat cfg" where
  "next_cfg = the (exec_steps next_labels (machine_init 1))"

lemma next_run: "run mstep (machine_init 1) next_labels next_cfg"
  unfolding next_cfg_def by (rule exec_reach) code_simp

definition await_labels :: "nat \<Rightarrow> (nat \<times> nat cmd option) list" where
  "await_labels k = set_labels @ replicate 5 (0, None) @ [(0, Some (Get 1))] @ replicate k (0, None)"

definition await_cfg :: "nat \<Rightarrow> nat cfg" where
  "await_cfg k = the (exec_steps (await_labels k) (machine_init 1))"

lemma await_run:
  "run mstep (machine_init 1) (await_labels 4) (await_cfg 4)" "run mstep (machine_init 1) (await_labels 5) (await_cfg 5)"
  unfolding await_cfg_def by (rule exec_reach, code_simp)+

definition lost_labels :: "(nat \<times> nat cmd option) list" where
  "lost_labels = [(0, Some (Make_promise None)), (0, Some (Share 1)), (0, Some (Copy 2)),
     (0, Some (Async (Executor 0) (user_fn 9) [0, 3])), (0, None), (0, None), (0, Some (Wait 2)),
     (1, Some (Run_posted 0)), (1, None), (1, Some (Notify 1 (user_fn 7) [])), (1, Some (Set_value 0 42)),
     (1, None), (1, None), (1, None), (1, Some (Throw (User_exn 1)))] @ replicate 10 (1, None) @
     [(1, Some (Return_value 5))] @ replicate 19 (1, None) @ [(1, Some Return)]"

definition lost_cfg :: "nat cfg" where
  "lost_cfg = the (exec_steps lost_labels (machine_init 2))"



text \<open>
  C5. A continuation runs after its parent: whenever a thread is about to call the function of
  a continuation, the state that it was attached to is alive and ready.
\<close>

theorem continuation_after_parent:
  assumes "run mstep (machine_init n) ls c" "fs \<in> set (stacks c)" "F_apply k a \<in> set fs"
  shows "executed c (a_parent k)"
proof -
  have i: "ready_inv c" "mem_inv c" using reach_ready reach_mem assms(1) by blast+
  have "was_ready c (a_parent k)" using stack_frame [OF i(1) assms(2,3)] by simp
  moreover have "alive c (a_parent k)"
    by (rule held_alive [OF i(2)], rule stack_atoms [OF assms(2,3)]) (simp add: action_atoms_def)
  ultimately show ?thesis using ready_alive_executed i(1) by (auto simp: ready_inv_def)
qed

theorem continuation_after_parent_witness: "executed next_cfg 0"
proof -
  have "stacks next_cfg ! 0 \<in> set (stacks next_cfg)"
    "F_apply \<lparr>a_deco = Unique_next, a_func = user_fn 7, a_parent = 0\<rparr> 1 \<in> set (stacks next_cfg ! 0)"
    by code_simp+
  from continuation_after_parent [OF next_run this] show ?thesis by simp
qed

text \<open>
  C7. Waiting is for the state: a thread that goes on after \<open>wait\<close> or inside \<open>get\<close> does so after
  the state that it waits for was made ready.
\<close>

theorem wait_ends_ready:
  assumes "run mstep (machine_init n) ls c" "t < length (stacks c)" "stacks c ! t = F_await m # rest"
    "machine_step t None c = Some c'"
  shows "m < length (waits c) \<and> E_ready (waits c ! m) \<in> set (log c)"
proof -
  have "m \<in> signalled c"
    using assms(4) by (cases rule: machine_stepE) (use assms(3) in \<open>auto simp: top_step_def lib_step_def set_stack_def split: if_splits\<close>)
  then show ?thesis using reach_ready [OF assms(1)] by (auto simp: ready_inv_def shared_ready_def was_ready_def)
qed

theorem wait_ends_ready_witness: "E_ready 0 \<in> set (log (await_cfg 4))"
proof -
  have *: "0 < length (stacks (await_cfg 4))" "waits (await_cfg 4) ! 0 = 0"
    "stacks (await_cfg 4) ! 0 = F_await 0 # tl (stacks (await_cfg 4) ! 0)"
    "machine_step 0 None (await_cfg 4) = Some (await_cfg 5)"
    by code_simp+
  from wait_ends_ready [OF await_run(1) *(1,3,4)] *(2) show ?thesis by simp
qed



text \<open>
  C36. A throwing notification loses a wakeup: thread 0 waits for a promise's future, thread 1
  adds a notification and sets the value. The function of the notification throws, which ends
  the loop over the continuations before it gets to the one of the waiting call; thread 1 goes on
  to its end. The state is ready with its value, and thread 0 waits for ever.
\<close>

theorem notify_throw_loses_wakeup:
  "run mstep (machine_init 2) lost_labels lost_cfg \<and> executed lost_cfg 0 \<and>
    value_ref lost_cfg 0 = Some (Gives (V_value 42)) \<and> crashed lost_cfg = None \<and>
    waits lost_cfg ! 0 = 0 \<and> hd (stacks lost_cfg ! 0) = F_await 0 \<and> (\<forall>t l. machine_step t l lost_cfg = None)"
proof -
  have *: "executed lost_cfg 0" "value_ref lost_cfg 0 = Some (Gives (V_value 42))" "crashed lost_cfg = None"
    "waits lost_cfg ! 0 = 0" "length (stacks lost_cfg) = 2" "stacks lost_cfg ! 1 = []" "0 \<in> signalled lost_cfg = False"
    "stacks lost_cfg ! 0 = F_await 0 # tl (stacks lost_cfg ! 0)"
    by code_simp+
  have "run mstep (machine_init 2) lost_labels lost_cfg"
    unfolding lost_cfg_def by (rule exec_reach) code_simp
  moreover have "machine_step t l lost_cfg = None" for t l
  proof (cases "t < 2")
    case True
    then consider "t = 0" | "t = 1" by linarith
    then show ?thesis
    proof cases
      case 1
      then show ?thesis using *(3,5,7,8)
        by (cases l) (auto simp: machine_step_def top_step_def lib_step_def set_stack_def split: list.splits)
    qed (use * in \<open>simp add: machine_step_def\<close>)
  qed (use * in \<open>simp add: machine_step_def\<close>)
  ultimately show ?thesis using * by (metis list.sel(1))
qed

end
