(* ===== verification/No_Crash.thy ===== *)
theory No_Crash
  imports Readiness
begin

text \<open>
  How an execution of the machine can crash. The continuations are always in the state
  that the calls on them rely on (\<open>cnt_ok\<close>), a sequence that is being subscribed to has all
  its futures because nobody else can read it yet (\<open>subs_inv\<close>), and results are read only when
  they are there. So a step crashes only where user code makes it: by an exception that
  leaves a \<open>noexcept\<close> function or a thread, or by a task that is used while it runs.
\<close>

section \<open>Continuations\<close>

text \<open>Who may hand a continuation to its executor may run it, who may run it may store its result.\<close>

lemma sum_list_map_le: "(\<And>x. x \<in> set xs \<Longrightarrow> g x \<le> h x) \<Longrightarrow> sum_list (map g xs) \<le> sum_list (map (h :: 'b \<Rightarrow> nat) xs)"
  by (induction xs) (auto intro: add_mono)

lemma sum_list_map_less:
  "(\<And>x. x \<in> set xs \<Longrightarrow> g x \<le> h x) \<Longrightarrow> y \<in> set xs \<Longrightarrow> g y < h y \<Longrightarrow>
    sum_list (map g xs) < sum_list (map (h :: 'b \<Rightarrow> nat) xs)"
proof (induction xs)
  case (Cons x xs)
  have "sum_list (map g xs) \<le> sum_list (map h xs)" using Cons.prems(1) by (intro sum_list_map_le) simp
  moreover have "g x \<le> h x" using Cons.prems(1) by simp
  ultimately show ?case using Cons by (auto simp: add_le_less_mono add_less_le_mono)
qed simp

lemma sum_list_pos_iff: "0 < sum_list (map g xs) \<longleftrightarrow> (\<exists>x \<in> set xs. 0 < (g x :: nat))"
  by (induction xs) auto

inductive below :: "right \<Rightarrow> right \<Rightarrow> bool" where
  "below (Sched a) (Run a)"
| "below (Run a) (Store a)"

lemma below_le:
  assumes "below q r"
  shows "cont_tok q k \<le> cont_tok r k" "conts_tok q ks \<le> conts_tok r ks" "task_tok q p \<le> task_tok r p"
    "frame_tok q f \<le> frame_tok r f" "frames_tok q fs \<le> frames_tok r fs" "obj_tok q b w \<le> obj_tok r b w"
proof -
  show 1: "cont_tok q k \<le> cont_tok r k" for k using assms by (cases k; auto elim!: below.cases)
  show 2: "conts_tok q ks \<le> conts_tok r ks" for ks unfolding conts_tok_def by (rule sum_list_map_le) (rule 1)
  show 3: "task_tok q p \<le> task_tok r p" for p
    using assms by (cases "(q, p)" rule: task_tok.cases; auto elim!: below.cases)
  show 4: "frame_tok q f \<le> frame_tok r f" for f
    using assms 2 3 by (cases "(q, f)" rule: frame_tok.cases; auto elim!: below.cases)
  show "frames_tok q fs \<le> frames_tok r fs" unfolding frames_tok_def by (rule sum_list_map_le) (rule 4)
  show "obj_tok q b w \<le> obj_tok r b w"
    using assms 2 by (auto simp: obj_tok_def add_mono elim!: below.cases split: option.splits)
qed

lemma below_shared: "below q r \<Longrightarrow> shared_tok c q \<le> shared_tok c r"
  unfolding shared_tok_def heap_tok_def posted_tok_def
  by (intro add_mono sum_mono sum_list_map_le) (auto simp: below_le split: option.splits)

lemma tokens_below: "below q r \<Longrightarrow> tokens c q \<le> tokens c r"
  unfolding tokens_def stacks_tok_def using below_shared below_le(5)
  by (intro add_mono sum_list_map_le) blast+

lemma tokens_strictly_below:
  assumes "below q r" "fs \<in> set (stacks c)" "f \<in> set fs" "frame_tok q f < frame_tok r f"
  shows "tokens c q < tokens c r"
proof -
  have "frames_tok q fs < frames_tok r fs"
    unfolding frames_tok_def using below_le(4) [OF assms(1)] assms(3,4) by (intro sum_list_map_less)
  then have "stacks_tok c q < stacks_tok c r"
    unfolding stacks_tok_def using below_le(5) [OF assms(1)] assms(2) by (intro sum_list_map_less)
  then show ?thesis using below_shared [OF assms(1), of c] by (simp add: tokens_def)
qed

text \<open>A continuation that is still to be handed to its executor has both, one that is to be run its action.\<close>

definition cnt_ok :: "'v cfg \<Rightarrow> bool" where
  "cnt_ok c \<longleftrightarrow> (\<forall>a w ex k. obj_at c a = Some w \<longrightarrow> body w = B_cnt ex k \<longrightarrow>
     (0 < tokens c (Sched a) \<longrightarrow> ex \<noteq> None) \<and> (0 < tokens c (Run a) \<longrightarrow> k \<noteq> None))"

lemma rights_Run:
  assumes "Run a \<in> rights f"
  obtains ks ks' where "f = F_loop (C_schedule a # ks) ks'" | "f = F_run a" | "f = F_clean_action a"
proof -
  have "Run a \<in> cont_rights k \<Longrightarrow> k = C_schedule a" for k by (cases k) auto
  then show thesis using assms that by (cases f rule: rights.cases) auto
qed

lemma frame_token:
  assumes "t < length (stacks c)" "stacks c ! t = f # rest" "0 < frame_tok r f"
  shows "0 < tokens c r"
proof -
  have "0 < frames_tok r (stacks c ! t)" using assms(2,3) by simp
  then have "0 < stacks_tok c r"
    unfolding stacks_tok_def sum_list_pos_iff using assms(1) by (blast intro: nth_mem)
  then show ?thesis by (simp add: tokens_def)
qed

lemma cnt_ok_step:
  assumes i: "result_inv c" and k: "cnt_ok c" and r: "machine_step t l c = Some c'"
  shows "cnt_ok c'"
  unfolding cnt_ok_def
proof (intro allI impI)
  fix a w' ex' k' assume w': "obj_at c' a = Some w'" "body w' = B_cnt ex' k'"
  have i': "result_inv c'" using result_inv_step [OF i r] .
  then have one: "tokens c' (Store a) \<le> 1" by (simp add: result_inv_def)
  have low: "tokens c' (Sched a) \<le> tokens c' (Run a)" "tokens c' (Run a) \<le> tokens c' (Store a)"
    by (simp_all add: tokens_below below.intros)
  show "(0 < tokens c' (Sched a) \<longrightarrow> ex' \<noteq> None) \<and> (0 < tokens c' (Run a) \<longrightarrow> k' \<noteq> None)"
    using r
  proof (cases rule: machine_stepE)
    case (1 f rest c1 st)
    have ev: "evolves (rights f) c c'" using moves_step [OF r] 1(7) by (simp add: moves_def)
    have old: "a < length (heap c)" if R: "Run a \<in> rights f"
      using R
    proof (cases rule: rights_Run)
      case 3
      then have "writer c a" using top_frame_atoms [OF 1(1,2)] by (auto simp: writer_def)
      then show ?thesis using i writer_exists by (auto simp: result_inv_def)
    qed (use token_exists [of c "Run a"] frame_token [OF 1(1,2), of "Run a"] i in \<open>auto simp: result_inv_def\<close>)
    show ?thesis
    proof (cases "Run a \<in> rights f")
      case False
      show ?thesis
      proof (cases "a < length (heap c)")
        case True
        then obtain w where w: "obj_at c a = Some w" "obj_ages (rights f) a w w'"
          using ev w'(1) unfolding evolves_def by blast
        then have "body w = body w'" using False w'(2) by (cases "body w") (auto simp: obj_ages_def)
        then show ?thesis
          using k w(1) w'(2) step_old_token [OF i r, of "Sched a"] step_old_token [OF i r, of "Run a"] True
          unfolding cnt_ok_def by auto
      next
        case new: False
        then have "born (rights f) a w'" using ev w'(1) unfolding evolves_def by blast
        then show ?thesis using False w'(2) by (auto simp: born_def)
      qed
    next
      case True
      obtain w where w: "obj_at c a = Some w" "obj_ages (rights f) a w w'"
        using ev w'(1) old [OF True] unfolding evolves_def by blast
      obtain ex q where b: "body w = B_cnt ex q" using w(2) w'(2) by (cases "body w") (auto simp: obj_ages_def)
      have wc: "obj_at (set_stack t rest c) a = Some w" using w(1) by (simp add: set_stack_def obj_at_def)
      have lib: "lib_step f rest (set_stack t rest c) = Some (c1, st)"
        using 1(3) True by (cases rule: top_step_cases) auto
      have st: "st \<in> set (stacks c')" using 1(1,5) by (auto intro: set_update_memI)
      from True show ?thesis
      proof (cases rule: rights_Run)
        case (1 ks ks')
        have R: "0 < tokens c (Sched a)" "0 < tokens c (Run a)"
          using frame_token [OF \<open>t < length (stacks c)\<close> \<open>stacks c ! t = f # rest\<close>] 1 by simp_all
        then obtain e q' where e: "ex = Some e" "q = Some q'" using k w(1) b unfolding cnt_ok_def by blast
        have "st = F_release a # F_post e (T_cnt (Some a)) # F_loop ks (ks' @ [called_cont (C_schedule a)]) # rest"
          "c1 = set_obj a (w\<lparr>body := B_cnt None q\<rparr>) (set_stack t rest c)"
          using lib wc b e by (auto simp: 1 lib_step_def call_cont_def schedule_def)
        then have "F_post e (T_cnt (Some a)) \<in> set st" "k' = q"
          using w'  \<open>obj_at c' = obj_at c1\<close> obj_at_less [OF wc] by (auto simp: obj_at_set_obj)
        moreover from this have "tokens c' (Sched a) < tokens c' (Run a)"
          by (intro tokens_strictly_below [OF _ st]) (auto intro: below.intros)
        ultimately show ?thesis using low one e by simp
      next
        case 2
        have R: "0 < tokens c (Run a)"
          using frame_token [OF \<open>t < length (stacks c)\<close> \<open>stacks c ! t = f # rest\<close>] 2 by simp
        then obtain q' where e: "q = Some q'" using k w(1) b unfolding cnt_ok_def by blast
        have "st = F_apply q' a # F_noexcept # rest"
          using lib wc b e by (auto simp: 2 lib_step_def run_cnt_def)
        then have "tokens c' (Run a) < tokens c' (Store a)"
          by (intro tokens_strictly_below [OF _ st, of _ _ "F_apply q' a"]) (auto intro: below.intros)
        then show ?thesis using low one by simp
      next
        case 3
        then have "writer c a"
          using top_frame_atoms [OF \<open>t < length (stacks c)\<close> \<open>stacks c ! t = f # rest\<close>] by (auto simp: writer_def)
        then have "tokens c (Store a) = 0" using i by (simp add: result_inv_def)
        then have "tokens c' (Store a) = 0" using step_old_token [OF i r, of "Store a"] old [OF True] by auto
        then show ?thesis using low by simp
      qed
    qed
  qed
qed

section \<open>Sequences of futures\<close>

text \<open>The futures of a sequence, and the sequences whose futures are being subscribed to.\<close>

fun sequence :: "body \<Rightarrow> handle list option" where
  "sequence (B_all hs _) = Some hs"
| "sequence (B_any hs _ _) = Some hs"
| "sequence _ = None"

definition full :: "'v obj \<Rightarrow> bool" where
  "full w \<longleftrightarrow> (\<exists>hs. sequence (body w) = Some hs \<and> (\<forall>h \<in> set hs. valid h))"

definition subscribing :: "'v cfg \<Rightarrow> addr \<Rightarrow> bool" where
  "subscribing c a \<longleftrightarrow> (\<exists>fs \<in> set (stacks c). \<exists>f \<in> set fs. subscribes f a)"

text \<open>A sequence that is still being subscribed to has all its futures, and nobody can read it.\<close>

definition subs_inv :: "'v cfg \<Rightarrow> bool" where
  "subs_inv c \<longleftrightarrow> (\<forall>a. subscribing c a \<longrightarrow> A_future a \<notin> atoms c \<and> (\<exists>w. obj_at c a = Some w \<and> full w))"

subsection \<open>The right to subscribe\<close>

lemma subs_tok: "frame_tok (Subs a) f = one_if (subscribes f a)"
proof -
  have "cont_tok (Subs a) k = 0" for k by (cases k) auto
  then have k: "conts_tok (Subs a) ks = 0" for ks by (simp add: conts_tok_def)
  have "task_tok (Subs a) k = 0" for k by (cases "(Subs a, k)" rule: task_tok.cases) auto
  with k show ?thesis by (cases "(Subs a, f)" rule: frame_tok.cases) (auto simp: one_if_def)
qed

lemma subscribing_tok: "subscribing c a \<longleftrightarrow> 0 < stacks_tok c (Subs a)"
  by (simp add: stacks_tok_def frames_tok_def sum_list_pos_iff subs_tok subscribing_def)

lemma tok_subscribing:
  assumes "0 < tokens c (Subs a)"
  shows "subscribing c a \<or> (\<exists>w f. obj_at c a = Some w \<and> body w = B_task (Fn_ready f))"
proof -
  have "cont_tok (Subs a) k = 0" "task_tok (Subs a) q = 0" for k q
    by (cases k; simp) (cases "(Subs a, q)" rule: task_tok.cases; simp)
  then have k: "conts_tok (Subs a) ks = 0" "posted_tok c (Subs a) = 0" for ks
    by (simp_all add: conts_tok_def posted_tok_def)
  consider "0 < stacks_tok c (Subs a)" | "0 < heap_tok c (Subs a)"
    using assms k by (auto simp: tokens_def shared_tok_def)
  then show ?thesis
  proof cases
    case 2
    then obtain b where "0 < (case obj_at c b of None \<Rightarrow> 0 | Some w \<Rightarrow> obj_tok (Subs a) b w)"
      unfolding heap_tok_def by (blast dest: sum_pos_ex)
    then obtain w where "obj_at c b = Some w" "b = a" "0 < body_tok (body w)"
      by (auto simp: obj_tok_def k split: option.splits if_splits)
    then show ?thesis by (cases "body w" rule: body_tok.cases) auto
  qed (simp add: subscribing_tok)
qed

lemma subscribing_seq:
  assumes m: "mem_inv c" and s: "subscribing c a"
  obtains w where "obj_at c a = Some w" "is_seq (body w)"
proof -
  obtain fs f where f: "fs \<in> set (stacks c)" "f \<in> set fs" "subscribes f a" using s by (auto simp: subscribing_def)
  then obtain k where "A_strong a \<in> frame_atoms f" "A_kind k a \<in> frame_atoms f" "k \<in> {K_all, K_any}"
    by (cases "(f, a)" rule: subscribes.cases) auto
  then have "atom_ok (\<lambda>_. True) c (A_strong a)" "atom_ok (\<lambda>_. True) c (A_kind k a)" "k \<in> {K_all, K_any}"
    using m stack_atoms [OF f(1,2)] mem_ok_atoms [of "\<lambda>_. True" c "{}"] unfolding mem_inv_def by blast+
  then obtain w where "obj_at c a = Some w" "fits k (body w)" "k \<in> {K_all, K_any}"
    by (auto simp: atom_ok.simps alive_def)
  then show thesis using that by (cases "body w") auto
qed

lemma step_subscribing:
  assumes i: "result_inv c" and r: "machine_step t l c = Some c'" and s: "subscribing c' a" and a: "a < length (heap c)"
  shows "subscribing c a"
proof (rule ccontr)
  assume no: "\<not> subscribing c a"
  have "0 < tokens c' (Subs a)" using s by (simp add: subscribing_tok tokens_def)
  then have "0 < tokens c (Subs a)" using step_old_token [OF i r] a by simp
  then obtain w f where w: "obj_at c a = Some w" "body w = B_task (Fn_ready f)" using tok_subscribing no by blast
  have "mem_inv c'" using machine_step_mem r i by (auto simp: result_inv_def)
  then obtain w' where w': "obj_at c' a = Some w'" "is_seq (body w')" using subscribing_seq s by blast
  have "body_ages (body w) (body w')"
    using moves_step [OF r] a w(1) w'(1) unfolding moves_def evolves_def obj_ages_def by fastforce
  then show False using w(2) w'(2) by auto
qed

subsection \<open>New subscriptions\<close>

text \<open>Only the commands that make a sequence start a subscription, to the new state.\<close>

abbreviation quiet :: "'v frame list \<Rightarrow> bool" where
  "quiet fs \<equiv> \<forall>f \<in> set fs. \<forall>a. \<not> subscribes f a"

lemma quiet_calls [simp]:
  "quiet (snd (push a k c))" "quiet (snd (wait a c))" "quiet (snd (no_state gs c))" "quiet (snd (raise r c))"
  "quiet (snd (task_call w c))" "quiet (snd (ask ans c))" "quiet (snd (promise_set_value w v c))"
  "quiet (snd (promise_set_exception w e c))" "quiet (snd (task_dtor w c))"
  "quiet (snd (cnt_action_dtor p c))" "quiet (snd (call_closure f c))"
  by (auto simp: push_def wait_def no_state_def raise_def task_call_def ask_def promise_set_value_def promise_set_exception_def
      get_state_def task_dtor_def cnt_action_dtor_def call_closure_def with_obj_def crash_with_def lock_def invoke_def Let_def
      split: option.splits cont.splits sum.splits owner.splits if_splits)

lemma snd_append_case [simp]: "snd (case r of (c', fs) \<Rightarrow> (c', fs @ gs)) = snd r @ gs"
  by (simp add: case_prod_beta)

lemma quiet_future [simp]:
  "quiet (snd (future_wait h c))" "quiet (snd (future_get i h c))" "quiet (snd (detach h c))" "quiet (snd (is_ready h c))"
  "quiet (snd (notify h f c))" "quiet (snd (notify_on h ex f c))" "quiet (snd (attach d h ex f g c))"
  "quiet (snd (snd (future_then h ex f c)))" "quiet (snd (snd (future_then_promise h ex f c)))"
  "quiet (snd (snd (future_next h vd ex f c)))" "quiet (snd (make_ready_future v c))" "quiet (snd (make_exceptional_future e c))"
  "quiet (snd (async ex f c))" "quiet (snd (run_task k c))" "quiet (snd (task_dtor_frames k c))"
  by (auto simp: future_eq detach_eq future_then_eq attach_def make_then_state_def make_ready_future_def
      make_exceptional_future_def promise_ctor_def make_promise_def async_def packaged_task_def run_task_def task_dtor_frames_def Let_def
      split: option.splits task.splits)

lemma api_subscribes:
  assumes r: "api_step cm hs c = Some (c', hs', fs)" and g: "g \<in> set fs" "subscribes g a"
  shows "makes_sequence cm \<and> a = fresh c \<and> (\<exists>w. obj_at c' a = Some w \<and> full w)"
proof (cases "makes_sequence cm")
  case True
  have all: "list_all valid gs \<Longrightarrow> \<forall>h \<in> set gs. valid h" for gs by (simp add: list_all_iff)
  from True show ?thesis
    by (cases cm rule: makes_sequence.cases)
      (use r g all in \<open>auto simp: call_Some when_all_make_def when_any_make_def when_all_range_def obj_at_new_obj full_def
         range_futures_empty split: option.splits if_splits prod.splits\<close>)
next
  case False
  have "quiet fs"
  proof (cases cm)
    case (Get_future i w)
    then show ?thesis using r by (auto simp: raise_def dest!: retrieve_Some split: handle.splits)
  next
    case (Assign i j)
    then show ?thesis using r by (auto simp: assign_def Let_def split: if_splits option.splits)
  next
    case (Local lc)
    then show ?thesis using r by (auto dest!: local_step_frames split: option.splits)
  next
    case (Await_suspend i f "is")
    from await_suspend_Some [OF r [unfolded this]] show ?thesis by (auto elim!: attach_cmd_Some)
  next
    case (When_all_range "is" v)
    then show ?thesis using r False
      by (auto simp: call_Some when_all_range_def range_futures_def split: option.splits if_splits)
  qed (use r False in \<open>auto simp: call_Some with_closure_def elim!: attach_cmd_Some
    split: option.splits prod.splits handle.splits if_splits\<close>)
  then show ?thesis using g by blast
qed

lemma quiet_tok: "(\<And>f. f \<in> set fs \<Longrightarrow> \<not> subscribes f a) \<Longrightarrow> frames_tok (Subs a) fs = 0"
  unfolding frames_tok_def by (induction fs) (auto simp: subs_tok)

lemma top_frames_tok:
  assumes "t < length (stacks c)" "stacks c ! t = fs"
  shows "frames_tok r fs \<le> tokens c r"
  using assms member_le_sum_list [of "frames_tok r fs" "map (frames_tok r) (stacks c)"]
  by (auto simp: tokens_def stacks_tok_def)

lemma step_new_subscription:
  assumes i: "result_inv c" and r: "machine_step t l c = Some c'" and s: "subscribing c' a" and a: "\<not> a < length (heap c)"
  obtains w cm where "obj_at c' a = Some w" "full w" "a = fresh c" "l = Some cm" "makes_sequence (forwarded cm)"
  using r
proof (cases rule: machine_stepE)
  case (1 f rest c1 st)
  let ?c = "set_stack t rest c"
  have no: "tokens c (Subs a) = 0" using a token_exists [of c "Subs a"] i by (auto simp: result_inv_def)
  have set: "stacks_tok c' (Subs a) + frame_tok (Subs a) f + frames_tok (Subs a) rest = stacks_tok c (Subs a) + frames_tok (Subs a) st"
    using stacks_tok_set [OF 1(1), of st "Subs a"] 1(2,5) by (simp add: stacks_tok_def set_stack_def)
  have pos: "0 < frames_tok (Subs a) st" using s set no by (simp add: subscribing_tok tokens_def)
  have old: "shared_tok ?c (Subs a) = 0" "frames_tok (Subs a) (f # rest) = 0"
    using no top_frames_tok [OF 1(1,2), of "Subs a"] by (simp_all add: tokens_def)
  from 1(3) show thesis
  proof (cases rule: top_step_cases)
    case (user x n hs cm k)
    from user(3) show thesis
    proof (cases rule: user_step_cases)
      case returned
      then show thesis using return_tok [OF returned(1), of "Subs a"] old pos user(1) by simp
    next
      case (called hs' fs)
      have "frames_tok (Subs a) fs \<noteq> 0" using pos old called(2) user(1) by (simp add: subs_tok)
      then obtain g where "g \<in> set fs" "subscribes g a" by (metis quiet_tok)
      from api_subscribes [OF called(1) this] obtain w where
        w: "obj_at c1 a = Some w" "full w" "makes_sequence cm" "a = fresh c"
        by (auto simp: fresh_set_stack)
      have "obj_at c' a = Some w" using w(1) 1(6) by simp
      then show thesis using that w(2-4) user(2,4) by simp
    next
      case (posted j g fs)
      then have "quiet fs" by (auto elim!: take_posted_Some)
      then show thesis using pos old posted(3) user(1) by (simp add: quiet_tok subs_tok)
    qed
  next
    case lib
    then show thesis using lib_step_tok [OF lib, of "Subs a"] pos old by simp
  qed
qed

subsection \<open>Nobody reads a sequence before its future is given\<close>

lemma value_ref_future:
  assumes "value_ref c a = Some (Gives r)" "A_future a \<in> atoms c" "r = V_all b \<or> r = V_any b"
  shows "A_future b \<in> atoms c"
proof -
  have "A_future a \<in> atoms c \<longrightarrow> (\<forall>b. Gives r = Gives (V_all b) \<or> Gives r = Gives (V_any b) \<longrightarrow> A_future b \<in> atoms c)"
    using _ assms(1)
  proof (rule value_ref.raw_induct [of "\<lambda>c a r. A_future a \<in> atoms c \<longrightarrow>
      (\<forall>b. r = Gives (V_all b) \<or> r = Gives (V_any b) \<longrightarrow> A_future b \<in> atoms c)"])
    fix f :: "'a cfg \<Rightarrow> addr \<Rightarrow> 'a vref access option" and d a q
    assume ih: "\<And>c a r. f c a = Some r \<Longrightarrow> A_future a \<in> atoms c \<longrightarrow>
        (\<forall>b. r = Gives (V_all b) \<or> r = Gives (V_any b) \<longrightarrow> A_future b \<in> atoms c)"
      and f: "(if \<not> executed d a then Some Asserts else
       case obj_at d a of None \<Rightarrow> Some Asserts | Some w \<Rightarrow>
       (case body w of
          B_all _ _ \<Rightarrow> Some (Gives (V_all a))
        | B_any _ _ _ \<Rightarrow> Some (Gives (V_any a))
        | _ \<Rightarrow> (case store w of
            S_empty \<Rightarrow> Some Asserts
          | S_value v \<Rightarrow> Some (Gives (V_value v))
          | S_fwd b \<Rightarrow> f d b
          | S_error e \<Rightarrow> Some (Throws e)))) = Some q"
    show "A_future a \<in> atoms d \<longrightarrow> (\<forall>b. q = Gives (V_all b) \<or> q = Gives (V_any b) \<longrightarrow> A_future b \<in> atoms d)"
    proof (cases "obj_at d a")
      case None
      then show ?thesis using f by (auto split: if_splits)
    next
      case (Some w)
      have fwd': "A_future b \<in> atoms d" if "store w = S_fwd b" for b
        using that by (intro obj_atoms_in [OF Some]) (simp add: obj_atoms_def)
      consider "q = Asserts \<or> q = Gives (V_all a) \<or> q = Gives (V_any a) \<or> (\<exists>v. q = Gives (V_value v)) \<or> (\<exists>e. q = Throws e)"
        | (fwd) b where "store w = S_fwd b" "f d b = Some q"
        using f unfolding Some by (cases "body w"; cases "store w"; auto split: if_splits)
      then show ?thesis
      proof cases
        case (fwd b)
        then show ?thesis using ih [OF fwd(2)] fwd' by blast
      qed auto
    qed
  qed
  then show ?thesis using assms(2,3) by blast
qed

lemma take_result_other:
  assumes "\<And>b. r = V_all b \<or> r = V_any b \<Longrightarrow> a \<noteq> b"
  shows "obj_at (fst (take_result r c)) a = obj_at c a"
  using assms by (auto simp: take_result_def take_futures_def obj_at_set_obj split: vref.splits option.splits body.splits)

lemma set_stack_rest_atoms:
  assumes "t < length (stacks c)" "stacks c ! t = f # rest"
  shows "atoms (set_stack t rest c) \<subseteq> atoms c" "frames_atoms (f # rest) \<subseteq> atoms c" "frames_atoms rest \<subseteq> atoms (set_stack t rest c)"
proof -
  show f: "frames_atoms (f # rest) \<subseteq> atoms c" using assms frames_atoms_other [of "f # rest" c] by (metis nth_mem)
  show "atoms (set_stack t rest c) \<subseteq> atoms c" using set_stack_atoms [of _ t rest c] f by auto
  have "rest \<in> set (stacks (set_stack t rest c))" using assms(1) by (auto simp: set_stack_def intro: set_update_memI)
  then show "frames_atoms rest \<subseteq> atoms (set_stack t rest c)" by (rule frames_atoms_other)
qed

lemma step_sequence:
  assumes r: "machine_step t l c = Some c'" and a: "A_future a \<notin> atoms c"
    and w: "obj_at c a = Some w" "obj_at c' a = Some w'" "is_seq (body w)"
  shows "sequence (body w') = sequence (body w)"
  using r
proof (cases rule: machine_stepE)
  case (1 f rest c1 st)
  let ?c = "set_stack t rest c"
  have ages: "obj_ages (rights f) a w w'"
  proof -
    have "evolves (rights f) c c'" using moves_step [OF r] 1(7) by (simp add: moves_def)
    then obtain v where "obj_at c a = Some v" "obj_ages (rights f) a v w'"
      using obj_at_less [OF w(1)] w(2) unfolding evolves_def by blast
    then show ?thesis using w(1) by simp
  qed
  show ?thesis
  proof (cases "Subs a \<in> rights f")
    case False
    then show ?thesis using ages w(3) by (cases "body w") (auto simp: obj_ages_def)
  next
    case True
    have "Subs a \<notin> cont_rights k" for k by (cases k) auto
    then obtain i where f: "f = F_get i" using True by (cases f rule: rights.cases) auto
    have "lib_step f rest ?c = Some (c1, st)" using 1(3) f by (cases rule: top_step_cases) auto
    then obtain x n hs rest' where g: "rest = F_user x n hs # rest'" "finish_get i x n hs rest' ?c = Some (c1, st)"
      using f by (auto simp: lib_step_def split: list.splits frame.splits)
    have same: "obj_at ?c = obj_at c" by (simp add: set_stack_def obj_at_def fun_eq_iff)
    from g(2) have "obj_at c1 a = obj_at ?c a"
    proof (cases rule: finish_get_cases)
      case (moved b q)
      have "A_future b \<in> handle_atoms (var i hs)" by (simp add: moved(1))
      then have "A_future b \<in> atoms ?c"
        using var_atoms [of i hs] set_stack_rest_atoms(3) [OF 1(1,2)] by (auto simp: g(1))
      then have "A_future b' \<in> atoms c" if "q = V_all b' \<or> q = V_any b'" for b'
        using value_ref_future [OF moved(2) _ that] set_stack_rest_atoms(1) [OF 1(1,2)] by blast
      then show ?thesis using a take_result_other [of q a ?c] by (auto simp: moved(3))
    qed (simp_all add: crash_with_def)
    then show ?thesis using w(1,2) 1(6) same by simp
  qed
qed

lemma completes_uses_up:
  assumes r: "lib_step f rest c = Some (c', st)" and k: "completes f c a"
  shows "uses_up f rest c c' st (Subs a)"
proof -
  have f: "(\<exists>i. f = F_subscribe_all a i) \<or> (\<exists>i. f = F_subscribe_any a i)"
    using k by (cases "(f, a)" rule: subscribes.cases) (auto simp: completes_def)
  then have p: "c' = fst (perform f c)" "st = snd (perform f c) @ rest"
    using r by (auto simp: lib_step_def Let_def split: prod.splits simp del: perform.simps)
  have "quiet (snd (perform f c)) \<and> shared_tok (fst (perform f c)) (Subs a) = shared_tok c (Subs a)"
  proof (cases "obj_at c a")
    case None
    then show ?thesis using f k by (auto simp: completes_def subscribe_all_def subscribe_any_def with_obj_def crash_with_def)
  next
    case (Some w)
    have push: "F_give (H_future (Some a)) \<notin> set (snd (push b k d))" for b k d
      by (auto simp: push_def with_obj_def crash_with_def split: option.splits)
    show ?thesis
      using f k Some
      by (auto simp: push completes_def subscribe_all_def subscribe_any_def with_obj_def crash_with_def
          split: body.splits if_splits option.splits)
  qed
  moreover have "subscribes f a" using k by (simp add: completes_def)
  ultimately show ?thesis using quiet_tok [of "snd (perform f c)" a] by (simp add: uses_up_def p subs_tok)
qed

text \<open>Every step keeps the invariant.\<close>

lemma subs_inv_step:
  assumes i: "result_inv c" and k: "subs_inv c" and r: "machine_step t l c = Some c'"
  shows "subs_inv c'"
  using r
proof (cases rule: machine_stepE)
  case (1 f rest c1 st)
  let ?c = "set_stack t rest c"
  let ?Q = "\<lambda>x. \<forall>a. subscribing c' a \<longrightarrow> x \<noteq> A_future a"
  have m: "mem_inv c" "mem_inv c'" using machine_step_mem r i by (auto simp: result_inv_def)
  have old: "A_future a \<notin> atoms c \<and> (\<exists>w. obj_at c a = Some w \<and> full w)" if "subscribing c' a" "a < length (heap c)" for a
    using k step_subscribing [OF i r that] by (auto simp: subs_inv_def)
  have unborn: "A_future a \<notin> atoms c" if "\<not> a < length (heap c)" for a
    using that held_alive [OF m(1)] paired_atoms [of c] by (auto simp: paired_def alive_def dest: obj_at_less)
  have now: "A_future a \<notin> atoms c" if "subscribing c' a" for a
    using old [OF that] unborn by blast
  have "atom_ok ?Q c x" if "x \<in> atoms c" for x
  proof (cases x)
    case (A_future a)
    then show ?thesis using that now by (auto simp: atom_ok.simps(4))
  qed (use that m(1) mem_ok_atoms [of "\<lambda>_. True" c "{}" x] in \<open>auto simp: mem_inv_def atom_ok.simps\<close>)
  then have ok: "mem_ok ?Q ?c (frame_atoms f)" by (intro mem_ok_pop [OF _ 1(1,2)]) (auto simp: mem_ok_def)
  have q1: "permits ?Q ?c cm" if cm: "l = Some cm" for cm
  proof -
    have "makes_sequence (forwarded cm)" if "subscribing c' (fresh c)"
      by (rule step_new_subscription [OF i r that]) (use cm in \<open>simp_all add: fresh_def\<close>)
    moreover have "a \<noteq> b" if "k \<notin> {K_all, K_any}" "atom_ok ?Q ?c (A_kind k a)" "subscribing c' b" for k a b
    proof
      assume "a = b"
      then have "a < length (heap c)" "subscribing c' a" using that by (auto simp: atom_ok.simps)
      then obtain w where "obj_at c a = Some w" "full w" using old by blast
      then show False using that(1,2) by (cases "body w") (auto simp: atom_ok.simps full_def)
    qed
    ultimately have "permits ?Q ?c (forwarded cm)" by (auto simp: permits_def fresh_set_stack)
    then show ?thesis by simp
  qed
  have q3: "?Q (A_future a)" if co: "completes f ?c a" for a
  proof -
    have lib: "lib_step f rest ?c = Some (c1, st)"
      using 1(3) co by (cases rule: top_step_cases) (auto simp: completes_def)
    have "tokens c' (Subs a) < tokens c (Subs a)"
      by (rule step_uses_up [OF 1(1,2,4,5) completes_uses_up [OF lib co]])
    moreover have "tokens c (Subs a) \<le> 1" using i by (simp add: result_inv_def)
    ultimately have "tokens c' (Subs a) = 0" by linarith
    then show ?thesis by (auto simp: tokens_def subscribing_tok)
  qed
  have rest: "rest \<in> set (stacks ?c)" using 1(1) by (auto simp: set_stack_def intro: set_update_memI)
  have cov: "covers {} (f # rest)" using m(1) 1(1,2) unfolding mem_inv_def by (metis nth_mem)
  have "mem_ok ?Q c1 (frames_atoms st)"
    by (rule conjunct1, rule top_step_mem [OF ok _ _ _ rest 1(3) cov]) (use q1 q3 in blast)+
  then have seen: "mem_ok ?Q c' {}" unfolding 1(4) by (rule mem_ok_put)
  show ?thesis
    unfolding subs_inv_def
  proof (intro allI impI conjI)
    fix a assume s: "subscribing c' a"
    show "A_future a \<notin> atoms c'" using s mem_ok_atoms [OF seen, of "A_future a"] by (auto simp: atom_ok.simps(4))
    show "\<exists>w. obj_at c' a = Some w \<and> full w"
    proof (cases "a < length (heap c)")
      case True
      obtain w where w: "obj_at c a = Some w" "full w" using old [OF s True] by blast
      obtain w' where w': "obj_at c' a = Some w'" using subscribing_seq [OF m(2) s] by blast
      have "is_seq (body w)" using w(2) by (cases "body w") (auto simp: full_def)
      then have "sequence (body w') = sequence (body w)" using step_sequence [OF r now [OF s] w(1) w'] by simp
      then show ?thesis using w(2) w' by (simp add: full_def)
    next
      case False
      show ?thesis by (rule step_new_subscription [OF i r s False]) blast
    qed
  qed
qed

section \<open>How a call can crash\<close>

text \<open>The calls that can at most crash by an access to a dead object, which memory safety excludes.\<close>

definition calm :: "'v cfg \<times> 'v frame list \<Rightarrow> bool" where
  "calm r \<longleftrightarrow> crashed (fst r) = None \<or> crashed (fst r) = Some Use_after_free"

lemma calm_pair [simp]: "calm (c, fs) \<longleftrightarrow> crashed c = None \<or> crashed c = Some Use_after_free"
  by (simp add: calm_def)

lemma crashed_frame [simp]:
  "crashed (set_obj a w c) = crashed c" "crashed (new_obj w c) = crashed c" "crashed (kill a c) = crashed c"
  "crashed (observe e c) = crashed c" "crashed (set_stack t st c) = crashed c"
  by (simp_all add: set_obj_def new_obj_def kill_def observe_def set_stack_def)

lemma calm_append [simp]:
  "calm (case r of (c', fs) \<Rightarrow> (c', fs @ gs)) = calm r" "calm (case r of (c', fs) \<Rightarrow> (c', gs @ fs)) = calm r"
  "calm (crash_with Use_after_free c)"
  by (simp_all add: calm_def case_prod_beta crash_with_def)

lemma calm_with_obj: "(\<And>w. obj_at c a = Some w \<Longrightarrow> calm (g w c)) \<Longrightarrow> calm (with_obj a g c)"
  by (auto simp: with_obj_def split: option.splits)

lemma calm_calls [simp]:
  assumes "crashed c = None"
  shows "calm (push a k c)" "calm (wait a c)" "calm (lock a fs c)" "calm (raise r c)" "calm (no_state hs c)"
    "calm (promise_dtor w c)" "calm (task_dtor w c)" "calm (task_call w c)" "calm (cnt_action_dtor p c)" "calm (release a c)"
    "calm (call_closure f c)"
proof -
  have p: "calm (push a k c)" if "crashed c = None" for a k and c :: "'a cfg"
    using that by (auto simp: push_def intro!: calm_with_obj split: option.splits)
  show "calm (release a c)" using assms
    by (auto simp: release_def obj_dtor_def split: option.splits body.splits func_state.splits)
  show "calm (push a k c)" "calm (wait a c)" using assms p by (auto simp: wait_def)
qed (use assms in \<open>auto simp: lock_def raise_def no_state_def promise_dtor_def promise_abandon_def task_dtor_def task_call_def
  cnt_action_dtor_def call_closure_def split: owner.splits option.splits\<close>)

lemma calm_drops [simp]:
  assumes "crashed c = None"
  shows "calm (handle_dtor h c)" "calm (task_dtor_frames k c)" "calm (run_task k c)"
  using assms by (auto simp: handle_dtor_def task_dtor_frames_def run_task_def split: handle.splits task.splits option.splits)

lemma calm_future [simp]:
  assumes "crashed c = None"
  shows "calm (future_wait h c)" "calm (future_get i h c)" "calm (detach h c)" "calm (is_ready h c)" "calm (ask ans c)"
    "calm (notify h f c)" "calm (notify_on h ex f c)" "calm (attach d h ex f g c)"
    "calm (snd (future_then h ex f c))" "calm (snd (future_then_promise h ex f c))" "calm (snd (future_next h vd ex f c))"
    "calm (make_ready_future v c)" "calm (make_exceptional_future e c)" "calm (async ex f c)"
    "calm (when_all_make gs c)" "calm (when_any_make gs c)" "calm (when_all_range gs v c)"
    "calm (promise_set_value w v c)" "calm (promise_set_exception w e c)"
  using assms
  by (auto simp: future_eq detach_eq future_then_eq ask_def attach_def make_then_state_def make_ready_future_def
      make_exceptional_future_def promise_ctor_def make_promise_def async_def packaged_task_def when_all_make_def
      when_any_make_def when_all_range_def promise_set_value_def promise_set_exception_def Let_def
      split: option.splits sum.splits)

lemma calm_attach:
  assumes "attach_cmd i f is hs g = Some (c', hs', fs)" "\<And>h f'. calm (snd (g h f'))"
  obtains "crashed c' = None" | "crashed c' = Some Use_after_free"
  using attach_cmd_Some [OF assms(1)] assms(2) that unfolding calm_def by metis

lemma api_calm:
  assumes r: "api_step cm hs c = Some (c', hs', fs)" and c: "crashed c = None"
  shows "calm (c', fs)"
proof (cases cm)
  case (Await_suspend i f "is")
  from await_suspend_Some [OF r [unfolded this]] obtain h f' where "c' = fst (notify h f' c)"
    by (auto elim!: attach_cmd_Some)
  then show ?thesis using calm_future(6) [OF c, of h f'] by (simp add: calm_def)
qed (use r c in \<open>auto simp: call_Some with_closure_def promise_ctor_def make_promise_def packaged_task_def
    calm_def [symmetric] elim!: calm_attach dest!: retrieve_Some
    split: option.splits prod.splits handle.splits if_splits\<close>)

lemma take_posted_calm:
  assumes "take_posted j g c = Some (c', fs)" "g = run_task \<or> g = task_dtor_frames" "crashed c = None"
  shows "calm (c', fs)"
  using assms(1)
proof (rule take_posted_Some)
  let ?c = "c\<lparr>posted := take j (posted c) @ drop (j + 1) (posted c)\<rparr>"
  have "calm (g (snd (posted c ! j)) ?c)" using assms(2,3) calm_drops(2,3) [of ?c] by auto
  moreover assume "(c', fs) = (fst (g (snd (posted c ! j)) ?c), snd (g (snd (posted c ! j)) ?c) @ [F_noexcept])"
  ultimately show ?thesis by (simp add: calm_def)
qed

text \<open>The calls of the library, with what each relies on.\<close>

lemma calm_closed:
  assumes "crashed c = None"
  shows "calm (emplace a v c)" "calm (set_exception a e c)" "calm (abandon a c)" "calm (execute a c)"
    "calm (unwrap a p c)" "calm (unwrap_cont a c)" "calm (wait_cont n c)"
  using assms
  by (auto simp: emplace_def set_exception_def abandon_def execute_def unwrap_cont_def wait_cont_def Let_def
      intro!: calm_with_obj split: option.splits) (cases p; auto intro!: calm_with_obj)

lemma held_fits: "mem_ok Q c F \<Longrightarrow> A_kind k a \<in> F \<Longrightarrow> obj_at c a = Some w \<Longrightarrow> fits k (body w)"
  by (drule (1) mem_ok_held) (simp add: atom_ok.simps)

lemma calm_typed:
  assumes c: "crashed c = None" and m: "mem_ok Q c F"
  shows "A_kind K_cnt a \<in> F \<Longrightarrow> calm (clean_action a c)" "A_kind K_task a \<in> F \<Longrightarrow> calm (clean_func a hs c)"
    "A_kind K_all a \<in> F \<Longrightarrow> calm (notify_all a c)" "A_kind K_any a \<in> F \<Longrightarrow> calm (notify_any a i c)"
    "A_kind K_cnt a \<in> F \<Longrightarrow> (\<And>w k. obj_at c a = Some w \<Longrightarrow> body w \<noteq> B_cnt None k) \<Longrightarrow> calm (schedule a c)"
    "A_kind K_cnt a \<in> F \<Longrightarrow> (\<And>w ex. obj_at c a = Some w \<Longrightarrow> body w \<noteq> B_cnt ex None) \<Longrightarrow> calm (run_cnt a c)"
    "A_kind K_task a \<in> F \<Longrightarrow> (\<And>w. obj_at c a = Some w \<Longrightarrow> body w \<noteq> B_task Fn_running) \<Longrightarrow> calm (task_run a c)"
    "A_kind K_task a \<in> F \<Longrightarrow> (\<And>w. obj_at c a = Some w \<Longrightarrow> body w \<noteq> B_task Fn_running) \<Longrightarrow> calm (task_abandon a c)"
proof -
  have cnt: "\<exists>ex p. body w = B_cnt ex p" if "A_kind K_cnt a \<in> F" "obj_at c a = Some w" for w
    using held_fits [OF m that] by (cases "body w") auto
  have task: "\<exists>g. body w = B_task g" if "A_kind K_task a \<in> F" "obj_at c a = Some w" for w
    using held_fits [OF m that] by (cases "body w") auto
  have all: "\<exists>hs n. body w = B_all hs n" if "A_kind K_all a \<in> F" "obj_at c a = Some w" for w
    using held_fits [OF m that] by (cases "body w") auto
  have any: "\<exists>hs n r. body w = B_any hs n r" if "A_kind K_any a \<in> F" "obj_at c a = Some w" for w
    using held_fits [OF m that] by (cases "body w") auto
  show "A_kind K_cnt a \<in> F \<Longrightarrow> calm (clean_action a c)" "A_kind K_task a \<in> F \<Longrightarrow> calm (clean_func a hs c)"
    using c by (auto simp: clean_action_def clean_func_def intro!: calm_with_obj dest!: cnt task)
  show "A_kind K_all a \<in> F \<Longrightarrow> calm (notify_all a c)" "A_kind K_any a \<in> F \<Longrightarrow> calm (notify_any a i c)"
    using c by (auto simp: notify_all_def notify_any_def Let_def intro!: calm_with_obj dest!: all any)
  show "A_kind K_cnt a \<in> F \<Longrightarrow> (\<And>w k. obj_at c a = Some w \<Longrightarrow> body w \<noteq> B_cnt None k) \<Longrightarrow> calm (schedule a c)"
    "A_kind K_cnt a \<in> F \<Longrightarrow> (\<And>w ex. obj_at c a = Some w \<Longrightarrow> body w \<noteq> B_cnt ex None) \<Longrightarrow> calm (run_cnt a c)"
    using c cnt by (fastforce simp: schedule_def run_cnt_def split: option.splits)+
  show "A_kind K_task a \<in> F \<Longrightarrow> (\<And>w. obj_at c a = Some w \<Longrightarrow> body w \<noteq> B_task Fn_running) \<Longrightarrow> calm (task_run a c)"
    "A_kind K_task a \<in> F \<Longrightarrow> (\<And>w. obj_at c a = Some w \<Longrightarrow> body w \<noteq> B_task Fn_running) \<Longrightarrow> calm (task_abandon a c)"
    using c task by (fastforce simp: task_run_def task_abandon_def intro!: calm_with_obj split: func_state.splits)+
qed

text \<open>Subscription needs futures that are not empty.\<close>

lemma calm_subscribe:
  assumes c: "crashed c = None" and m: "mem_ok Q c F" and w: "obj_at c a = Some w" "full w"
  shows "A_kind K_all a \<in> F \<Longrightarrow> calm (subscribe_all a i c)" "A_kind K_any a \<in> F \<Longrightarrow> calm (subscribe_any a i c)"
proof -
  have "state_of (hs ! i) \<noteq> None" if "sequence (body w) = Some hs" "i < length hs" for hs
    using w(2) that nth_mem by (fastforce simp: full_def future_eq)
  then show "A_kind K_all a \<in> F \<Longrightarrow> calm (subscribe_all a i c)" "A_kind K_any a \<in> F \<Longrightarrow> calm (subscribe_any a i c)"
    using c w(1) held_fits [OF m _ w(1), of K_all] held_fits [OF m _ w(1), of K_any]
    by (auto simp: subscribe_all_def subscribe_any_def with_obj_def split: option.splits body.splits)
qed

text \<open>The functors of \<open>next\<close> need a parent with a result.\<close>

definition readable :: "'v cfg \<Rightarrow> addr \<Rightarrow> bool" where
  "readable c a \<longleftrightarrow> (\<exists>g. value_ref c a = Some (Gives g) \<and> exception_of c a = Some (Gives None)) \<or>
     (\<exists>e. value_ref c a = Some (Throws e) \<and> exception_of c a = Some (Gives (Some e)))"

lemma calm_apply: "crashed c = None \<Longrightarrow> readable c (a_parent k) \<Longrightarrow> calm (apply_action k a c)"
  by (cases "a_deco k")
    (auto simp: readable_def apply_action_def apply_then_def apply_next_def apply_void_next_def apply_interruptible_def)

lemma perform_calm:
  assumes c: "crashed c = None" and m: "mem_ok Q c (frame_atoms f)"
    and sched: "\<And>a ks ks' w k. f = F_loop (C_schedule a # ks) ks' \<Longrightarrow> obj_at c a = Some w \<Longrightarrow> body w \<noteq> B_cnt None k"
    and run: "\<And>a w ex. f = F_run a \<Longrightarrow> obj_at c a = Some w \<Longrightarrow> body w \<noteq> B_cnt ex None"
    and app: "\<And>k a. f = F_apply k a \<Longrightarrow> readable c (a_parent k)"
    and subs: "\<And>a. subscribes f a \<Longrightarrow> \<exists>w. obj_at c a = Some w \<and> full w"
    and task: "\<And>a w. f = F_task_run a \<or> f = F_task_abandon a \<Longrightarrow> obj_at c a = Some w \<Longrightarrow> body w \<noteq> B_task Fn_running"
  shows "calm (perform f c)"
proof (cases f)
  case (F_loop ks ks')
  show ?thesis
  proof (cases ks)
    case (Cons k ks1)
    have "calm (call_cont k c)"
    proof (cases k)
      case (C_schedule a)
      then show ?thesis
        using calm_typed(5) [OF c m, of a] sched [of a ks1 ks'] by (simp add: F_loop Cons call_cont_def)
    qed (use c in \<open>auto simp: call_cont_def calm_closed split: exec.splits\<close>)
    then show ?thesis by (simp add: F_loop Cons)
  qed (use c F_loop in simp)
next
  case (F_post ex k)
  then show ?thesis using c by (cases ex) (auto simp: post_def)
next
  case (F_subscribe_all a i)
  then show ?thesis using subs [of a] calm_subscribe [OF c m] by auto
next
  case (F_subscribe_any a i)
  then show ?thesis using subs [of a] calm_subscribe [OF c m] by auto
next
  case (F_run a)
  then show ?thesis using calm_typed(6) [OF c m, of a] run by simp
next
  case (F_task_run a)
  then show ?thesis using calm_typed(7) [OF c m, of a] task by simp
next
  case (F_task_abandon a)
  then show ?thesis using calm_typed(8) [OF c m, of a] task by simp
next
  case (F_apply k a)
  then show ?thesis using calm_apply [OF c] app by simp
qed (use c in \<open>auto simp: calm_closed calm_typed [OF c m] cnt_abandon_def\<close>)

lemma unwind_crash:
  assumes "crashed (fst (unwind e rest c)) = Some k" "crashed c = None"
  shows "k = Terminated \<and> (rest = [] \<or> hd rest = F_noexcept)"
  using assms by (cases "(e, rest, c)" rule: unwind.cases) (auto simp: crash_with_def)

lemma finish_get_calm:
  assumes "finish_get i x n hs rest c = Some (c', st)" "crashed c = None" "\<And>a. state_of (var i hs) = Some a \<Longrightarrow> readable c a"
  shows "crashed c' = None"
  using assms(1)
proof (cases rule: finish_get_cases)
  case (moved a g)
  then show ?thesis using assms(2)
    by (auto simp: take_result_def take_futures_def split: vref.splits option.splits body.splits)
qed (use assms(2,3) in \<open>auto simp: readable_def\<close>)

section \<open>The invariant\<close>

definition call_inv :: "'v cfg \<Rightarrow> bool" where
  "call_inv c \<longleftrightarrow> result_inv c \<and> ready_inv c \<and> cnt_ok c \<and> subs_inv c"

lemma call_inv_init: "call_inv (machine_init n)"
proof -
  have "cnt_ok (machine_init n)" "subs_inv (machine_init n)"
    by (auto simp: cnt_ok_def subs_inv_def subscribing_def machine_init_def obj_at_def)
  then show ?thesis by (simp add: call_inv_def result_inv_init ready_inv_init)
qed

lemma call_inv_step: "call_inv c \<Longrightarrow> machine_step t l c = Some c' \<Longrightarrow> call_inv c'"
  using result_inv_step machine_steps cnt_ok_step subs_inv_step unfolding call_inv_def by blast

interpretation machine_calls: invariant_system "\<lambda>c. \<exists>n. c = machine_init n" mstep call_inv
  by unfold_locales (auto simp: mstep_def call_inv_init intro: call_inv_step)

text \<open>Who is about to run a functor, or to read, finds a result.\<close>

lemma mem_inv_pop:
  assumes m: "mem_inv c" and s: "t < length (stacks c)" "stacks c ! t = f # rest"
  shows "mem_inv (set_stack t rest c)"
proof -
  have "covers {} (f # rest)" using m s unfolding mem_inv_def by (metis nth_mem)
  then have "covers {} rest" by simp
  moreover have "set (stacks (set_stack t rest c)) \<subseteq> insert rest (set (stacks c))"
    by (simp add: set_stack_def set_update_subset_insert)
  moreover have "mem_ok (\<lambda>_. True) (set_stack t rest c) {}"
    using mem_ok_pop [OF _ s] m mem_ok_subset unfolding mem_inv_def by blast
  ultimately show ?thesis using m by (auto simp: mem_inv_def)
qed

lemma ready_readable:
  assumes i: "ready_inv c" "mem_inv c" and s: "t < length (stacks c)" "stacks c ! t = f # rest"
    and a: "was_ready c a" "A_strong a \<in> atoms c"
  shows "readable (set_stack t rest c) a"
proof -
  let ?c = "set_stack t rest c"
  have e: "heap ?c = heap c" "log ?c = log c" "waits ?c = waits c" "posted ?c = posted c" "signalled ?c = signalled c"
    by (simp_all add: set_stack_def)
  have "shared_ready ?c" by (rule cong_ready) (use i(1) e in \<open>auto simp: ready_inv_def\<close>)
  moreover have "executed ?c a"
    using ready_alive_executed [OF _ a(1) held_alive [OF i(2) a(2)]] i(1) by (auto simp: ready_inv_def executed_def obj_at_heap [OF e(1)])
  ultimately show ?thesis
    using result_read [of ?c a] mem_inv_pop [OF i(2) s] unfolding readable_def by blast
qed

definition throw_labels :: "(nat \<times> nat cmd option) list" where
  "throw_labels = [(0, Some (Make_promise None)), (0, Some (Then_promise 1 Inplace (user_fn 7) [])), (0, None),
     (0, Some (Set_value 0 42))] @ replicate 8 (0, None) @ [(0, Some (Throw (User_exn 1)))] @ replicate 13 (0, None)"

definition throw_cfg :: "nat cfg" where
  "throw_cfg = the (exec_steps throw_labels (machine_init 1))"

lemma throw_run: "run mstep (machine_init 1) throw_labels throw_cfg"
  unfolding throw_cfg_def by (rule exec_reach) code_simp

text \<open>
  C2. A step of the machine crashes in two ways only. Either an exception leaves the
  outermost function of a thread or a function that is \<open>noexcept\<close>, which ends the program,
  or a task is called, or destroyed, while its function is being called. So the library
  never uses an object after its end, never calls a null executor or action of a
  continuation, subscribes to no empty future, reads no result that is not there, and never
  takes a state for one of another type. The witness is an interruptible continuation that
  throws: \<open>run\<close> is \<open>noexcept\<close>, so the program ends.
\<close>

theorem machine_crashes:
  assumes "run mstep (machine_init n) ls c" "machine_step t l c = Some c'" "crashed c' = Some k"
  shows "k = Terminated \<and> (\<exists>e rest. stacks c ! t = F_raise e # rest \<and> (rest = [] \<or> hd rest = F_noexcept)) \<or>
    k = Undefined_behaviour \<and> (\<exists>a rest w. (stacks c ! t = F_task_run a # rest \<or> stacks c ! t = F_task_abandon a # rest) \<and>
      obj_at c a = Some w \<and> body w = B_task Fn_running)"
proof -
  have "call_inv c" using machine_calls.run_inv assms(1) by blast
  then have i: "result_inv c" "ready_inv c" "cnt_ok c" "subs_inv c" "mem_inv c" by (auto simp: call_inv_def result_inv_def)
  obtain f rest c1 st where s: "crashed c = None" "t < length (stacks c)" "stacks c ! t = f # rest"
    "top_step l f rest (set_stack t rest c) = Some (c1, st)" "c' = set_stack t st c1"
    using assms(2) by (elim machine_step_cases)
  let ?c = "set_stack t rest c"
  have k: "crashed c1 = Some k" using assms(3) by (simp add: s(5))
  have c: "crashed ?c = None" using s(1) by simp
  have o: "obj_at ?c = obj_at c" by (simp add: set_stack_def obj_at_def fun_eq_iff)
  have "survives c'" by (rule machine_step_survives [OF i(5) _ assms(2)]) (simp add: survives_def s(1))
  then have uaf: "k \<noteq> Use_after_free" using assms(3) by (simp add: survives_def)
  from s(4) show ?thesis
  proof (cases rule: top_step_cases)
    case (user x m hs cm j)
    from user(3) have "calm (c1, st)"
    proof (cases rule: user_step_cases)
      case (called hs' fs)
      then show ?thesis using api_calm [OF called(1) c] by simp
    next
      case (posted j g fs)
      then show ?thesis using take_posted_calm [OF posted(2,1) c] by (simp add: calm_def)
    qed (use c in simp)
    then show ?thesis using k uaf by simp
  next
    case lib
    from lib show ?thesis
    proof (cases rule: lib_step_cases)
      case (raised e)
      then show ?thesis using unwind_crash [of e rest ?c k] k c s(3) by auto
    next
      case (got j x m hs rest')
      have "was_ready c a \<and> A_strong a \<in> atoms c" if "state_of (var j hs) = Some a" for a
        using get_target [OF i(2) s(2), of j rest] s(3) got(1,2) that by (metis frame.inject(1) list.inject option.inject)
      then have "readable ?c a" if "state_of (var j hs) = Some a" for a
        using that ready_readable [OF i(2,5) s(2,3)] by blast
      then show ?thesis using finish_get_calm [OF got(3) c] k by simp
    next
      case performed
      have fa: "frame_atoms f \<subseteq> atoms c" using set_stack_rest_atoms(2) [OF s(2,3)] by auto
      have m: "mem_ok (\<lambda>_. True) ?c (frame_atoms f)" using mem_ok_pop [OF _ s(2,3)] i(5) by (simp add: mem_inv_def)
      have tok: "0 < tokens c r" if "0 < frame_tok r f" for r using frame_token [OF s(2,3) that] .
      show ?thesis
      proof (rule ccontr)
        assume no: "\<not> ?thesis"
        have "calm (perform f ?c)"
        proof (rule perform_calm [OF c m])
          fix a ks ks' w p assume "f = F_loop (C_schedule a # ks) ks'" "obj_at ?c a = Some w"
          then show "body w \<noteq> B_cnt None p" using i(3) tok [of "Sched a"] o by (auto simp: cnt_ok_def)
        next
          fix a w ex assume "f = F_run a" "obj_at ?c a = Some w"
          then show "body w \<noteq> B_cnt ex None" using i(3) tok [of "Run a"] o by (auto simp: cnt_ok_def)
        next
          fix p a assume f: "f = F_apply p a"
          have "frame_ok c f" using stack_frame [OF i(2) nth_mem [OF s(2)], of f] s(3) f by auto
          then show "readable ?c (a_parent p)"
            using f fa ready_readable [OF i(2,5) s(2,3)] by (auto simp: action_atoms_def)
        next
          fix a assume "subscribes f a"
          then have "subscribing c a" using nth_mem [OF s(2)] by (auto simp: subscribing_def s(3) intro!: bexI [of _ "f # rest"])
          then show "\<exists>w. obj_at ?c a = Some w \<and> full w" using i(4) o by (auto simp: subs_inv_def)
        next
          fix a w assume f: "f = F_task_run a \<or> f = F_task_abandon a" "obj_at ?c a = Some w"
          show "body w \<noteq> B_task Fn_running"
          proof
            assume b: "body w = B_task Fn_running"
            then have "k = Undefined_behaviour"
              using f k performed(1) by (auto simp: task_run_def task_abandon_def with_obj_def crash_with_def)
            then show False using no f b s(3) o by auto
          qed
        qed
        then show False using k uaf performed(1) by (simp add: calm_def)
      qed
    qed (use c k in auto)
  qed
qed

theorem machine_crashes_witness:
  "\<exists>c' e rest. machine_step 0 None throw_cfg = Some c' \<and> crashed c' = Some Terminated \<and>
    stacks throw_cfg ! 0 = F_raise e # rest \<and> (rest = [] \<or> hd rest = F_noexcept)"
proof -
  have "map_option crashed (machine_step 0 None throw_cfg) = Some (Some Terminated)" by code_simp
  then obtain c' where c: "machine_step 0 None throw_cfg = Some c'" "crashed c' = Some Terminated" by auto
  show ?thesis using machine_crashes [OF throw_run c] c by auto
qed

end
