(* ===== verification/Monitor.thy ===== *)
theory Monitor
  imports Prelude
begin

text \<open>
  \<open>std::mutex\<close> with one \<open>std::condition_variable\<close>, as the latch, the queue and the
  thread pool use them: who holds the mutex, and which threads are blocked in
  \<open>cv_.wait\<close>. To wait is to let go of the mutex and to block in one action; a blocked
  thread that was notified (or woke up spuriously) takes the mutex again before it
  looks at its condition again. The locale \<open>monitor_discipline\<close> is the contract of
  the clients.
\<close>

record monitor =
  holder :: "nat option"
  blocked :: "nat set"

definition new_monitor :: monitor where
  "new_monitor = \<lparr>holder = None, blocked = {}\<rparr>"

definition acquire :: "nat \<Rightarrow> monitor \<Rightarrow> monitor option" where
  "acquire t m = (if holder m = None then Some (m\<lparr>holder := Some t\<rparr>) else None)"

definition unlock :: "monitor \<Rightarrow> monitor" where
  "unlock m = m\<lparr>holder := None\<rparr>"

definition block_on :: "nat \<Rightarrow> monitor \<Rightarrow> monitor" where
  "block_on t m = m\<lparr>holder := None, blocked := insert t (blocked m)\<rparr>"

text \<open>The second half of \<open>cv_.wait\<close>: possible for a thread that is no longer blocked.\<close>

definition reacquire :: "nat \<Rightarrow> monitor \<Rightarrow> monitor option" where
  "reacquire t m = (if t \<in> blocked m then None else acquire t m)"

definition notify_all :: "monitor \<Rightarrow> monitor" where
  "notify_all m = m\<lparr>blocked := {}\<rparr>"

text \<open>\<open>notify_one\<close> wakes up some blocked thread, the choice \<open>u\<close>, if there is one.\<close>

definition notify_one :: "nat option \<Rightarrow> monitor \<Rightarrow> monitor option" where
  "notify_one u m = (case u of
     None \<Rightarrow> if blocked m = {} then Some m else None
   | Some u \<Rightarrow> if u \<in> blocked m then Some (m\<lparr>blocked := blocked m - {u}\<rparr>) else None)"

definition wake_up :: "nat \<Rightarrow> monitor \<Rightarrow> monitor option" where
  "wake_up t m = (if t \<in> blocked m then Some (m\<lparr>blocked := blocked m - {t}\<rparr>) else None)"

lemma monitor_simps [simp]:
  "holder new_monitor = None" "blocked new_monitor = {}"
  "holder (unlock m) = None" "blocked (unlock m) = blocked m"
  "holder (block_on t m) = None" "blocked (block_on t m) = insert t (blocked m)"
  "holder (notify_all m) = holder m" "blocked (notify_all m) = {}"
  by (simp_all add: new_monitor_def unlock_def block_on_def notify_all_def)

lemma acquire_Some:
  "acquire t m = Some m' \<longleftrightarrow> holder m = None \<and> m' = m\<lparr>holder := Some t\<rparr>"
  "reacquire t m = Some m' \<longleftrightarrow> t \<notin> blocked m \<and> holder m = None \<and> m' = m\<lparr>holder := Some t\<rparr>"
  by (auto simp: acquire_def reacquire_def)

lemma notify_one_SomeD:
  assumes "notify_one u m = Some m'"
  shows "holder m' = holder m" "blocked m' = blocked m - set_option u" "set_option u \<subseteq> blocked m"
    "u = None \<Longrightarrow> blocked m = {}"
  using assms by (cases u; simp add: notify_one_def split: if_splits; fastforce)+

lemma wake_up_SomeD:
  assumes "wake_up t m = Some m'"
  shows "t \<in> blocked m" "holder m' = holder m" "blocked m' = blocked m - {t}"
  using assms by (auto simp: wake_up_def split: if_splits)

lemma notify_one_possible: "\<exists>u m'. notify_one u m = Some m'"
proof (cases "blocked m = {}")
  case True
  then show ?thesis by (intro exI [of _ None]) (simp add: notify_one_def)
next
  case False
  then obtain t where "t \<in> blocked m" by blast
  then show ?thesis by (intro exI [of _ "Some t"]) (simp add: notify_one_def)
qed

section \<open>Clients\<close>

text \<open>
  A client of a mutex: \<open>crit s t\<close> says that thread \<open>t\<close> is between taking and
  releasing it. A step of the thread \<open>agent l\<close> enters only when nobody holds the
  mutex, and changes nobody else's position.
\<close>

locale monitor_discipline = invariant_system init step inv
  for init :: "'s \<Rightarrow> bool" and step :: "'s \<Rightarrow> 'l \<Rightarrow> 's \<Rightarrow> bool" and inv :: "'s \<Rightarrow> bool" +
  fixes mon :: "'s \<Rightarrow> monitor"
    and crit :: "'s \<Rightarrow> nat \<Rightarrow> bool"
    and agent :: "'l \<Rightarrow> nat"
  assumes init_free: "init s \<Longrightarrow> holder (mon s) = None \<and> \<not> crit s t"
    and others: "step s l s' \<Longrightarrow> inv s \<Longrightarrow> u \<noteq> agent l \<Longrightarrow> crit s' u = crit s u"
    and stays: "step s l s' \<Longrightarrow> inv s \<Longrightarrow> crit s' (agent l) \<Longrightarrow> crit s (agent l) \<Longrightarrow>
      holder (mon s') = holder (mon s)"
    and enters: "step s l s' \<Longrightarrow> inv s \<Longrightarrow> crit s' (agent l) \<Longrightarrow> \<not> crit s (agent l) \<Longrightarrow>
      holder (mon s) = None \<and> holder (mon s') = Some (agent l)"
    and leaves: "step s l s' \<Longrightarrow> inv s \<Longrightarrow> \<not> crit s' (agent l) \<Longrightarrow>
      holder (mon s') = (if crit s (agent l) then None else holder (mon s))"
begin

definition exclusive :: "'s \<Rightarrow> bool" where
  "exclusive s \<longleftrightarrow> (\<forall>t. crit s t \<longleftrightarrow> holder (mon s) = Some t)"

lemma exclusive_init: "init s \<Longrightarrow> exclusive s"
  using init_free by (simp add: exclusive_def)

lemma exclusive_step:
  assumes x: "exclusive s" and i: "inv s" and st: "step s l s'"
  shows "exclusive s'"
proof (cases "crit s' (agent l)")
  case True
  have "holder (mon s') = Some (agent l) \<and> (u \<noteq> agent l \<longrightarrow> \<not> crit s u)" for u
    using x stays [OF st i True] enters [OF st i True] by (cases "crit s (agent l)") (auto simp: exclusive_def)
  then have "holder (mon s') = Some (agent l)" "crit s' u \<longleftrightarrow> u = agent l" for u
    using True others [OF st i, of u] by blast+
  then show ?thesis by (simp add: exclusive_def) metis
next
  case False
  then show ?thesis
    using x others [OF st i] leaves [OF st i False] by (auto simp: exclusive_def split: if_splits) metis+
qed

lemma run_exclusive: "run step s ls s' \<Longrightarrow> init s \<Longrightarrow> exclusive s'"
  by (induction rule: run.induct) (auto intro: exclusive_init exclusive_step run_inv)

text \<open>Mutual exclusion.\<close>

lemma mutex: "run step s ls s' \<Longrightarrow> init s \<Longrightarrow> crit s' t \<Longrightarrow> crit s' u \<Longrightarrow> t = u"
  using run_exclusive [of s ls s'] by (auto simp: exclusive_def)

end

end
