(* ===== verification/Latch.thy ===== *)
theory Latch
  imports Monitor "HOL-Library.Word"
begin

text \<open>
  \<open>latch\<close> of \<open>bits/latch.h\<close> and \<open>bits/portable_concurrency.cpp\<close>: any number of
  threads count down, wait and ask, and one destroys the latch. A step of a thread is
  what it does between taking and letting go of the mutex, or a notification.

  The theory proves that nobody leaves a wait before the counter is zero, that no
  wakeup is lost, and that the destructor waits for the threads that wait, but not
  for a thread that is still about to notify.
\<close>

section \<open>State\<close>

text \<open>
  Where a thread is: outside, before taking the mutex (\<open>E\<close>), with the mutex taken and
  before its next action (\<open>B\<close>, \<open>W_check\<close>, \<open>X_check\<close>), in \<open>cv_.wait\<close>, or, after
  \<open>count_down\<close> let go of the mutex, before \<open>cv_.notify_all\<close> (\<open>N_down\<close>).
\<close>

datatype pc =
    Idle
  | E_down_wait
  | B_down_wait
  | E_down int
  | B_down int
  | N_down
  | E_ready
  | B_ready
  | E_wait
  | B_wait
  | W_check
  | W_blocked
  | E_dtor
  | X_check
  | X_blocked

text \<open>How an execution goes wrong: a failed assertion, or an access to a destroyed latch.\<close>

datatype fault =
    Assertion_failed
  | Destroyed

text \<open>
  \<open>counter_\<close> is a \<open>ptrdiff_t\<close> that stays between zero and its first value,
  \<open>waiters_\<close> an \<open>unsigned\<close>. \<open>closing\<close> says that the destructor was called and
  \<open>dead\<close> that it is over; \<open>answers\<close> are the results of \<open>is_ready\<close>.
\<close>

record latch =
  counter :: int
  waiters :: "32 word"
  mon :: monitor
  pcs :: "pc list"
  closing :: bool
  dead :: bool
  fault :: "fault option"
  answers :: "bool list"

definition latch_init :: "int \<Rightarrow> nat \<Rightarrow> latch" where
  "latch_init count n = \<lparr>counter = count, waiters = 0, mon = new_monitor, pcs = replicate n Idle,
     closing = False, dead = False, fault = None, answers = []\<rparr>"

definition goto :: "nat \<Rightarrow> pc \<Rightarrow> latch \<Rightarrow> latch" where
  "goto t p s = s\<lparr>pcs := (pcs s)[t := p]\<rparr>"

definition lock_mutex :: "nat \<Rightarrow> pc \<Rightarrow> latch \<Rightarrow> latch option" where
  "lock_mutex t p s = map_option (\<lambda>m. goto t p (s\<lparr>mon := m\<rparr>)) (acquire t (mon s))"

definition relock_mutex :: "nat \<Rightarrow> pc \<Rightarrow> latch \<Rightarrow> latch option" where
  "relock_mutex t p s = map_option (\<lambda>m. goto t p (s\<lparr>mon := m\<rparr>)) (reacquire t (mon s))"

text \<open>The end of a call that holds the mutex.\<close>

definition leave :: "nat \<Rightarrow> latch \<Rightarrow> latch" where
  "leave t s = goto t Idle (s\<lparr>mon := unlock (mon s)\<rparr>)"

definition check :: "bool \<Rightarrow> latch \<Rightarrow> latch option \<Rightarrow> latch option" where
  "check b s r = (if b then r else Some (s\<lparr>fault := Some Assertion_failed\<rparr>))"

section \<open>Operations\<close>

definition count_down_and_wait :: "nat \<Rightarrow> latch \<Rightarrow> latch option" where
  "count_down_and_wait t s = check (counter s > 0) s
     (let c = counter s - 1; w = waiters s + 1 in
      if c = 0 then Some (leave t (s\<lparr>counter := c, waiters := w - 1, mon := notify_all (mon s)\<rparr>))
      else Some (goto t W_check (s\<lparr>counter := c, waiters := w\<rparr>)))"

text \<open>\<open>cv_.wait(lock, counter_ == 0)\<close>, then the last waiter's notification, which wakes up \<open>u\<close>.\<close>

definition await_zero :: "nat \<Rightarrow> nat option \<Rightarrow> latch \<Rightarrow> latch option" where
  "await_zero t u s =
     (if counter s \<noteq> 0 then Some (goto t W_blocked (s\<lparr>mon := block_on t (mon s)\<rparr>))
      else let w = waiters s - 1 in
        if w = 0 then map_option (\<lambda>m. leave t (s\<lparr>waiters := w, mon := m\<rparr>)) (notify_one u (mon s))
        else Some (leave t (s\<lparr>waiters := w\<rparr>)))"

definition count_down :: "nat \<Rightarrow> int \<Rightarrow> latch \<Rightarrow> latch option" where
  "count_down t n s = check (counter s \<ge> n \<and> n \<ge> 0) s
     (let c = counter s - n in
      if c > 0 then Some (leave t (s\<lparr>counter := c\<rparr>))
      else Some (goto t N_down (s\<lparr>counter := c, mon := unlock (mon s)\<rparr>)))"

definition count_down_notify :: "nat \<Rightarrow> latch \<Rightarrow> latch option" where
  "count_down_notify t s = Some (goto t Idle (s\<lparr>mon := notify_all (mon s)\<rparr>))"

definition is_ready :: "nat \<Rightarrow> latch \<Rightarrow> latch option" where
  "is_ready t s = Some (leave t (s\<lparr>answers := answers s @ [counter s = 0]\<rparr>))"

definition wait :: "nat \<Rightarrow> latch \<Rightarrow> latch option" where
  "wait t s = Some (goto t W_check (s\<lparr>waiters := waiters s + 1\<rparr>))"

definition latch_dtor :: "nat \<Rightarrow> latch \<Rightarrow> latch option" where
  "latch_dtor t s =
     (if waiters s \<noteq> 0 then Some (goto t X_blocked (s\<lparr>mon := block_on t (mon s)\<rparr>))
      else Some (leave t (s\<lparr>dead := True\<rparr>)))"

section \<open>Steps\<close>

fun perform :: "pc \<Rightarrow> nat \<Rightarrow> nat option \<Rightarrow> latch \<Rightarrow> latch option" where
  "perform Idle t u s = None"
| "perform E_down_wait t u s = lock_mutex t B_down_wait s"
| "perform B_down_wait t u s = count_down_and_wait t s"
| "perform (E_down n) t u s = lock_mutex t (B_down n) s"
| "perform (B_down n) t u s = count_down t n s"
| "perform N_down t u s = count_down_notify t s"
| "perform E_ready t u s = lock_mutex t B_ready s"
| "perform B_ready t u s = is_ready t s"
| "perform E_wait t u s = lock_mutex t B_wait s"
| "perform B_wait t u s = wait t s"
| "perform W_check t u s = await_zero t u s"
| "perform W_blocked t u s = relock_mutex t W_check s"
| "perform E_dtor t u s = lock_mutex t X_check s"
| "perform X_check t u s = latch_dtor t s"
| "perform X_blocked t u s = relock_mutex t X_check s"

text \<open>
  A thread calls an operation, goes on with its call (with the choice of the thread
  that \<open>notify_one\<close> wakes up), or wakes up without a reason. No operation is called
  on a latch whose destructor was called; \<open>ok\<close> is the client's condition for calling
  the destructor.
\<close>

datatype latch_op =
    Count_down_and_wait
  | Count_down int
  | Is_ready
  | Wait
  | Destroy

datatype label =
    Call latch_op
  | Step "nat option"
  | Wake

fun entry :: "latch_op \<Rightarrow> pc" where
  "entry Count_down_and_wait = E_down_wait"
| "entry (Count_down n) = E_down n"
| "entry Is_ready = E_ready"
| "entry Wait = E_wait"
| "entry Destroy = E_dtor"

definition call :: "(nat \<Rightarrow> latch \<Rightarrow> bool) \<Rightarrow> nat \<Rightarrow> latch_op \<Rightarrow> latch \<Rightarrow> latch option" where
  "call ok t f s =
     (if pcs s ! t \<noteq> Idle \<or> closing s \<or> f = Destroy \<and> \<not> ok t s then None
      else Some (goto t (entry f) (s\<lparr>closing := (f = Destroy)\<rparr>)))"

definition latch_step :: "(nat \<Rightarrow> latch \<Rightarrow> bool) \<Rightarrow> nat \<Rightarrow> label \<Rightarrow> latch \<Rightarrow> latch option" where
  "latch_step ok t l s =
     (if fault s \<noteq> None \<or> \<not> t < length (pcs s) then None else
      case l of
        Call f \<Rightarrow> call ok t f s
      | Wake \<Rightarrow> map_option (\<lambda>m. s\<lparr>mon := m\<rparr>) (wake_up t (mon s))
      | Step u \<Rightarrow>
          if pcs s ! t = Idle then None
          else if dead s then Some (s\<lparr>fault := Some Destroyed\<rparr>)
          else perform (pcs s ! t) t u s)"

definition lstep :: "(nat \<Rightarrow> latch \<Rightarrow> bool) \<Rightarrow> latch \<Rightarrow> nat \<times> label \<Rightarrow> latch \<Rightarrow> bool" where
  "lstep ok s l s' \<longleftrightarrow> latch_step ok (fst l) (snd l) s = Some s'"

fun latch_steps :: "(nat \<Rightarrow> latch \<Rightarrow> bool) \<Rightarrow> (nat \<times> label) list \<Rightarrow> latch \<Rightarrow> latch option" where
  "latch_steps ok [] s = Some s"
| "latch_steps ok (l # ls) s = (case latch_step ok (fst l) (snd l) s of None \<Rightarrow> None | Some s' \<Rightarrow> latch_steps ok ls s')"

lemma latch_steps_run: "latch_steps ok ls s = Some s' \<Longrightarrow> run (lstep ok) s ls s'"
  by (induction ls arbitrary: s) (auto simp: lstep_def intro: run_nil run_prepend split: option.splits)

section \<open>Mutual exclusion\<close>

fun inside :: "pc \<Rightarrow> bool" where
  "inside B_down_wait = True"
| "inside (B_down _) = True"
| "inside B_ready = True"
| "inside B_wait = True"
| "inside W_check = True"
| "inside X_check = True"
| "inside _ = False"

definition pc_of :: "latch \<Rightarrow> nat \<Rightarrow> pc" where
  "pc_of s t = (if t < length (pcs s) then pcs s ! t else Idle)"

lemma latch_pc_of_goto [simp]: "t < length (pcs s) \<Longrightarrow> pc_of (goto t p s) u = (if u = t then p else pc_of s u)"
  by (simp add: pc_of_def goto_def nth_list_update)

lemma latch_goto_simps [simp]:
  "counter (goto t p s) = counter s" "waiters (goto t p s) = waiters s" "mon (goto t p s) = mon s"
  "closing (goto t p s) = closing s" "dead (goto t p s) = dead s" "fault (goto t p s) = fault s"
  "length (pcs (goto t p s)) = length (pcs s)"
  by (simp_all add: goto_def)

lemma latch_pc_of_update [simp]:
  "pc_of (s\<lparr>mon := m\<rparr>) = pc_of s" "pc_of (s\<lparr>counter := c\<rparr>) = pc_of s" "pc_of (s\<lparr>waiters := w\<rparr>) = pc_of s"
  "pc_of (s\<lparr>fault := f\<rparr>) = pc_of s" "pc_of (s\<lparr>dead := d\<rparr>) = pc_of s" "pc_of (s\<lparr>closing := d\<rparr>) = pc_of s"
  "pc_of (s\<lparr>answers := a\<rparr>) = pc_of s"
  by (simp_all add: pc_of_def fun_eq_iff)


text \<open>What a step does, one case for each position.\<close>

lemma lstep_cases:
  assumes "lstep ok s l s'"
  obtains (call) f where "fst l < length (pcs s)" "pc_of s (fst l) = Idle" "\<not> closing s" "f = Destroy \<Longrightarrow> ok (fst l) s"
      "s' = goto (fst l) (entry f) (s\<lparr>closing := (f = Destroy)\<rparr>)" "snd l = Call f"
    | (wake) m where "wake_up (fst l) (mon s) = Some m" "s' = s\<lparr>mon := m\<rparr>" "snd l = Wake"
    | (dead) u where "dead s" "pc_of s (fst l) \<noteq> Idle" "s' = s\<lparr>fault := Some Destroyed\<rparr>" "snd l = Step u"
    | (step) u where "fst l < length (pcs s)" "\<not> dead s" "perform (pc_of s (fst l)) (fst l) u s = Some s'" "snd l = Step u"
proof (cases "snd l")
  case (Call f)
  show ?thesis
    by (rule call) (use assms Call in \<open>auto simp: lstep_def latch_step_def Latch.call_def pc_of_def split: if_splits\<close>)
next
  case (Step u)
  show ?thesis
  proof (cases "dead s")
    case True
    show ?thesis
      by (rule dead) (use assms Step True in \<open>auto simp: lstep_def latch_step_def pc_of_def split: if_splits\<close>)
  next
    case False
    show ?thesis
      by (rule step) (use assms Step False in \<open>auto simp: lstep_def latch_step_def pc_of_def split: if_splits\<close>)
  qed
next
  case Wake
  then obtain m where "wake_up (fst l) (mon s) = Some m" "s' = s\<lparr>mon := m\<rparr>"
    using assms by (auto simp: lstep_def latch_step_def split: if_splits)
  then show ?thesis using wake Wake by blast
qed

lemma lstep_running: "lstep ok s l s' \<Longrightarrow> fault s = None \<and> fst l < length (pcs s)"
  by (auto simp: lstep_def latch_step_def split: if_splits)

lemmas latch_op_defs = lock_mutex_def relock_mutex_def count_down_and_wait_def await_zero_def count_down_def
  count_down_notify_def is_ready_def wait_def latch_dtor_def leave_def check_def Let_def

text \<open>
  The positions after a step. (A failed assertion leaves a thread where it is.)
\<close>

lemma latch_perform_agrees:
  assumes "perform p t u s = Some s'" "pc_of s t = p" "t < length (pcs s)"
  shows "length (pcs s') = length (pcs s) \<and> (v \<noteq> t \<longrightarrow> pc_of s' v = pc_of s v)"
  using assms by (cases p) (auto simp: latch_op_defs split: if_splits)

lemma latch_perform_lock:
  assumes "perform p t u s = Some s'" "pc_of s t = p" "t < length (pcs s)"
  shows "inside (pc_of s' t) \<Longrightarrow> inside p \<Longrightarrow> holder (mon s') = holder (mon s)"
    "inside (pc_of s' t) \<Longrightarrow> \<not> inside p \<Longrightarrow> holder (mon s) = None \<and> holder (mon s') = Some t"
    "\<not> inside (pc_of s' t) \<Longrightarrow> holder (mon s') = (if inside p then None else holder (mon s))"
  using assms by (cases p; auto simp: latch_op_defs acquire_Some split: if_splits)+

lemma latch_entry_outside [simp]: "\<not> inside (entry f)"
  by (cases f) auto

definition latch_start :: "int \<Rightarrow> latch \<Rightarrow> bool" where
  "latch_start k s \<longleftrightarrow> 0 \<le> k \<and> (\<exists>n < 2 ^ 32. s = latch_init k n)"

interpretation latch_mutex: monitor_discipline "latch_start k" "lstep ok" "\<lambda>_. True" mon "\<lambda>s t. inside (pc_of s t)" fst
proof unfold_locales
  fix s l s' and u :: nat
  assume st: "lstep ok s l s'"
  note t = lstep_running [OF st]
  show "u \<noteq> fst l \<Longrightarrow> inside (pc_of s' u) = inside (pc_of s u)"
    using st t by (cases rule: lstep_cases) (auto simp: latch_pc_of_goto dest: latch_perform_agrees [OF _ refl])
  show "inside (pc_of s' (fst l)) \<Longrightarrow> inside (pc_of s (fst l)) \<Longrightarrow> holder (mon s') = holder (mon s)"
    using st t by (cases rule: lstep_cases) (auto dest: wake_up_SomeD(2) latch_perform_lock(1) [OF _ refl])
  show "inside (pc_of s' (fst l)) \<Longrightarrow> \<not> inside (pc_of s (fst l)) \<Longrightarrow>
      holder (mon s) = None \<and> holder (mon s') = Some (fst l)"
    using st t by (cases rule: lstep_cases) (auto dest: wake_up_SomeD(2) latch_perform_lock(2) [OF _ refl])
  show "\<not> inside (pc_of s' (fst l)) \<Longrightarrow>
      holder (mon s') = (if inside (pc_of s (fst l)) then None else holder (mon s))"
    using st t by (cases rule: lstep_cases) (auto dest: wake_up_SomeD(2) latch_perform_lock(3) [OF _ refl])
qed (auto simp: latch_start_def latch_init_def pc_of_def)


section \<open>Invariant\<close>

fun registered :: "pc \<Rightarrow> bool" where
  "registered W_check = True"
| "registered W_blocked = True"
| "registered _ = False"

fun destroying :: "pc \<Rightarrow> bool" where
  "destroying E_dtor = True"
| "destroying X_check = True"
| "destroying X_blocked = True"
| "destroying _ = False"

definition regs :: "latch \<Rightarrow> nat" where
  "regs s = length (filter registered (pcs s))"

definition counts :: "int \<Rightarrow> latch \<Rightarrow> bool" where
  "counts k s \<longleftrightarrow> 0 \<le> counter s \<and> counter s \<le> k \<and> length (pcs s) < 2 ^ 32 \<and> waiters s = of_nat (regs s)"

definition one_dtor :: "latch \<Rightarrow> bool" where
  "one_dtor s \<longleftrightarrow> (\<forall>t. destroying (pc_of s t) \<longrightarrow> closing s \<and> (\<forall>u. destroying (pc_of s u) \<longrightarrow> u = t))"

text \<open>
  Who is blocked is in \<open>cv_.wait\<close>, and a blocked thread whose condition holds is
  about to be notified: no wakeup is lost.
\<close>

definition wakeups :: "latch \<Rightarrow> bool" where
  "wakeups s \<longleftrightarrow> (\<forall>t \<in> blocked (mon s).
     (pc_of s t = W_blocked \<and> (counter s = 0 \<longrightarrow> (\<exists>u. pc_of s u = N_down))) \<or>
     (pc_of s t = X_blocked \<and> waiters s \<noteq> 0))"

lemma latch_regs_goto:
  "t < length (pcs s) \<Longrightarrow>
    regs (goto t p s) + (if registered (pc_of s t) then 1 else 0) = regs s + (if registered p then 1 else 0)"
  using count_update [of t "pcs s" registered p] by (simp add: regs_def goto_def pc_of_def)

lemma latch_regs_update [simp]:
  "regs (s\<lparr>mon := m\<rparr>) = regs s" "regs (s\<lparr>counter := c\<rparr>) = regs s" "regs (s\<lparr>waiters := w\<rparr>) = regs s"
  "regs (s\<lparr>fault := f\<rparr>) = regs s" "regs (s\<lparr>dead := d\<rparr>) = regs s" "regs (s\<lparr>closing := d\<rparr>) = regs s"
  "regs (s\<lparr>answers := a\<rparr>) = regs s"
  by (simp_all add: regs_def)

lemma regs_goto_same:
  "t < length (pcs s) \<Longrightarrow> registered (pc_of s t) = registered p \<Longrightarrow> regs (goto t p s) = regs s"
  using latch_regs_goto [of t s p] by (simp split: if_splits)

lemma regs_goto_in:
  "t < length (pcs s) \<Longrightarrow> \<not> registered (pc_of s t) \<Longrightarrow> registered p \<Longrightarrow> regs (goto t p s) = Suc (regs s)"
  using latch_regs_goto [of t s p] by simp

lemma regs_goto_out:
  "t < length (pcs s) \<Longrightarrow> registered (pc_of s t) \<Longrightarrow> \<not> registered p \<Longrightarrow> Suc (regs (goto t p s)) = regs s"
  using latch_regs_goto [of t s p] by simp

lemma regs_goto_out_word:
  "t < length (pcs s) \<Longrightarrow> registered (pc_of s t) \<Longrightarrow> \<not> registered p \<Longrightarrow>
    (of_nat (regs (goto t p s)) :: 32 word) = of_nat (regs s) - 1"
  using regs_goto_out [of t s p] by (metis add_diff_cancel_left' of_nat_Suc)

lemma regs_bound: "regs s \<le> length (pcs s)"
  by (simp add: regs_def)

lemma latch_regs_pos: "registered (pc_of s t) \<Longrightarrow> 0 < regs s"
  using count_pos [of registered "pcs s"] by (auto simp: regs_def pc_of_def simp del: length_greater_0_conv split: if_splits)

text \<open>The number of waiters does not wrap.\<close>

lemma unat_waiters:
  assumes "counts k s"
  shows "unat (waiters s) = regs s"
proof -
  have "regs s < 2 ^ 32" using assms regs_bound [of s] by (simp add: counts_def)
  then show ?thesis using assms by (simp add: counts_def unsigned_of_nat take_bit_nat_eq_self)
qed

lemma waiters_zero: "counts k s \<Longrightarrow> waiters s = 0 \<longleftrightarrow> regs s = 0"
  using unat_waiters [of k s] by (metis unat_0 unsigned_0 unat_eq_zero)

lemma latch_perform_counts:
  assumes c: "counts k s" and t: "t < length (pcs s)" and p: "perform (pc_of s t) t u s = Some s'"
  shows "counts k s'"
  using p
proof (cases "pc_of s t")
  case W_check
  then show ?thesis
    using c t p by (auto simp: counts_def latch_op_defs regs_goto_same regs_goto_out_word split: if_splits)
qed (use c t p in \<open>auto simp: counts_def latch_op_defs regs_goto_same regs_goto_in split: if_splits\<close>)

lemma perform_one_dtor:
  assumes "one_dtor s" "t < length (pcs s)" "perform (pc_of s t) t u s = Some s'"
  shows "one_dtor s'"
proof -
  have "closing s' = closing s \<and> (destroying (pc_of s' t) \<longrightarrow> destroying (pc_of s t))"
    using assms(2,3) by (cases "pc_of s t") (auto simp: latch_op_defs split: if_splits)
  then show ?thesis
    using assms(1) latch_perform_agrees [OF assms(3) refl assms(2)] unfolding one_dtor_def by metis
qed

lemma wakeups_keep:
  assumes w: "wakeups s" and sub: "blocked (mon s') \<subseteq> insert t (blocked (mon s))"
    and pcs: "\<And>v. v \<noteq> t \<Longrightarrow> pc_of s' v = pc_of s v" and nd: "pc_of s t \<noteq> N_down"
    and new: "t \<in> blocked (mon s') \<Longrightarrow>
      pc_of s' t = W_blocked \<and> counter s' \<noteq> 0 \<or> pc_of s' t = X_blocked \<and> waiters s' \<noteq> 0"
    and zero: "counter s' = 0 \<Longrightarrow> counter s = 0 \<or> pc_of s' t = N_down" and wt: "waiters s' \<noteq> 0 \<or> waiters s' = waiters s"
  shows "wakeups s'"
  unfolding wakeups_def
proof
  fix v assume v: "v \<in> blocked (mon s')"
  show "pc_of s' v = W_blocked \<and> (counter s' = 0 \<longrightarrow> (\<exists>u. pc_of s' u = N_down)) \<or> pc_of s' v = X_blocked \<and> waiters s' \<noteq> 0"
  proof (cases "v = t")
    case True
    then show ?thesis using new v by blast
  next
    case False
    then have "v \<in> blocked (mon s)" "pc_of s' v = pc_of s v" using v sub pcs by auto
    moreover have "pc_of s' u = N_down" if "pc_of s u = N_down" for u using that nd pcs by metis
    ultimately show ?thesis using w zero wt unfolding wakeups_def by metis
  qed
qed

text \<open>The last waiter wakes up the destructor, if it is blocked; nobody else is.\<close>

lemma last_waiter:
  assumes w: "wakeups s" and c: "counts k s" and d: "one_dtor s" and t: "t < length (pcs s)"
    and W: "pc_of s t = W_check" "waiters s = 1" and m: "notify_one u (mon s) = Some m"
  shows "blocked m = {}"
proof -
  have "regs s = 1" using unat_waiters [OF c] W(2) by simp
  then have one: "regs (goto t Idle s) = 0" using regs_goto_out [of t s Idle] t W(1) by simp
  have x: "pc_of s v = X_blocked" if "v \<in> blocked (mon s)" for v
  proof -
    have "v \<noteq> t" using that w W(1) by (auto simp: wakeups_def)
    then have "\<not> registered (pc_of s v)" using one latch_regs_pos [of "goto t Idle s" v] t by auto
    then show ?thesis using w that by (auto simp: wakeups_def)
  qed
  show ?thesis
  proof (cases u)
    case (Some v)
    then have "v' = v" if "v' \<in> blocked (mon s)" for v'
      using x [OF that] x [of v] notify_one_SomeD(3) [OF m] d by (auto simp: one_dtor_def)
    then show ?thesis using notify_one_SomeD(2) [OF m] Some by auto
  qed (use notify_one_SomeD [OF m] in simp)
qed

lemma latch_perform_wakeups:
  assumes w: "wakeups s" and c: "counts k s" and d: "one_dtor s"
    and t: "t < length (pcs s)" and p: "perform (pc_of s t) t u s = Some s'"
  shows "wakeups s'"
proof (cases "pc_of s t = N_down \<or> blocked (mon s') = {}")
  case True
  then show ?thesis using p by (auto simp: wakeups_def latch_op_defs)
next
  case False
  then have nd: "pc_of s t \<noteq> N_down" "blocked (mon s') \<noteq> {}" by auto
  have "waiters s' \<noteq> 0" if "pc_of s' t = W_check" "\<not> registered (pc_of s t)"
    using latch_perform_counts [OF c t p] waiters_zero [of k s'] latch_regs_pos [of s' t] that by auto
  then have reg: "waiters s + 1 \<noteq> 0" if "s' = goto t W_check (s\<lparr>waiters := waiters s + 1\<rparr>)" "pc_of s t = B_wait"
    using that t by auto
  have reg': "waiters s + 1 \<noteq> 0" if "s' = goto t W_check (s\<lparr>counter := counter s - 1, waiters := waiters s + 1\<rparr>)"
    "pc_of s t = B_down_wait"
    using \<open>pc_of s' t = W_check \<Longrightarrow> \<not> registered (pc_of s t) \<Longrightarrow> waiters s' \<noteq> 0\<close> that t by auto
  have nb: "t \<notin> blocked (mon s)" if "pc_of s t \<noteq> W_blocked" "pc_of s t \<noteq> X_blocked"
    using w that by (auto simp: wakeups_def)
  note last = last_waiter [OF w c d t]
  show ?thesis
  proof (rule wakeups_keep [OF w _ _ nd(1)])
    show "\<And>v. v \<noteq> t \<Longrightarrow> pc_of s' v = pc_of s v" using latch_perform_agrees [OF p refl t] by blast
    show "blocked (mon s') \<subseteq> insert t (blocked (mon s))"
      using p t nd by (cases "pc_of s t") (auto simp: latch_op_defs acquire_Some dest: notify_one_SomeD(2) split: if_splits)
    show "counter s' = 0 \<Longrightarrow> counter s = 0 \<or> pc_of s' t = N_down"
      using p t nd c by (cases "pc_of s t") (auto simp: latch_op_defs counts_def split: if_splits)
    show "waiters s' \<noteq> 0 \<or> waiters s' = waiters s"
      using p t nd reg reg' last by (cases "pc_of s t") (auto simp: latch_op_defs split: if_splits)
    show "t \<in> blocked (mon s') \<Longrightarrow>
        pc_of s' t = W_blocked \<and> counter s' \<noteq> 0 \<or> pc_of s' t = X_blocked \<and> waiters s' \<noteq> 0"
      using p t nd nb by (cases "pc_of s t") (auto simp: latch_op_defs acquire_Some dest: notify_one_SomeD(2) split: if_splits)
  qed
qed

definition linv :: "int \<Rightarrow> latch \<Rightarrow> bool" where
  "linv k s \<longleftrightarrow> counts k s \<and> one_dtor s \<and> wakeups s"

lemma linv_step:
  assumes i: "linv k s" and st: "lstep ok s l s'"
  shows "linv k s'"
  using st
proof (cases rule: lstep_cases)
  case (call f)
  have w: "wakeups s'"
  proof -
    have "fst l \<notin> blocked (mon s)" using i call(2) by (auto simp: linv_def wakeups_def)
    moreover have "pc_of s u = N_down \<Longrightarrow> u \<noteq> fst l" for u using call(2) by auto
    ultimately show ?thesis
      using i call(1) unfolding linv_def wakeups_def call(5)
      by (simp add: ball_conj_distrib) metis
  qed
  have "\<not> destroying (pc_of s u)" for u using i call(3) by (auto simp: linv_def one_dtor_def)
  then have "one_dtor s'" using call(1) by (cases f) (auto simp: one_dtor_def call(5))
  moreover have "counts k s'"
    using i call(1,2) by (cases f) (auto simp: linv_def counts_def call(5) regs_goto_same)
  ultimately show ?thesis using w by (simp add: linv_def)
next
  case (wake m)
  then show ?thesis using i wake_up_SomeD [OF wake(1)] by (auto simp: linv_def counts_def one_dtor_def wakeups_def)
next
  case (dead u)
  then show ?thesis using i by (auto simp: linv_def counts_def one_dtor_def wakeups_def)
next
  case (step u)
  then show ?thesis using i latch_perform_counts perform_one_dtor latch_perform_wakeups unfolding linv_def by blast
qed

interpretation latch_inv: invariant_system "latch_start k" "lstep ok" "linv k"
proof unfold_locales
  fix s assume "latch_start k s"
  then obtain n where s: "s = latch_init k n" "n < 2 ^ 32" "0 \<le> k" by (auto simp: latch_start_def)
  have "pc_of s t = Idle" "regs s = 0" for t
    by (auto simp: s(1) latch_init_def pc_of_def regs_def)
  then show "linv k s"
    using s(2,3) by (simp add: linv_def counts_def one_dtor_def wakeups_def) (simp add: s(1) latch_init_def)
qed (rule linv_step)

lemma latch_reach:
  assumes "0 \<le> k" "n < 2 ^ 32" "run (lstep ok) (latch_init k n) ls s"
  shows "linv k s" "latch_mutex.exclusive s"
proof -
  have "latch_start k (latch_init k n)" using assms(1,2) by (auto simp: latch_start_def)
  then show "linv k s" "latch_mutex.exclusive s"
    using assms(3) latch_inv.run_inv latch_mutex.run_exclusive by blast+
qed

section \<open>The counter\<close>

text \<open>A latch for the examples: counter 1, two threads; thread 1 counts down, thread 0 waits and leaves.\<close>

definition any_dtor :: "nat \<Rightarrow> latch \<Rightarrow> bool" where
  "any_dtor t s \<longleftrightarrow> True"

definition wait_labels :: "(nat \<times> label) list" where
  "wait_labels = [(1, Call (Count_down 1)), (1, Step None), (1, Step None),
     (0, Call Wait), (0, Step None), (0, Step None)]"

definition wait_latch :: latch where
  "wait_latch = the (latch_steps any_dtor wait_labels (latch_init 1 2))"

lemma wait_run: "run (lstep any_dtor) (latch_init 1 2) wait_labels wait_latch"
  by (rule latch_steps_run) (unfold wait_latch_def, code_simp)

text \<open>
  C32. In every interleaving of calls on a latch, the counter stays between zero and its
  first value, \<open>waiters_\<close> is the number of threads inside the two waiting functions (it
  does not wrap), and at most one thread is in a critical section.
\<close>

theorem latch_bounds:
  assumes "0 \<le> k" "n < 2 ^ 32" "run (lstep ok) (latch_init k n) ls s"
  shows "0 \<le> counter s \<and> counter s \<le> k \<and> unat (waiters s) = length (filter registered (pcs s)) \<and>
    (\<forall>t u. inside (pc_of s t) \<and> inside (pc_of s u) \<longrightarrow> t = u)"
  using latch_reach [OF assms] unat_waiters [of k s]
  by (auto simp: linv_def counts_def regs_def latch_mutex.exclusive_def)

theorem latch_bounds_witness:
  "0 \<le> counter wait_latch \<and> counter wait_latch \<le> 1 \<and>
    unat (waiters wait_latch) = length (filter registered (pcs wait_latch)) \<and>
    inside (pc_of wait_latch 0) \<and> \<not> inside (pc_of wait_latch 1)"
proof -
  have "inside (pc_of wait_latch 0)" unfolding wait_latch_def by code_simp
  then show ?thesis using latch_bounds [OF _ _ wait_run] by fastforce
qed

lemma perform_counter:
  assumes "perform (pc_of s t) t u s = Some s'"
  shows "counter s' \<le> counter s"
  using assms by (cases "pc_of s t") (auto simp: latch_op_defs split: if_splits)

lemma counter_decreases: "lstep ok s l s' \<Longrightarrow> counter s' \<le> counter s"
  by (erule lstep_cases) (auto intro: perform_counter)

lemma counter_stays_zero:
  "run (lstep ok) s ls s' \<Longrightarrow> linv k s \<Longrightarrow> counter s = 0 \<Longrightarrow> counter s' = 0 \<and> linv k s'"
proof (induction rule: run.induct)
  case (run_snoc s ls t l u)
  then have "linv k u" "counter u \<le> 0" using linv_step counter_decreases by fastforce+
  then show ?case by (auto simp: linv_def counts_def)
qed simp

fun waiting :: "pc \<Rightarrow> bool" where
  "waiting E_down_wait = True"
| "waiting B_down_wait = True"
| "waiting E_wait = True"
| "waiting B_wait = True"
| "waiting W_check = True"
| "waiting W_blocked = True"
| "waiting _ = False"

lemma leaves_wait:
  assumes "lstep ok s l s'" "waiting (pc_of s (fst l))" "pc_of s' (fst l) = Idle"
  shows "counter s' = 0"
  using assms(1)
proof (cases rule: lstep_cases)
  case (step u)
  then show ?thesis
    using assms(2,3) by (cases "pc_of s (fst l)") (auto simp: latch_op_defs split: if_splits)
qed (use assms(2,3) in auto)

text \<open>
  C29. The barrier: a call of \<open>wait\<close> or \<open>count_down_and_wait\<close> returns only when the
  counter is zero, and from then on the counter is zero for ever.
\<close>

theorem latch_barrier:
  assumes "0 \<le> k" "n < 2 ^ 32" "run (lstep ok) (latch_init k n) ls s"
    and "lstep ok s (t, l) s'" "waiting (pc_of s t)" "pc_of s' t = Idle"
    and "run (lstep ok) s' ls' s''"
  shows "counter s'' = 0"
  using leaves_wait [OF assms(4)] linv_step [OF latch_reach(1) [OF assms(1-3)] assms(4)]
    counter_stays_zero [OF assms(7)] assms(5,6) by auto

theorem latch_barrier_witness:
  "counter (the (latch_step any_dtor 0 (Step None) wait_latch)) = 0"
proof (rule latch_barrier [OF _ _ wait_run])
  show "lstep any_dtor wait_latch (0, Step None) (the (latch_step any_dtor 0 (Step None) wait_latch))"
    unfolding lstep_def fst_conv snd_conv wait_latch_def by code_simp
  show "run (lstep any_dtor) (the (latch_step any_dtor 0 (Step None) wait_latch)) []
      (the (latch_step any_dtor 0 (Step None) wait_latch))" by (rule run_nil)
  show "waiting (pc_of wait_latch 0)" unfolding wait_latch_def by code_simp
  show "pc_of (the (latch_step any_dtor 0 (Step None) wait_latch)) 0 = Idle" unfolding wait_latch_def by code_simp
qed simp_all


section \<open>Waiting ends\<close>

text \<open>A step of a call that was made: not a new call, not a spurious wakeup.\<close>

definition own_step :: "(nat \<Rightarrow> latch \<Rightarrow> bool) \<Rightarrow> latch \<Rightarrow> nat \<times> label \<Rightarrow> latch \<Rightarrow> bool" where
  "own_step ok s l s' \<longleftrightarrow> lstep ok s l s' \<and> (\<exists>u. snd l = Step u)"

fun weight :: "pc \<Rightarrow> nat" where
  "weight E_down_wait = 3"
| "weight B_down_wait = 2"
| "weight (E_down _) = 4"
| "weight (B_down _) = 3"
| "weight N_down = 2"
| "weight E_ready = 2"
| "weight B_ready = 1"
| "weight E_wait = 3"
| "weight B_wait = 2"
| "weight W_check = 1"
| "weight W_blocked = 2"
| "weight _ = 0"

definition dtor_weight :: "latch \<Rightarrow> nat" where
  "dtor_weight s =
     (if \<exists>t. pc_of s t = E_dtor then 3
      else if \<exists>t. pc_of s t = X_blocked \<and> t \<notin> blocked (mon s) then 2
      else if \<exists>t. pc_of s t = X_check then 1 else 0)"

text \<open>
  The steps that are left when the counter is zero; the destructor may be woken up once
  by each step of another thread.
\<close>

definition work :: "latch \<Rightarrow> nat" where
  "work s = 4 * sum_list (map weight (pcs s)) + dtor_weight s + (if fault s = None then 1 else 0)"

definition pcs_weight :: "latch \<Rightarrow> nat" where
  "pcs_weight s = sum_list (map weight (pcs s))"

lemma pcs_weight_goto:
  assumes "t < length (pcs s)"
  shows "pcs_weight (goto t p s) + weight (pc_of s t) = pcs_weight s + weight p"
proof -
  have "weight (pcs s ! t) \<le> sum_list (map weight (pcs s))"
    using assms by (intro member_le_sum_list) auto
  then show ?thesis
    using assms by (simp add: pcs_weight_def goto_def pc_of_def map_update sum_list_update)
qed

lemma pcs_weight_update [simp]:
  "pcs_weight (s\<lparr>mon := m\<rparr>) = pcs_weight s" "pcs_weight (s\<lparr>counter := c\<rparr>) = pcs_weight s"
  "pcs_weight (s\<lparr>waiters := w\<rparr>) = pcs_weight s" "pcs_weight (s\<lparr>fault := f\<rparr>) = pcs_weight s"
  "pcs_weight (s\<lparr>dead := d\<rparr>) = pcs_weight s" "pcs_weight (s\<lparr>answers := a\<rparr>) = pcs_weight s"
  by (simp_all add: pcs_weight_def)

lemma dtor_weight_le: "dtor_weight s \<le> 3"
  by (simp add: dtor_weight_def)

lemma pcs_weight_eq:
  "t < length (pcs s) \<Longrightarrow> pcs_weight (goto t p s) = pcs_weight s + weight p - weight (pc_of s t)"
  using pcs_weight_goto [of t s p] by simp

lemma pcs_weight_ge: "t < length (pcs s) \<Longrightarrow> weight (pc_of s t) \<le> pcs_weight s"
  using pcs_weight_goto [of t s Idle] by simp

lemma perform_other_work:
  assumes z: "counter s = 0" and t: "t < length (pcs s)" and d: "\<not> destroying (pc_of s t)"
    and p: "perform (pc_of s t) t u s = Some s'" and f: "fault s = None" "fault s' = None"
  shows "pcs_weight s' < pcs_weight s"
  using p f pcs_weight_ge [OF t]
  by (cases "pc_of s t"; use z d t in \<open>auto simp: latch_op_defs pcs_weight_eq split: if_splits\<close>)

text \<open>The destructor's own steps; the others are where they were.\<close>

lemma perform_dtor_work:
  assumes d: "destroying (pc_of s t)" "one_dtor s" and t: "t < length (pcs s)"
    and p: "perform (pc_of s t) t u s = Some s'"
  shows "pcs_weight s' = pcs_weight s \<and> dtor_weight s' < dtor_weight s"
proof -
  have one: "pc_of s v \<noteq> E_dtor \<and> pc_of s v \<noteq> X_check \<and> pc_of s v \<noteq> X_blocked" if "v \<noteq> t" for v
    using d that unfolding one_dtor_def by (metis destroying.simps(1-3))
  have ex: "(\<exists>v. pc_of s v = q \<and> P v) \<longleftrightarrow> pc_of s t = q \<and> P t"
    if "q = E_dtor \<or> q = X_check \<or> q = X_blocked" for q P using one that by metis
  have w: "dtor_weight s = (if pc_of s t = E_dtor then 3 else if pc_of s t = X_blocked \<and> t \<notin> blocked (mon s) then 2
      else if pc_of s t = X_check then 1 else 0)"
    using ex [of _ "\<lambda>_. True"] ex [of X_blocked "\<lambda>v. v \<notin> blocked (mon s)"] by (simp add: dtor_weight_def)
  have ag: "pc_of s' v = pc_of s v" if "v \<noteq> t" for v using latch_perform_agrees [OF p refl t] that by blast
  have ex': "(\<exists>v. pc_of s' v = q \<and> P v) \<longleftrightarrow> pc_of s' t = q \<and> P t"
    if "q = E_dtor \<or> q = X_check \<or> q = X_blocked" for q P using one ag that by metis
  have w': "dtor_weight s' = (if pc_of s' t = E_dtor then 3 else if pc_of s' t = X_blocked \<and> t \<notin> blocked (mon s') then 2
      else if pc_of s' t = X_check then 1 else 0)"
    using ex' [of _ "\<lambda>_. True"] ex' [of X_blocked "\<lambda>v. v \<notin> blocked (mon s')"] by (simp add: dtor_weight_def)
  show ?thesis
    unfolding w w' using d(1) t p
    by (cases "pc_of s t") (auto simp: latch_op_defs pcs_weight_eq acquire_Some split: if_splits)
qed

text \<open>With the counter at zero every step of a call leaves less to do.\<close>

lemma own_step_work:
  assumes i: "linv k s" and z: "counter s = 0" and st: "own_step ok s l s'"
  shows "work s' < work s"
proof -
  have t: "fault s = None" using st lstep_running [of ok s l s'] by (simp add: own_step_def)
  from st have "lstep ok s l s'" "\<exists>u. snd l = Step u" by (auto simp: own_step_def)
  then show ?thesis
  proof (cases rule: lstep_cases)
    case (dead u)
    then show ?thesis using t by (simp add: work_def dtor_weight_def)
  next
    case (step u)
    show ?thesis
    proof (cases "fault s'")
      case (Some e)
      then have "s' = s\<lparr>fault := Some Assertion_failed\<rparr>"
        using step t by (cases "pc_of s (fst l)") (auto simp: latch_op_defs split: if_splits)
      then show ?thesis using t by (simp add: work_def dtor_weight_def)
    next
      case None
      show ?thesis
      proof (cases "destroying (pc_of s (fst l))")
        case True
        then show ?thesis
          using perform_dtor_work [OF True _ step(1,3)] i t None by (simp add: linv_def work_def pcs_weight_def)
      next
        case False
        then show ?thesis
          using perform_other_work [OF z step(1) False step(3) t None] dtor_weight_le [of s'] t None
          by (simp add: work_def pcs_weight_def)
      qed
    qed
  qed auto
qed

lemma own_run_bound:
  "run (own_step ok) s ls s' \<Longrightarrow> linv k s \<Longrightarrow> counter s = 0 \<Longrightarrow>
    length ls + work s' \<le> work s \<and> linv k s' \<and> counter s' = 0"
proof (induction rule: run.induct)
  case (run_snoc s ls t l u)
  then have "linv k t" "counter t = 0" "lstep ok t l u" by (auto simp: own_step_def)
  then have "linv k u \<and> counter u = 0" using counter_stays_zero [OF run_single] by blast
  then show ?case using own_step_work [OF _ _ run_snoc(2)] run_snoc by fastforce
qed simp

text \<open>With the counter at zero a thread that is in a call can go on, or another one can.\<close>

lemma some_step:
  assumes i: "linv k s" and x: "latch_mutex.exclusive s" and z: "counter s = 0"
    and f: "fault s = None" and busy: "pc_of s t \<noteq> Idle"
  shows "\<exists>l s'. own_step ok s l s'"
proof -
  have len: "v < length (pcs s)" if "pc_of s v \<noteq> Idle" for v using that by (auto simp: pc_of_def split: if_splits)
  have go: "\<exists>l s'. own_step ok s l s'" if "pc_of s v \<noteq> Idle" "perform (pc_of s v) v u s \<noteq> None" for v u
  proof -
    have "pcs s ! v = pc_of s v" using len [OF that(1)] by (simp add: pc_of_def)
    then have "own_step ok s (v, Step u) (if dead s then s\<lparr>fault := Some Destroyed\<rparr> else the (perform (pc_of s v) v u s))"
      using that len [OF that(1)] f by (auto simp: own_step_def lstep_def latch_step_def)
    then show ?thesis by blast
  qed
  obtain u m where u: "notify_one u (mon s) = Some m" using notify_one_possible by blast
  show ?thesis
  proof (cases "\<exists>v. inside (pc_of s v)")
    case True
    then obtain v where v: "inside (pc_of s v)" ..
    then have "perform (pc_of s v) v u s \<noteq> None" by (cases "pc_of s v") (auto simp: latch_op_defs u z)
    moreover have "pc_of s v \<noteq> Idle" using v by auto
    ultimately show ?thesis using go by blast
  next
    case False
    then have h: "holder (mon s) = None" using x by (cases "holder (mon s)") (auto simp: latch_mutex.exclusive_def)
    show ?thesis
    proof (cases "\<exists>v. pc_of s v \<noteq> Idle \<and> v \<notin> blocked (mon s)")
      case True
      then obtain v where v: "pc_of s v \<noteq> Idle" "v \<notin> blocked (mon s)" by blast
      then have "perform (pc_of s v) v u s \<noteq> None"
        using False h by (cases "pc_of s v") (auto simp: latch_op_defs acquire_def reacquire_def u)
      then show ?thesis using go v(1) by blast
    next
      case all: False
      have nd: "pc_of s v \<noteq> N_down" for v
        using all i by (auto simp: linv_def wakeups_def) (metis pc.distinct)
      have "\<exists>v. registered (pc_of s v)"
      proof (cases "pc_of s t = X_blocked")
        case True
        then have "t \<in> blocked (mon s)" using all busy by blast
        then have "waiters s \<noteq> 0" using True i by (auto simp: linv_def wakeups_def)
        then have "0 < regs s" using i waiters_zero [of k s] by (auto simp: linv_def)
        then show ?thesis using count_pos [of registered "pcs s"] by (auto simp: regs_def pc_of_def simp del: length_greater_0_conv)
      next
        case False
        then have "pc_of s t = W_blocked" using all i busy by (auto simp: linv_def wakeups_def)
        then show ?thesis by (intro exI [of _ t]) simp
      qed
      then obtain v where v: "registered (pc_of s v)" ..
      then have "pc_of s v \<noteq> Idle" "pc_of s v \<noteq> X_blocked" by auto
      moreover from this have "v \<in> blocked (mon s)" using all by blast
      ultimately show ?thesis using i z nd by (auto simp: linv_def wakeups_def)
    qed
  qed
qed


text \<open>
  C30. Once the counter is zero, waiting ends: the calls that are in progress can make
  only so many steps, and when none of them can go on, every call has returned, the
  destructor's included (or an assertion failed, or a call found the latch destroyed).
  No wakeup is lost, although \<open>count_down\<close> notifies after it let go of the mutex and
  the last waiter notifies just one thread.
\<close>

theorem latch_waits_end:
  assumes "0 \<le> k" "n < 2 ^ 32" "run (lstep ok) (latch_init k n) ls s" "counter s = 0"
    and "run (own_step ok) s ls' s'"
  shows "length ls' \<le> work s \<and>
    ((\<nexists>l s''. own_step ok s' l s'') \<longrightarrow> fault s' \<noteq> None \<or> (\<forall>t. pc_of s' t = Idle))"
proof -
  have own: "run (lstep ok) s ls' s'"
    using assms(5) by (induction rule: run.induct) (auto simp: own_step_def intro: run_nil run_snoc)
  have "length ls' + work s' \<le> work s \<and> linv k s' \<and> counter s' = 0"
    using own_run_bound [OF assms(5) latch_reach(1) [OF assms(1-3)] assms(4)] .
  moreover have "latch_mutex.exclusive s'" by (rule latch_reach(2) [OF assms(1,2) run_trans [OF own assms(3)]])
  ultimately show ?thesis using some_step by (metis add_leD1)
qed

theorem latch_waits_end_witness:
  "length [(0 :: nat, Step None)] \<le> work wait_latch \<and>
    pcs (the (latch_step any_dtor 0 (Step None) wait_latch)) = [Idle, N_down]"
proof
  have r: "run (own_step any_dtor) wait_latch [(0, Step None)] (the (latch_step any_dtor 0 (Step None) wait_latch))"
    by (rule run_single, unfold own_step_def lstep_def fst_conv snd_conv wait_latch_def, rule conjI, code_simp, simp)
  have z: "counter wait_latch = 0" unfolding wait_latch_def by code_simp
  show "length [(0 :: nat, Step None)] \<le> work wait_latch"
    by (rule latch_waits_end [OF _ _ wait_run z r, THEN conjunct1]) simp_all
  show "pcs (the (latch_step any_dtor 0 (Step None) wait_latch)) = [Idle, N_down]"
    unfolding wait_latch_def by code_simp
qed

section \<open>The destructor\<close>

text \<open>
  When the destructor may be called. The first condition is what the Concurrency TS
  asks for: every call has passed its own count, so that nobody is kept waiting. The
  second one also asks that nobody is still inside \<open>count_down\<close>.
\<close>

fun past_count :: "pc \<Rightarrow> bool" where
  "past_count Idle = True"
| "past_count W_check = True"
| "past_count W_blocked = True"
| "past_count N_down = True"
| "past_count _ = False"

definition unblocked_dtor :: "nat \<Rightarrow> latch \<Rightarrow> bool" where
  "unblocked_dtor t s \<longleftrightarrow> counter s = 0 \<and> list_all past_count (pcs s)"

definition quiet_dtor :: "nat \<Rightarrow> latch \<Rightarrow> bool" where
  "quiet_dtor t s \<longleftrightarrow> counter s = 0 \<and> list_all (\<lambda>p. past_count p \<and> p \<noteq> N_down) (pcs s)"

definition closing_inv :: "latch \<Rightarrow> bool" where
  "closing_inv s \<longleftrightarrow> fault s \<noteq> Some Destroyed \<and> (dead s \<longrightarrow> closing s \<and> (\<forall>t. pc_of s t = Idle)) \<and>
     (closing s \<longrightarrow> counter s = 0 \<and> (\<forall>t. pc_of s t = Idle \<or> registered (pc_of s t) \<or> destroying (pc_of s t)))"

lemma perform_closing:
  assumes c: "closing_inv s" and i: "counts k s" "one_dtor s" and t: "t < length (pcs s)"
    and nd: "\<not> dead s" and p: "perform (pc_of s t) t u s = Some s'" and f: "fault s = None"
  shows "closing_inv s'"
proof (cases "pc_of s t = X_check \<and> waiters s = 0")
  case True
  have "regs s = 0" using True waiters_zero [OF i(1)] by blast
  then have "\<not> registered (pc_of s v)" for v using latch_regs_pos [of s v] by auto
  moreover have "v = t" if "destroying (pc_of s v)" for v using i(2) True that unfolding one_dtor_def by (metis destroying.simps(2))
  moreover have "closing s" using i(2) True unfolding one_dtor_def by (metis destroying.simps(2))
  ultimately have "pc_of s v = Idle" if "v \<noteq> t" for v using c that unfolding closing_inv_def by blast
  moreover have s': "s' = leave t (s\<lparr>dead := True\<rparr>)" using True p by (simp add: latch_op_defs)
  ultimately have "pc_of s' v = Idle" for v using t by (cases "v = t") (simp_all add: leave_def)
  then show ?thesis using c f \<open>closing s\<close> by (simp add: closing_inv_def s' leave_def)
next
  case False
  have "closing s' = closing s" "fault s' \<noteq> Some Destroyed"
    using p t f by (cases "pc_of s t"; auto simp: latch_op_defs split: if_splits)+
  moreover have "\<not> dead s'" using p False nd by (cases "pc_of s t") (auto simp: latch_op_defs split: if_splits)
  moreover have "counter s' = 0 \<and> (\<forall>v. pc_of s' v = Idle \<or> registered (pc_of s' v) \<or> destroying (pc_of s' v))"
    if cl: "closing s"
  proof -
    have *: "counter s = 0" "pc_of s v = Idle \<or> registered (pc_of s v) \<or> destroying (pc_of s v)" for v
      using c cl by (auto simp: closing_inv_def)
    have "counter s' = 0 \<and> (pc_of s' t = Idle \<or> registered (pc_of s' t) \<or> destroying (pc_of s' t))"
      using p t *(1) *(2) [of t] by (cases "pc_of s t") (auto simp: latch_op_defs split: if_splits)
    then show ?thesis using *(2) latch_perform_agrees [OF p refl t] by metis
  qed
  ultimately show ?thesis by (simp add: closing_inv_def)
qed

lemma closing_step:
  assumes ok: "\<And>t s. ok t s \<Longrightarrow> quiet_dtor t s" and c: "closing_inv s" and i: "linv k s" and st: "lstep ok s l s'"
  shows "closing_inv s'"
  using st
proof (cases rule: lstep_cases)
  case (call f)
  have nd: "\<not> dead s" using c call(3) by (auto simp: closing_inv_def)
  have q: "counter s = 0 \<and> (pc_of s v = Idle \<or> registered (pc_of s v))" if "f = Destroy" for v
    using ok [OF call(4) [OF that]] by (auto simp: quiet_dtor_def list_all_length pc_of_def elim!: past_count.elims) 
  show ?thesis
  proof (cases "f = Destroy")
    case True
    then show ?thesis using q c nd call(1) by (auto simp: closing_inv_def call(5))
  next
    case False
    then show ?thesis using c nd call(1) by (auto simp: closing_inv_def call(5))
  qed
next
  case (wake m)
  then show ?thesis using c by (auto simp: closing_inv_def)
next
  case (dead u)
  then show ?thesis using c by (auto simp: closing_inv_def)
next
  case (step u)
  then show ?thesis
    using perform_closing [OF c _ _ step(1,2,3)] i lstep_running [OF st] by (auto simp: linv_def)
qed

lemma closing_run:
  assumes ok: "\<And>t s. ok t s \<Longrightarrow> quiet_dtor t s"
  shows "run (lstep ok) s ls s' \<Longrightarrow> closing_inv s \<Longrightarrow> linv k s \<Longrightarrow> closing_inv s' \<and> linv k s'"
  by (induction rule: run.induct) (auto intro: closing_step [OF ok] linv_step)

definition quiet_labels :: "(nat \<times> label) list" where
  "quiet_labels = [(1, Call Wait), (1, Step None), (1, Step None), (1, Step None),
     (0, Call (Count_down 1)), (0, Step None), (0, Step None), (0, Step None),
     (0, Call Destroy), (0, Step None), (0, Step None), (1, Step None), (1, Step (Some 0)), (0, Step None), (0, Step None)]"

definition quiet_latch :: latch where
  "quiet_latch = the (latch_steps quiet_dtor quiet_labels (latch_init 1 2))"

lemma quiet_run: "run (lstep quiet_dtor) (latch_init 1 2) quiet_labels quiet_latch"
  by (rule latch_steps_run) (unfold quiet_latch_def, code_simp)

text \<open>
  C31. Destruction is safe while other threads have not yet returned from \<open>wait\<close> or
  \<open>count_down_and_wait\<close>: if the destructor is called only when the counter is zero and
  nobody is inside another function or \<open>count_down\<close>, no thread ever finds the latch
  destroyed, and when the destructor is over every call has returned.
\<close>

theorem latch_dtor_waits:
  assumes "0 \<le> k" "n < 2 ^ 32" "run (lstep ok) (latch_init k n) ls s"
    and ok: "\<And>t s. ok t s \<Longrightarrow> quiet_dtor t s"
  shows "fault s \<noteq> Some Destroyed \<and> (dead s \<longrightarrow> (\<forall>t. pc_of s t = Idle))"
proof -
  have "closing_inv (latch_init k n)" by (simp add: closing_inv_def latch_init_def)
  then have "closing_inv s"
    using closing_run [OF ok assms(3)] latch_reach(1) [OF assms(1,2) run_nil] by blast
  then show ?thesis by (simp add: closing_inv_def)
qed

theorem latch_dtor_waits_witness:
  "fault quiet_latch \<noteq> Some Destroyed \<and> dead quiet_latch \<and> (\<forall>t. pc_of quiet_latch t = Idle)"
proof -
  have "dead quiet_latch" unfolding quiet_latch_def by code_simp
  then show ?thesis using latch_dtor_waits [OF _ _ quiet_run] by simp
qed

definition race_labels :: "(nat \<times> label) list" where
  "race_labels = [(1, Call (Count_down 1)), (1, Step None), (1, Step None),
     (0, Call Wait), (0, Step None), (0, Step None), (0, Step None),
     (0, Call Destroy), (0, Step None), (0, Step None), (1, Step None)]"

text \<open>
  C40. The destructor does not wait for \<open>count_down\<close>: after a thread that waited found
  the counter at zero and returned, it may destroy the latch (the usual life of a
  latch on the stack of the waiting thread), while the thread that counted down has
  let go of the mutex and has not yet called \<open>cv_.notify_all\<close>, which it then does on
  a condition variable that no longer exists.
\<close>

theorem latch_count_down_race:
  "\<exists>s. run (lstep unblocked_dtor) (latch_init 1 2) race_labels s \<and> fault s = Some Destroyed \<and> pc_of s 1 = N_down"
proof -
  have "latch_steps unblocked_dtor race_labels (latch_init 1 2) =
      Some (the (latch_steps unblocked_dtor race_labels (latch_init 1 2)))" by code_simp
  moreover have "fault (the (latch_steps unblocked_dtor race_labels (latch_init 1 2))) = Some Destroyed"
    "pc_of (the (latch_steps unblocked_dtor race_labels (latch_init 1 2))) 1 = N_down" by code_simp+
  ultimately show ?thesis by (blast intro: latch_steps_run)
qed

end
