(* ===== verification/Closable_Queue.thy ===== *)
theory Closable_Queue
  imports Monitor
begin

text \<open>
  \<open>detail::closable_queue\<close> of \<open>bits/closable_queue.h\<close> and \<open>bits/closable_queue.hpp\<close>,
  the queue of the thread pool: any number of threads push, pop and close. What an
  operation does with its mutex taken is a function on the queue's data; the threads,
  the mutex and the condition variable are around it.

  The theory proves that the operations are atomic and first-in first-out, that no
  wakeup is lost although \<open>push\<close> notifies just one thread, and that \<open>pop\<close> destroys the
  previous value of its argument with the mutex taken, which blocks for ever a thread
  whose value pushes to the queue when it is destroyed.
\<close>

section \<open>The data and what is done with it\<close>

record 'a cqueue =
  items :: "'a list"
  closed :: bool

definition empty_queue :: "'a cqueue" where
  "empty_queue = \<lparr>items = [], closed = False\<rparr>"

definition push_item :: "'a \<Rightarrow> 'a cqueue \<Rightarrow> 'a cqueue" where
  "push_item v q = (if closed q then q else q\<lparr>items := items q @ [v]\<rparr>)"

text \<open>
  \<open>pop\<close>, for a queue that the wait is over for: the value, or \<open>None\<close> when the queue is
  closed and empty. The outer \<open>None\<close>: the condition of the wait does not hold.
\<close>

definition pop_item :: "'a cqueue \<Rightarrow> ('a option \<times> 'a cqueue) option" where
  "pop_item q = (if \<not> (closed q \<or> items q \<noteq> []) then None else
     case items q of
       [] \<Rightarrow> Some (None, q)
     | v # vs \<Rightarrow> Some (Some v, q\<lparr>items := vs\<rparr>))"

definition close_queue :: "'a cqueue \<Rightarrow> 'a cqueue" where
  "close_queue q = q\<lparr>closed := True\<rparr>"

text \<open>
  The interface of a queue of work that can be closed, for the threads that share it:
  what is put in comes out in order, and after closing nothing is put in any more.
\<close>

locale work_queue =
  fixes content :: "'q \<Rightarrow> 'v list"
    and shut :: "'q \<Rightarrow> bool"
    and put :: "'v \<Rightarrow> 'q \<Rightarrow> 'q"
    and take_one :: "'q \<Rightarrow> ('v option \<times> 'q) option"
    and do_shut :: "'q \<Rightarrow> 'q"
  assumes put_content: "content (put v q) = content q @ (if shut q then [] else [v])"
    and put_shut: "shut (put v q) = shut q"
    and take_content: "take_one q = Some (r, q') \<Longrightarrow> content q = (case r of None \<Rightarrow> [] | Some v \<Rightarrow> [v]) @ content q'"
    and take_shut: "take_one q = Some (r, q') \<Longrightarrow> shut q' = shut q"
    and take_none: "take_one q = Some (None, q') \<Longrightarrow> shut q"
    and take_blocks: "take_one q = None \<longleftrightarrow> content q = [] \<and> \<not> shut q"
    and do_shut_content: "content (do_shut q) = content q"
    and do_shut_shut: "shut (do_shut q)"
begin

text \<open>A sequence of operations: \<open>Inl v\<close> puts \<open>v\<close> in, \<open>Inr r\<close> takes \<open>r\<close> out.\<close>

inductive uses :: "'q \<Rightarrow> ('v + 'v option) list \<Rightarrow> 'q \<Rightarrow> bool" where
  uses_nil: "uses q [] q"
| uses_put: "uses q es q' \<Longrightarrow> \<not> shut q' \<Longrightarrow> uses q (es @ [Inl v]) (put v q')"
| uses_refused: "uses q es q' \<Longrightarrow> shut q' \<Longrightarrow> uses q es (put v q')"
| uses_take: "uses q es q' \<Longrightarrow> take_one q' = Some (r, q'') \<Longrightarrow> uses q (es @ [Inr r]) q''"
| uses_shut: "uses q es q' \<Longrightarrow> uses q es (do_shut q')"

fun taken :: "('v + 'v option) list \<Rightarrow> 'v list" where
  "taken [] = []"
| "taken (Inr (Some v) # es) = v # taken es"
| "taken (_ # es) = taken es"

fun accepted :: "('v + 'v option) list \<Rightarrow> 'v list" where
  "accepted [] = []"
| "accepted (Inl v # es) = v # accepted es"
| "accepted (_ # es) = accepted es"

lemma taken_append [simp]: "taken (es @ fs) = taken es @ taken fs"
  by (induction es rule: taken.induct) auto

lemma accepted_append [simp]: "accepted (es @ fs) = accepted es @ accepted fs"
  by (induction es rule: accepted.induct) auto

text \<open>What was accepted is what was taken, in order, and then what is left.\<close>

lemma uses_fifo: "uses q es q' \<Longrightarrow> content q @ accepted es = taken es @ content q'"
proof (induction rule: uses.induct)
  case (uses_take q es q' r q'')
  then show ?case using take_content [OF uses_take(2)] by (cases r) auto
qed (simp_all add: put_content do_shut_content flip: append_assoc)

text \<open>Nothing is accepted any more after closing.\<close>

lemma uses_shut_stays: "uses q es q' \<Longrightarrow> shut q \<Longrightarrow> shut q' \<and> accepted es = []"
  by (induction rule: uses.induct) (auto simp: put_shut do_shut_shut dest: take_shut split: option.splits)

end

interpretation cq: work_queue items closed push_item pop_item close_queue
  by unfold_locales (auto simp: push_item_def pop_item_def close_queue_def split: list.splits if_splits)

section \<open>Threads\<close>

text \<open>
  Where a thread is: before it takes the mutex (\<open>E\<close>), with it (\<open>B\<close>), blocked in
  \<open>cv_.wait\<close>, or, still with the mutex, in the destructor of the value that \<open>pop\<close>
  swapped out of \<open>dest\<close>, which calls \<open>push\<close> on the same queue.
\<close>

datatype 'a pc =
    Idle
  | E_push 'a
  | B_push 'a
  | E_pop
  | B_pop
  | P_blocked
  | D_push 'a
  | E_close
  | B_close

text \<open>\<open>dest\<close> is the variable that a thread passes to \<open>pop\<close> each time; at first it is empty.\<close>

record 'a qsys =
  que :: "'a cqueue"
  mon :: monitor
  pcs :: "'a pc list"
  dest :: "'a option list"

definition queue_init :: "nat \<Rightarrow> 'a qsys" where
  "queue_init n = \<lparr>que = empty_queue, mon = new_monitor, pcs = replicate n Idle, dest = replicate n None\<rparr>"

definition goto :: "nat \<Rightarrow> 'a pc \<Rightarrow> 'a qsys \<Rightarrow> 'a qsys" where
  "goto t p s = s\<lparr>pcs := (pcs s)[t := p]\<rparr>"

definition enter :: "monitor option \<Rightarrow> nat \<Rightarrow> 'a pc \<Rightarrow> 'a qsys \<Rightarrow> 'a qsys option" where
  "enter r t p s = map_option (\<lambda>m. goto t p (s\<lparr>mon := m\<rparr>)) r"

definition leave :: "nat \<Rightarrow> 'a qsys \<Rightarrow> 'a qsys" where
  "leave t s = goto t Idle (s\<lparr>mon := unlock (mon s)\<rparr>)"

datatype 'a event =
    Tau
  | Pushed 'a
  | Ignored 'a
  | Popped 'a
  | Pop_closed
  | Closed

text \<open>
  The three operations, with the mutex taken. \<open>posts v\<close> is what the destructor of \<open>v\<close>
  pushes to the queue, if it does; it belongs to the queue's client. \<open>u\<close> is the thread
  that \<open>notify_one\<close> wakes up.
\<close>

definition push :: "nat \<Rightarrow> 'a \<Rightarrow> nat option \<Rightarrow> 'a qsys \<Rightarrow> ('a event \<times> 'a qsys) option" where
  "push t v u s =
     (if closed (que s) then Some (Ignored v, leave t s)
      else map_option (\<lambda>m. (Pushed v, leave t (s\<lparr>que := push_item v (que s), mon := m\<rparr>))) (notify_one u (mon s)))"

definition pop :: "('a \<Rightarrow> 'a option) \<Rightarrow> nat \<Rightarrow> 'a qsys \<Rightarrow> 'a event \<times> 'a qsys" where
  "pop posts t s = (case pop_item (que s) of
     None \<Rightarrow> (Tau, goto t P_blocked (s\<lparr>mon := block_on t (mon s)\<rparr>))
   | Some (None, q) \<Rightarrow> (Pop_closed, leave t s)
   | Some (Some v, q) \<Rightarrow>
       (let s' = s\<lparr>que := q, dest := (dest s)[t := Some v]\<rparr> in
        (Popped v, case Option.bind (dest s ! t) posts of None \<Rightarrow> leave t s' | Some w \<Rightarrow> goto t (D_push w) s')))"

definition close :: "nat \<Rightarrow> 'a qsys \<Rightarrow> 'a event \<times> 'a qsys" where
  "close t s = (Closed, leave t (s\<lparr>que := close_queue (que s), mon := notify_all (mon s)\<rparr>))"

definition quiet :: "'a qsys option \<Rightarrow> ('a event \<times> 'a qsys) option" where
  "quiet r = map_option (\<lambda>s. (Tau, s)) r"

fun perform :: "('a \<Rightarrow> 'a option) \<Rightarrow> 'a pc \<Rightarrow> nat \<Rightarrow> nat option \<Rightarrow> 'a qsys \<Rightarrow> ('a event \<times> 'a qsys) option" where
  "perform posts Idle t u s = None"
| "perform posts (E_push v) t u s = quiet (enter (acquire t (mon s)) t (B_push v) s)"
| "perform posts (B_push v) t u s = push t v u s"
| "perform posts E_pop t u s = quiet (enter (acquire t (mon s)) t B_pop s)"
| "perform posts B_pop t u s = Some (pop posts t s)"
| "perform posts P_blocked t u s = quiet (enter (reacquire t (mon s)) t B_pop s)"
| "perform posts (D_push w) t u s = None"
| "perform posts E_close t u s = quiet (enter (acquire t (mon s)) t B_close s)"
| "perform posts B_close t u s = Some (close t s)"

text \<open>
  The thread in \<open>D_push\<close> waits for a mutex that it holds itself (undefined behaviour of
  \<open>std::mutex\<close>, in practice it never returns), so it has no step.
\<close>

datatype 'a queue_op =
    Push 'a
  | Pop
  | Close

fun entry :: "'a queue_op \<Rightarrow> 'a pc" where
  "entry (Push v) = E_push v"
| "entry Pop = E_pop"
| "entry Close = E_close"

datatype 'a label =
    Call "'a queue_op"
  | Step "nat option"
  | Wake

definition queue_step :: "('a \<Rightarrow> 'a option) \<Rightarrow> nat \<Rightarrow> 'a label \<Rightarrow> 'a qsys \<Rightarrow> ('a event \<times> 'a qsys) option" where
  "queue_step posts t l s = (if \<not> t < length (pcs s) then None else
     case l of
       Call f \<Rightarrow> if pcs s ! t = Idle then Some (Tau, goto t (entry f) s) else None
     | Step u \<Rightarrow> perform posts (pcs s ! t) t u s
     | Wake \<Rightarrow> quiet (map_option (\<lambda>m. s\<lparr>mon := m\<rparr>) (wake_up t (mon s))))"

text \<open>Labels of the transition system: the thread, what it does, and the event.\<close>

definition qstep :: "('a \<Rightarrow> 'a option) \<Rightarrow> 'a qsys \<Rightarrow> nat \<times> 'a label \<times> 'a event \<Rightarrow> 'a qsys \<Rightarrow> bool" where
  "qstep posts s l s' \<longleftrightarrow> queue_step posts (fst l) (fst (snd l)) s = Some (snd (snd l), s')"

fun queue_steps :: "('a \<Rightarrow> 'a option) \<Rightarrow> (nat \<times> 'a label) list \<Rightarrow> 'a qsys \<Rightarrow>
    ((nat \<times> 'a label \<times> 'a event) list \<times> 'a qsys) option" where
  "queue_steps posts [] s = Some ([], s)"
| "queue_steps posts (l # ls) s = (case queue_step posts (fst l) (snd l) s of
     None \<Rightarrow> None
   | Some (e, s') \<Rightarrow> map_option (\<lambda>(es, s''). ((fst l, snd l, e) # es, s'')) (queue_steps posts ls s'))"

lemma queue_steps_run: "queue_steps posts ls s = Some (es, s') \<Longrightarrow> run (qstep posts) s es s'"
proof (induction ls arbitrary: s es)
  case (Cons l ls)
  then show ?case by (auto simp: qstep_def intro!: run_prepend split: option.splits)
qed (simp add: run_nil)

section \<open>Mutual exclusion\<close>

definition pc_of :: "'a qsys \<Rightarrow> nat \<Rightarrow> 'a pc" where
  "pc_of s t = (if t < length (pcs s) then pcs s ! t else Idle)"

fun inside :: "'a pc \<Rightarrow> bool" where
  "inside (B_push _) = True"
| "inside B_pop = True"
| "inside (D_push _) = True"
| "inside B_close = True"
| "inside _ = False"

lemma queue_pc_of_goto [simp]: "t < length (pcs s) \<Longrightarrow> pc_of (goto t p s) u = (if u = t then p else pc_of s u)"
  by (simp add: pc_of_def goto_def nth_list_update)

lemma queue_goto_simps [simp]:
  "que (goto t p s) = que s" "mon (goto t p s) = mon s" "dest (goto t p s) = dest s"
  "length (pcs (goto t p s)) = length (pcs s)"
  by (simp_all add: goto_def)

lemma queue_pc_of_update [simp]:
  "pc_of (s\<lparr>mon := m\<rparr>) = pc_of s" "pc_of (s\<lparr>que := q\<rparr>) = pc_of s" "pc_of (s\<lparr>dest := d\<rparr>) = pc_of s"
  by (simp_all add: pc_of_def fun_eq_iff)

lemma queue_entry_outside [simp]: "\<not> inside (entry f)"
  by (cases f) auto

lemmas queue_op_defs = quiet_def enter_def leave_def push_def pop_def close_def Let_def

lemma qstep_cases:
  assumes "qstep posts s l s'"
  obtains (call) f where "fst l < length (pcs s)" "pc_of s (fst l) = Idle" "s' = goto (fst l) (entry f) s"
      "fst (snd l) = Call f" "snd (snd l) = Tau"
    | (wake) m where "wake_up (fst l) (mon s) = Some m" "s' = s\<lparr>mon := m\<rparr>" "fst (snd l) = Wake" "snd (snd l) = Tau"
    | (step) u where "fst l < length (pcs s)" "perform posts (pc_of s (fst l)) (fst l) u s = Some (snd (snd l), s')"
      "fst (snd l) = Step u"
proof (cases "fst (snd l)")
  case (Call f)
  show ?thesis
    by (rule call) (use assms Call in \<open>auto simp: qstep_def queue_step_def pc_of_def split: if_splits\<close>)
next
  case (Step u)
  show ?thesis
    by (rule step) (use assms Step in \<open>auto simp: qstep_def queue_step_def pc_of_def split: if_splits\<close>)
next
  case Wake
  then obtain m where "wake_up (fst l) (mon s) = Some m" "s' = s\<lparr>mon := m\<rparr>" "snd (snd l) = Tau"
    using assms by (auto simp: qstep_def queue_step_def quiet_def split: if_splits)
  then show ?thesis using wake Wake by blast
qed

lemma queue_perform_agrees:
  assumes "perform posts (pc_of s t) t u s = Some (e, s')" "t < length (pcs s)"
  shows "length (pcs s') = length (pcs s) \<and> (v \<noteq> t \<longrightarrow> pc_of s' v = pc_of s v)"
  using assms by (cases "pc_of s t") (auto simp: queue_op_defs split: if_splits option.splits)

lemma queue_perform_lock:
  assumes "perform posts (pc_of s t) t u s = Some (e, s')" "t < length (pcs s)"
  shows "inside (pc_of s' t) \<Longrightarrow> inside (pc_of s t) \<Longrightarrow> holder (mon s') = holder (mon s)"
    "inside (pc_of s' t) \<Longrightarrow> \<not> inside (pc_of s t) \<Longrightarrow> holder (mon s) = None \<and> holder (mon s') = Some t"
    "\<not> inside (pc_of s' t) \<Longrightarrow> holder (mon s') = (if inside (pc_of s t) then None else holder (mon s))"
  using assms by (cases "pc_of s t"; auto simp: queue_op_defs acquire_Some split: if_splits option.splits)+


definition queue_start :: "'a qsys \<Rightarrow> bool" where
  "queue_start s \<longleftrightarrow> (\<exists>n. s = queue_init n)"

lemma queue_init_pc [simp]: "pc_of (queue_init n) t = Idle"
  by (simp add: queue_init_def pc_of_def)

lemma qstep_lock:
  assumes "qstep posts s l s'"
  shows "u \<noteq> fst l \<Longrightarrow> pc_of s' u = pc_of s u"
    "inside (pc_of s' (fst l)) \<Longrightarrow> inside (pc_of s (fst l)) \<Longrightarrow> holder (mon s') = holder (mon s)"
    "inside (pc_of s' (fst l)) \<Longrightarrow> \<not> inside (pc_of s (fst l)) \<Longrightarrow>
      holder (mon s) = None \<and> holder (mon s') = Some (fst l)"
    "\<not> inside (pc_of s' (fst l)) \<Longrightarrow> holder (mon s') = (if inside (pc_of s (fst l)) then None else holder (mon s))"
proof -
  have "(u \<noteq> fst l \<longrightarrow> pc_of s' u = pc_of s u) \<and>
    (inside (pc_of s' (fst l)) \<longrightarrow> (if inside (pc_of s (fst l)) then holder (mon s') = holder (mon s)
       else holder (mon s) = None \<and> holder (mon s') = Some (fst l))) \<and>
    (\<not> inside (pc_of s' (fst l)) \<longrightarrow> holder (mon s') = (if inside (pc_of s (fst l)) then None else holder (mon s)))"
    using assms
  proof (cases rule: qstep_cases)
    case (wake m)
    then show ?thesis using wake_up_SomeD(2) [OF wake(1)] by simp
  next
    case (step v)
    show ?thesis
      using queue_perform_agrees [OF step(2,1), of u] queue_perform_lock [OF step(2,1)] by (simp del: perform.simps)
  qed simp
  then show "u \<noteq> fst l \<Longrightarrow> pc_of s' u = pc_of s u"
    "inside (pc_of s' (fst l)) \<Longrightarrow> inside (pc_of s (fst l)) \<Longrightarrow> holder (mon s') = holder (mon s)"
    "inside (pc_of s' (fst l)) \<Longrightarrow> \<not> inside (pc_of s (fst l)) \<Longrightarrow>
      holder (mon s) = None \<and> holder (mon s') = Some (fst l)"
    "\<not> inside (pc_of s' (fst l)) \<Longrightarrow> holder (mon s') = (if inside (pc_of s (fst l)) then None else holder (mon s))"
    by simp_all
qed

interpretation queue_mutex: monitor_discipline queue_start "qstep posts" "\<lambda>_. True" mon "\<lambda>s t. inside (pc_of s t)" fst
proof unfold_locales
  fix s :: "'a qsys" and t
  assume "queue_start s"
  then show "holder (mon s) = None \<and> \<not> inside (pc_of s t)"
    by (auto simp: queue_start_def) (simp add: queue_init_def)
next
  fix s l s' and u :: nat
  assume st: "qstep posts s l s'"
  show "u \<noteq> fst l \<Longrightarrow> inside (pc_of s' u) = inside (pc_of s u)" using qstep_lock(1) [OF st] by simp
  show "inside (pc_of s' (fst l)) \<Longrightarrow> inside (pc_of s (fst l)) \<Longrightarrow> holder (mon s') = holder (mon s)"
    by (rule qstep_lock(2) [OF st])
  show "inside (pc_of s' (fst l)) \<Longrightarrow> \<not> inside (pc_of s (fst l)) \<Longrightarrow>
      holder (mon s) = None \<and> holder (mon s') = Some (fst l)"
    by (rule qstep_lock(3) [OF st])
  show "\<not> inside (pc_of s' (fst l)) \<Longrightarrow> holder (mon s') = (if inside (pc_of s (fst l)) then None else holder (mon s))"
    by (rule qstep_lock(4) [OF st])
qed simp_all

section \<open>Atomicity and order\<close>

text \<open>The queue as one would like to see it: each operation is one action.\<close>

inductive queue_spec :: "'a cqueue \<Rightarrow> nat \<times> 'a label \<times> 'a event \<Rightarrow> 'a cqueue \<Rightarrow> bool" where
  spec_push: "\<not> closed q \<Longrightarrow> queue_spec q (t, l, Pushed v) (push_item v q)"
| spec_ignore: "closed q \<Longrightarrow> queue_spec q (t, l, Ignored v) q"
| spec_pop: "pop_item q = Some (Some v, q') \<Longrightarrow> queue_spec q (t, l, Popped v) q'"
| spec_pop_closed: "pop_item q = Some (None, q') \<Longrightarrow> queue_spec q (t, l, Pop_closed) q'"
| spec_close: "queue_spec q (t, l, Closed) (close_queue q)"

inductive_cases queue_specE: "queue_spec q (t, l, e) q'"

definition silent :: "nat \<times> 'a label \<times> 'a event \<Rightarrow> bool" where
  "silent l \<longleftrightarrow> snd (snd l) = Tau"

lemma perform_spec:
  assumes "perform posts (pc_of s t) t u s = Some (e, s')"
  shows "if e = Tau then que s' = que s else queue_spec (que s) (t, l, e) (que s')"
proof (cases "pc_of s t")
  case B_pop
  show ?thesis
  proof (cases "pop_item (que s)")
    case (Some r)
    then obtain x q where r: "pop_item (que s) = Some (x, q)" by (cases r) auto
    show ?thesis
    proof (cases x)
      case None
      then have "q = que s" using r by (auto simp: pop_item_def split: if_splits list.splits)
      then show ?thesis using assms B_pop r None by (auto simp: queue_op_defs intro: spec_pop_closed)
    next
      case (Some v)
      then show ?thesis using assms B_pop r by (auto simp: queue_op_defs intro: spec_pop split: option.splits)
    qed
  qed (use assms B_pop in \<open>auto simp: queue_op_defs\<close>)
qed (use assms in \<open>auto simp: queue_op_defs intro: queue_spec.intros split: if_splits\<close>)

lemma qstep_spec:
  assumes "qstep posts s l s'"
  shows "if silent l then que s' = que s else queue_spec (que s) l (que s')"
  using assms
proof (cases rule: qstep_cases)
  case (step u)
  then show ?thesis
    using perform_spec [OF step(2), of "fst (snd l)"] by (cases l) (simp add: silent_def split: if_splits)
qed (auto simp: silent_def)

interpretation queue_sim: simulation queue_start "qstep posts" "\<lambda>_. True" "\<lambda>s q. que s = q" queue_spec silent
  by unfold_locales (use qstep_spec in \<open>fastforce split: if_splits\<close>)+

text \<open>An example: thread 0 pops before anything is there, thread 1 pushes twice and closes.\<close>

definition no_posts :: "nat \<Rightarrow> nat option" where
  "no_posts v = None"

definition pop_labels :: "(nat \<times> nat label) list" where
  "pop_labels = [(0, Call Pop), (0, Step None), (0, Step None),
     (1, Call (Push 5)), (1, Step None), (1, Step (Some 0)), (1, Call (Push 6)), (1, Step None), (1, Step None),
     (1, Call Close), (1, Step None), (1, Step None), (1, Call (Push 7)), (1, Step None), (1, Step None),
     (0, Step None), (0, Step None)]"

definition pop_trace :: "(nat \<times> nat label \<times> nat event) list" where
  "pop_trace = fst (the (queue_steps no_posts pop_labels (queue_init 2)))"

definition pop_state :: "nat qsys" where
  "pop_state = snd (the (queue_steps no_posts pop_labels (queue_init 2)))"

lemma queue_reach: "queue_steps posts ls (queue_init n) \<noteq> None \<Longrightarrow>
    run (qstep posts) (queue_init n) (fst (the (queue_steps posts ls (queue_init n))))
      (snd (the (queue_steps posts ls (queue_init n))))"
  by (auto intro: queue_steps_run)

lemma pop_run: "run (qstep no_posts) (queue_init 2) pop_trace pop_state"
  unfolding pop_trace_def pop_state_def by (rule queue_reach) code_simp



text \<open>The values that went in and came out, by the events.\<close>

fun pushed_values :: "(nat \<times> 'a label \<times> 'a event) list \<Rightarrow> 'a list" where
  "pushed_values [] = []"
| "pushed_values ((_, _, Pushed v) # ls) = v # pushed_values ls"
| "pushed_values (_ # ls) = pushed_values ls"

fun popped_values :: "(nat \<times> 'a label \<times> 'a event) list \<Rightarrow> 'a list" where
  "popped_values [] = []"
| "popped_values ((_, _, Popped v) # ls) = v # popped_values ls"
| "popped_values (_ # ls) = popped_values ls"

lemma values_append [simp]:
  "pushed_values (ls @ ks) = pushed_values ls @ pushed_values ks"
  "popped_values (ls @ ks) = popped_values ls @ popped_values ks"
  by (induction ls rule: pushed_values.induct; simp) (induction ls rule: popped_values.induct; simp)

text \<open>A run of the atomic queue is a use of the interface, and its events say what was used.\<close>

lemma spec_uses:
  "run queue_spec q ls q' \<Longrightarrow>
    \<exists>es. cq.uses q es q' \<and> cq.taken es = popped_values ls \<and> cq.accepted es = pushed_values ls"
proof (induction rule: run.induct)
  case (run_nil q)
  then show ?case using cq.uses_nil by fastforce
next
  case (run_snoc q ls q1 l q2)
  then obtain es where es: "cq.uses q es q1" "cq.taken es = popped_values ls" "cq.accepted es = pushed_values ls"
    by blast
  from run_snoc(2) show ?case
  proof cases
    case (spec_push t k v)
    then show ?thesis using es cq.uses_put [OF es(1), of v] by (intro exI [of _ "es @ [Inl v]"]) simp
  next
    case (spec_ignore t k v)
    then show ?thesis using es by (intro exI [of _ es]) simp
  next
    case (spec_pop v t k)
    then show ?thesis using es cq.uses_take [OF es(1) spec_pop(2)] by (intro exI [of _ "es @ [Inr (Some v)]"]) simp
  next
    case (spec_pop_closed t k)
    then show ?thesis using es cq.uses_take [OF es(1) spec_pop_closed(2)] by (intro exI [of _ "es @ [Inr None]"]) simp
  next
    case (spec_close t k)
    then show ?thesis using es cq.uses_shut [OF es(1)] by (intro exI [of _ es]) simp
  qed
qed

lemma values_filter:
  "pushed_values (filter (\<lambda>l. \<not> silent l) ls) = pushed_values ls"
  "popped_values (filter (\<lambda>l. \<not> silent l) ls) = popped_values ls"
  by (induction ls rule: pushed_values.induct; simp add: silent_def)
    (induction ls rule: popped_values.induct; simp add: silent_def)

text \<open>
  C27. First in, first out: the values that came out, in the order of the pops, and then
  the values in the queue, are the values that went in, in the order of the pushes: no
  value is lost, doubled or overtaken.
\<close>

theorem queue_fifo:
  assumes "run (qstep posts) (queue_init n) ls s"
  shows "pushed_values ls = popped_values ls @ items (que s)"
proof -
  have "run queue_spec empty_queue (filter (\<lambda>l. \<not> silent l) ls) (que s)"
    using queue_sim.run_simulates [OF assms _ refl] by (simp add: queue_init_def)
  then obtain es where "cq.uses empty_queue es (que s)" "cq.taken es = popped_values ls"
    "cq.accepted es = pushed_values ls"
    using spec_uses by (metis values_filter)
  then show ?thesis using cq.uses_fifo by (fastforce simp: empty_queue_def)
qed

theorem queue_fifo_witness: "pushed_values pop_trace = popped_values pop_trace @ items (que pop_state)"
  by (rule queue_fifo [OF pop_run])

section \<open>Wakeups\<close>

text \<open>The threads that look at the queue again without a further notification.\<close>

definition awake :: "'a qsys \<Rightarrow> nat set" where
  "awake s = {t. pc_of s t = B_pop \<or> pc_of s t = P_blocked \<and> t \<notin> blocked (mon s)}"

definition wakeups :: "'a qsys \<Rightarrow> bool" where
  "wakeups s \<longleftrightarrow> (\<forall>t \<in> blocked (mon s). pc_of s t = P_blocked) \<and>
     (blocked (mon s) \<noteq> {} \<longrightarrow> \<not> closed (que s) \<and> length (items (que s)) \<le> card (awake s))"

lemma awake_finite [simp]: "finite (awake s)"
proof -
  have "awake s \<subseteq> {..<length (pcs s)}" by (auto simp: awake_def pc_of_def split: if_splits)
  then show ?thesis by (rule finite_subset) simp
qed

lemma awake_goto:
  "t < length (pcs s) \<Longrightarrow> awake (goto t p s) =
    (if p = B_pop \<or> p = P_blocked \<and> t \<notin> blocked (mon s) then insert t (awake s) else awake s - {t})"
  by (auto simp: awake_def)

lemma awake_mon: "awake (s\<lparr>mon := m\<rparr>) =
    {t. pc_of s t = B_pop \<or> pc_of s t = P_blocked \<and> t \<notin> blocked m}"
  by (simp add: awake_def)

lemma awake_update [simp]:
  "awake (s\<lparr>que := q\<rparr>) = awake s" "awake (s\<lparr>dest := d\<rparr>) = awake s"
  by (simp_all add: awake_def)

text \<open>Taking an item: one thread less that is awake, one item less.\<close>

lemma card_leave: "t \<in> A \<Longrightarrow> finite A \<Longrightarrow> Suc n \<le> card A \<Longrightarrow> n \<le> card (A - {t})"
  by (simp add: card_Diff_singleton)

lemma queue_perform_wakeups:
  assumes w: "wakeups s" and t: "t < length (pcs s)" and p: "perform posts (pc_of s t) t u s = Some (e, s')"
  shows "wakeups s'"
proof -
  have nb: "t \<notin> blocked (mon s)" if "pc_of s t \<noteq> P_blocked" using w that by (auto simp: wakeups_def)
  have bl: "pc_of s v = P_blocked" if "v \<in> blocked (mon s)" for v using w that by (auto simp: wakeups_def)
  have len: "length (items (que s)) \<le> card (awake s)" "\<not> closed (que s)" if "blocked (mon s) \<noteq> {}"
    using w that by (auto simp: wakeups_def)
  show ?thesis
  proof (cases "pc_of s t")
    case (B_push v)
    show ?thesis
    proof (cases "closed (que s)")
      case True
      then have "blocked (mon s) = {}" using len(2) by blast
      then show ?thesis using p B_push True t by (auto simp: queue_op_defs wakeups_def)
    next
      case False
      then obtain m where m: "notify_one u (mon s) = Some m"
        "s' = leave t (s\<lparr>que := push_item v (que s), mon := m\<rparr>)"
        using p B_push by (auto simp: queue_op_defs)
      show ?thesis
      proof (cases u)
        case None
        then show ?thesis using notify_one_SomeD [OF m(1)] by (simp add: m(2) wakeups_def leave_def)
      next
        case (Some v')
        have v': "v' \<in> blocked (mon s)" "blocked m = blocked (mon s) - {v'}"
          using notify_one_SomeD [OF m(1)] Some by auto
        have aw: "awake s' = insert v' (awake s)"
          using t bl [OF v'(1)] B_push by (auto simp: m(2) leave_def awake_goto awake_mon v'(2)) (auto simp: awake_def)
        have "v' \<notin> awake s" using bl v'(1) by (auto simp: awake_def)
        moreover have "length (items (que s)) \<le> card (awake s)" using len(1) v'(1) by blast
        ultimately have "length (items (que s')) \<le> card (awake s')"
          unfolding aw using False by (simp add: m(2) leave_def push_item_def)
        moreover have "pc_of s' x = P_blocked" if "x \<in> blocked m" for x
          using that v'(2) bl nb B_push t by (auto simp: m(2) leave_def)
        ultimately show ?thesis using False by (simp add: wakeups_def m(2) leave_def push_item_def)
      qed
    qed
  next
    case B_pop
    show ?thesis
    proof (cases "pop_item (que s)")
      case None
      then have "items (que s) = []" "\<not> closed (que s)" by (auto simp: pop_item_def split: if_splits list.splits)
      then show ?thesis using p B_pop None t bl by (auto simp: queue_op_defs wakeups_def)
    next
      case (Some r)
      then obtain x q where r: "pop_item (que s) = Some (x, q)" by (cases r) auto
      have cl: "closed q = closed (que s)" using cq.take_shut [OF r] .
      show ?thesis
      proof (cases x)
        case None
        then have "closed (que s)" using cq.take_none r by blast
        then have "blocked (mon s) = {}" using len(2) by blast
        then show ?thesis using p B_pop r None t by (auto simp: queue_op_defs wakeups_def)
      next
        case (Some v)
        have it: "length (items (que s)) = Suc (length (items q))" using cq.take_content [OF r] Some by simp
        have mon: "blocked (mon s') = blocked (mon s)" "que s' = q" "awake s' = awake s - {t}"
          using p B_pop r Some t
          by (auto simp: queue_op_defs awake_goto awake_mon split: option.splits) (auto simp: awake_def)
        have "t \<in> awake s" using B_pop by (simp add: awake_def)
        then have "length (items q) \<le> card (awake s')" if "blocked (mon s) \<noteq> {}"
          using len(1) [OF that] it card_leave unfolding mon(3) by (metis awake_finite)
        moreover have "pc_of s' y = P_blocked" if "y \<in> blocked (mon s)" for y
          using queue_perform_agrees [OF p t, of y] bl [OF that] that nb B_pop by auto
        ultimately show ?thesis using len(2) cl by (auto simp: wakeups_def mon)
      qed
    qed
  next
    case B_close
    then show ?thesis using p t by (auto simp: queue_op_defs wakeups_def)
  next
    case E_pop
    then have s': "s' = goto t B_pop (s\<lparr>mon := (mon s)\<lparr>holder := Some t\<rparr>\<rparr>)" using p by (auto simp: queue_op_defs acquire_Some)
    have "awake s' = insert t (awake s)" using t by (simp add: s' awake_goto awake_mon) (auto simp: awake_def)
    then have "card (awake s) \<le> card (awake s')" by (intro card_mono) auto
    then have "length (items (que s)) \<le> card (awake s')" if "blocked (mon s) \<noteq> {}" using len(1) [OF that] by simp
    then show ?thesis using w nb E_pop t len(2) by (auto simp: wakeups_def s' simp del: One_nat_def)
  next
    case P_blocked
    then have s': "s' = goto t B_pop (s\<lparr>mon := (mon s)\<lparr>holder := Some t\<rparr>\<rparr>)" "t \<notin> blocked (mon s)"
      using p by (auto simp: queue_op_defs acquire_Some)
    have "awake s' = insert t (awake s)" using t by (simp add: s' awake_goto awake_mon) (auto simp: awake_def)
    then have "card (awake s) \<le> card (awake s')" by (intro card_mono) auto
    then have "length (items (que s)) \<le> card (awake s')" if "blocked (mon s) \<noteq> {}" using len(1) [OF that] by simp
    then show ?thesis using w t s'(2) len(2) by (auto simp: wakeups_def s' simp del: One_nat_def)
  next
    case (E_push v)
    then have s': "s' = goto t (B_push v) (s\<lparr>mon := (mon s)\<lparr>holder := Some t\<rparr>\<rparr>)" using p by (auto simp: queue_op_defs acquire_Some)
    have "awake s' = awake s" using t E_push by (simp add: s' awake_goto awake_mon) (auto simp: awake_def)
    then show ?thesis using w nb E_push t len by (auto simp: wakeups_def s')
  next
    case E_close
    then have s': "s' = goto t B_close (s\<lparr>mon := (mon s)\<lparr>holder := Some t\<rparr>\<rparr>)" using p by (auto simp: queue_op_defs acquire_Some)
    have "awake s' = awake s" using t E_close by (simp add: s' awake_goto awake_mon) (auto simp: awake_def)
    then show ?thesis using w nb E_close t len by (auto simp: wakeups_def s')
  qed (use p in auto)
qed


lemma qstep_wakeups: "wakeups s \<Longrightarrow> qstep posts s l s' \<Longrightarrow> wakeups s'"
proof (erule qstep_cases)
  fix f assume w: "wakeups s" and c: "fst l < length (pcs s)" "pc_of s (fst l) = Idle" "s' = goto (fst l) (entry f) s"
  have nb: "fst l \<notin> blocked (mon s)" using w c(2) by (auto simp: wakeups_def)
  have "awake s' = awake s" using c by (cases f) (auto simp: awake_goto, auto simp: awake_def)
  then show "wakeups s'" using w nb c by (auto simp: wakeups_def)
next
  fix m assume w: "wakeups s" and m: "wake_up (fst l) (mon s) = Some m" "s' = s\<lparr>mon := m\<rparr>"
  have "awake s \<subseteq> awake s'" using wake_up_SomeD(3) [OF m(1)] by (auto simp: awake_def m(2))
  then have le: "card (awake s) \<le> card (awake s')" by (intro card_mono) auto
  have "length (items (que s)) \<le> card (awake s')" if "blocked (mon s) \<noteq> {}"
    using w le that by (simp add: wakeups_def)
  then show "wakeups s'" using w wake_up_SomeD(3) [OF m(1)] by (auto simp: wakeups_def m(2))
qed (rule queue_perform_wakeups)

interpretation queue_wakeups: invariant_system queue_start "qstep posts" wakeups
proof unfold_locales
  fix s :: "'a qsys" assume "queue_start s"
  then show "wakeups s" by (auto simp: queue_start_def wakeups_def queue_init_def)
qed (rule qstep_wakeups)

text \<open>Who cannot go on, when nobody holds up the mutex.\<close>

definition own_step :: "('a \<Rightarrow> 'a option) \<Rightarrow> 'a qsys \<Rightarrow> nat \<times> 'a label \<times> 'a event \<Rightarrow> 'a qsys \<Rightarrow> bool" where
  "own_step posts s l s' \<longleftrightarrow> qstep posts s l s' \<and> (\<exists>u. fst (snd l) = Step u)"

lemma stuck_step:
  assumes stuck: "\<And>l s'. \<not> own_step posts s l s'"
  shows "perform posts (pc_of s t) t u s = None"
proof (cases "t < length (pcs s)")
  case True
  show ?thesis
  proof (cases "perform posts (pc_of s t) t u s")
    case (Some r)
    then have "own_step posts s (t, Step u, fst r) (snd r)"
      using True by (simp add: own_step_def qstep_def queue_step_def pc_of_def)
    then show ?thesis using stuck by blast
  qed simp
qed (simp add: pc_of_def)

lemma stuck_threads:
  assumes w: "wakeups s" and x: "queue_mutex.exclusive s" and stuck: "\<And>l s'. \<not> own_step posts s l s'"
    and nd: "\<And>t v. pc_of s t \<noteq> D_push v"
  shows "pc_of s t = Idle \<or> pc_of s t = P_blocked \<and> t \<in> blocked (mon s) \<and> items (que s) = [] \<and> \<not> closed (que s)"
proof -
  note st = stuck_step [OF stuck]
  obtain u m where u: "notify_one u (mon s) = Some m" using notify_one_possible by blast
  have "\<not> inside (pc_of s v)" for v
    using st [of v u] nd [of v] by (cases "pc_of s v") (auto simp: queue_op_defs u split: if_splits)
  then have h: "holder (mon s) = None"
    using x by (cases "holder (mon s)") (auto simp: queue_mutex.exclusive_def)
  have wait: "pc_of s v = Idle \<or> pc_of s v = P_blocked \<and> v \<in> blocked (mon s)" for v
    using st [of v u] nd [of v] h by (cases "pc_of s v") (auto simp: queue_op_defs acquire_def reacquire_def u split: if_splits)
  then have "v \<notin> awake s" for v using wait [of v] by (cases "pc_of s v") (auto simp: awake_def)
  then have "awake s = {}" by blast
  then show ?thesis using wait [of t] w by (auto simp: wakeups_def)
qed


lemma no_D_push: "run (qstep (\<lambda>_. None)) (queue_init n) ls s \<Longrightarrow> pc_of s t \<noteq> D_push v"
proof (induction "queue_init n :: 'a qsys" ls s arbitrary: t v rule: run.induct)
  case (run_snoc ls s l s')
  from run_snoc(3) show ?case
  proof (cases rule: qstep_cases)
    case (call f)
    then show ?thesis using run_snoc(2) by (cases f) auto
  next
    case (step u)
    have "pc_of s' (fst l) \<noteq> D_push v"
      using step(1,2) run_snoc(2) [of "fst l"]
      by (cases "pc_of s (fst l)") (auto simp: queue_op_defs split: if_splits option.splits)
    then show ?thesis using queue_perform_agrees [OF step(2,1), of t] run_snoc(2) by (cases "t = fst l") auto
  qed (use run_snoc(2) in auto)
qed simp


definition idle_labels :: "(nat \<times> nat label) list" where
  "idle_labels = [(0, Call Pop), (0, Step None), (0, Step None)]"

definition idle_state :: "nat qsys" where
  "idle_state = snd (the (queue_steps (\<lambda>_. None) idle_labels (queue_init 2)))"

lemma idle_run: "run (qstep (\<lambda>_. None)) (queue_init 2) (fst (the (queue_steps (\<lambda>_. None) idle_labels (queue_init 2)))) idle_state"
  unfolding idle_state_def by (rule queue_reach) code_simp

lemma idle_state_eq: "idle_state = \<lparr>que = empty_queue, mon = \<lparr>holder = None, blocked = {0}\<rparr>,
    pcs = [P_blocked, Idle], dest = [None, None]\<rparr>"
  by (simp add: idle_state_def idle_labels_def queue_step_def queue_init_def queue_op_defs goto_def acquire_def new_monitor_def
      block_on_def pop_item_def empty_queue_def numeral_2_eq_2)


section \<open>A value that pushes when it is destroyed\<close>

text \<open>
  \<open>pop\<close> swaps the value into \<open>dest\<close> and destroys what was in \<open>dest\<close> before, with the
  mutex taken. (The thread pool passes the same variable to every \<open>pop\<close>, so that a task
  that was called is destroyed in the critical section of the next \<open>pop\<close>.)
\<close>

lemma D_push_stays:
  assumes x: "queue_mutex.exclusive s" and d: "pc_of s t = D_push v" and st: "qstep posts s l s'"
  shows "pc_of s' t = D_push v \<and> silent l"
proof -
  have "inside (pc_of s u) \<longleftrightarrow> holder (mon s) = Some u" for u
    using x unfolding queue_mutex.exclusive_def by blast
  from this [of t] this have h: "holder (mon s) = Some t" and in1: "u \<noteq> t \<Longrightarrow> \<not> inside (pc_of s u)" for u
    using d by simp_all
  from st show ?thesis
  proof (cases rule: qstep_cases)
    case (step u)
    have ne: "fst l \<noteq> t" using step(2) d by auto
    have "snd (snd l) = Tau"
    proof (cases "pc_of s (fst l)")
      case P_blocked
      then show ?thesis using step(2) h by (simp add: quiet_def enter_def reacquire_def acquire_def split: if_splits)
    qed (use step(2) in1 [OF ne] h in \<open>simp_all add: quiet_def enter_def acquire_def\<close>)
    then show ?thesis using d ne queue_perform_agrees [OF step(2,1), of t] by (simp add: silent_def)
  qed (use d in \<open>auto simp: silent_def\<close>)
qed

definition post_9 :: "nat \<Rightarrow> nat option" where
  "post_9 v = (if v = 5 then Some 9 else None)"

definition dtor_labels :: "(nat \<times> nat label) list" where
  "dtor_labels = [(1, Call (Push 5)), (1, Step None), (1, Step None), (1, Call (Push 6)), (1, Step None), (1, Step None),
     (0, Call Pop), (0, Step None), (0, Step None), (0, Call Pop), (0, Step None), (0, Step None)]"

definition dtor_state :: "nat qsys" where
  "dtor_state = snd (the (queue_steps post_9 dtor_labels (queue_init 2)))"

lemma dtor_run: "run (qstep post_9) (queue_init 2) (fst (the (queue_steps post_9 dtor_labels (queue_init 2)))) dtor_state"
  unfolding dtor_state_def by (rule queue_reach) code_simp

text \<open>
  C39. A value whose destructor pushes to the same queue (a task that owns the last
  promise of a future with a continuation on the same pool) stops the queue: once the
  thread that pops is in that destructor, it stays there, and no operation of any
  thread ever takes effect again.
\<close>

theorem queue_dtor_deadlock:
  assumes "run (qstep posts) (queue_init n) ls s" "pc_of s t = D_push v" "run (qstep posts) s ls' s'"
  shows "pc_of s' t = D_push v \<and> list_all silent ls'"
  using assms(3,1,2)
proof (induction rule: run.induct)
  case (run_snoc s ls' s1 l s2)
  have "queue_mutex.exclusive s1"
    by (rule queue_mutex.run_exclusive [OF run_trans [OF run_snoc(1,4)]]) (auto simp: queue_start_def)
  then show ?case using D_push_stays [OF _ _ run_snoc(2)] run_snoc by auto
qed simp

theorem queue_dtor_deadlock_witness:
  "pc_of (snd (the (queue_step post_9 1 (Call Close) dtor_state))) 0 = D_push 9 \<and>
    list_all silent [(1, Call Close, Tau :: nat event)]"
proof (rule queue_dtor_deadlock [OF dtor_run])
  show "pc_of dtor_state 0 = D_push 9" unfolding dtor_state_def by code_simp
  show "run (qstep post_9) dtor_state [(1, Call Close, Tau)] (snd (the (queue_step post_9 1 (Call Close) dtor_state)))"
    by (rule run_single, unfold qstep_def fst_conv snd_conv dtor_state_def, code_simp)
qed

end
