(* ===== verification/Thread_Pool.thy ===== *)
theory Thread_Pool
  imports Closable_Queue "HOL-Library.Word" "HOL-Library.Multiset"
begin

text \<open>
  \<open>static_thread_pool\<close> of \<open>bits/thread_pool.h\<close> and \<open>bits/portable_concurrency.cpp\<close>: the
  worker threads and the user threads that attach themselves run the tasks of the
  queue until the pool is stopped or its queue is closed and empty, then wait for each
  other. The operations of the queue are atomic here, as \<open>Closable_Queue\<close> proves, on
  the same functions of its data.

  The theory proves that \<open>wait\<close> drains the queue, that nothing blocks for ever, that
  the destructor waits for the workers, and shows where it does not do what its
  comment says and where it does not wait for an attached thread.
\<close>

section \<open>State\<close>

text \<open>
  Where a thread is in \<open>attach\<close> (\<open>A\<close>), in \<open>process_queue\<close> (\<open>Q\<close>; \<open>R_run v\<close> is running the
  task \<open>v\<close>), in \<open>stop\<close> (\<open>S\<close>, with what it does afterwards) and in \<open>wait\<close> (\<open>W\<close>, with
  whether the destructor calls it). A worker thread starts in \<open>attach\<close> and has ended
  when it is \<open>Idle\<close>.
\<close>

datatype 'v pc =
    Idle
  | A_enter
  | A_in
  | Q_check
  | Q_pop
  | R_run 'v
  | A_leave
  | A_out
  | A_recheck
  | A_wait
  | A_notify
  | S_store "'v pc"
  | S_close "'v pc"
  | W_close bool
  | W_join bool nat

datatype fault =
    Destroyed
  | Terminated

text \<open>
  The pool: its queue, \<open>stopped_\<close>, \<open>attached_threads_\<close>, its mutex and condition
  variable, and \<open>joins\<close>, the length of \<open>threads_\<close>; the threads, the first \<open>workers\<close> of
  which the constructor started; whether the destructor was called and is over; and
  the tasks that were accepted, started and finished, which are only observed.
\<close>

record 'v pool =
  que :: "'v cqueue"
  stopped :: bool
  attached :: "32 word"
  mon :: monitor
  joins :: nat
  pcs :: "'v pc list"
  workers :: nat
  closing :: bool
  gone :: bool
  fault :: "fault option"
  accepted :: "'v list"
  started :: "'v list"
  finished :: "'v list"

definition static_thread_pool :: "nat \<Rightarrow> nat \<Rightarrow> 'v pool" where
  "static_thread_pool w n = \<lparr>que = empty_queue, stopped = False, attached = 0, mon = new_monitor, joins = w,
     pcs = replicate w A_enter @ replicate n Idle, workers = w, closing = False, gone = False, fault = None,
     accepted = [], started = [], finished = []\<rparr>"

definition goto :: "nat \<Rightarrow> 'v pc \<Rightarrow> 'v pool \<Rightarrow> 'v pool" where
  "goto t p s = s\<lparr>pcs := (pcs s)[t := p]\<rparr>"

definition enter :: "monitor option \<Rightarrow> nat \<Rightarrow> 'v pc \<Rightarrow> 'v pool \<Rightarrow> 'v pool option" where
  "enter r t p s = map_option (\<lambda>m. goto t p (s\<lparr>mon := m\<rparr>)) r"

section \<open>attach\<close>

definition attach_in :: "nat \<Rightarrow> 'v pool \<Rightarrow> 'v pool" where
  "attach_in t s = goto t Q_check (s\<lparr>attached := attached s + 1, mon := unlock (mon s)\<rparr>)"

text \<open>\<open>process_queue\<close>: \<open>stopped\<close> is looked at before each \<open>pop\<close>, which may block.\<close>

definition check_stopped :: "nat \<Rightarrow> 'v pool \<Rightarrow> 'v pool" where
  "check_stopped t s = goto t (if stopped s then A_leave else Q_pop) s"

definition pop_task :: "nat \<Rightarrow> 'v pool \<Rightarrow> 'v pool option" where
  "pop_task t s = (case pop_item (que s) of
     None \<Rightarrow> None
   | Some (None, q) \<Rightarrow> Some (goto t A_leave s)
   | Some (Some v, q) \<Rightarrow> Some (goto t (R_run v) (s\<lparr>que := q, started := started s @ [v]\<rparr>)))"

definition task_returns :: "nat \<Rightarrow> 'v \<Rightarrow> 'v pool \<Rightarrow> 'v pool" where
  "task_returns t v s = goto t Q_check (s\<lparr>finished := finished s @ [v]\<rparr>)"

text \<open>The second half: wait until nobody is attached, then pass the notification on.\<close>

definition attach_out :: "nat \<Rightarrow> 'v pool \<Rightarrow> 'v pool" where
  "attach_out t s = goto t A_recheck (s\<lparr>attached := attached s - 1\<rparr>)"

definition attach_wait :: "nat \<Rightarrow> 'v pool \<Rightarrow> 'v pool" where
  "attach_wait t s =
     (if attached s = 0 then goto t A_notify (s\<lparr>mon := unlock (mon s)\<rparr>)
      else goto t A_wait (s\<lparr>mon := block_on t (mon s)\<rparr>))"

definition attach_notify :: "nat \<Rightarrow> 'v pool \<Rightarrow> 'v pool" where
  "attach_notify t s = goto t Idle (s\<lparr>mon := notify_all (mon s)\<rparr>)"

section \<open>stop, wait, post\<close>

definition stop_store :: "nat \<Rightarrow> 'v pc \<Rightarrow> 'v pool \<Rightarrow> 'v pool" where
  "stop_store t r s = goto t (S_close r) (s\<lparr>stopped := True\<rparr>)"

definition stop_close :: "nat \<Rightarrow> 'v pc \<Rightarrow> 'v pool \<Rightarrow> 'v pool" where
  "stop_close t r s = goto t r (s\<lparr>que := close_queue (que s)\<rparr>)"

definition wait_close :: "nat \<Rightarrow> bool \<Rightarrow> 'v pool \<Rightarrow> 'v pool" where
  "wait_close t d s = goto t (W_join d 0) (s\<lparr>que := close_queue (que s)\<rparr>)"

text \<open>
  The loop over \<open>threads_\<close>: \<open>join\<close> returns when the thread has ended. After the loop the
  vector is cleared; for the destructor that is the end of the pool.
\<close>

definition wait_join :: "nat \<Rightarrow> bool \<Rightarrow> nat \<Rightarrow> 'v pool \<Rightarrow> 'v pool option" where
  "wait_join t d i s =
     (if i < joins s then (if pcs s ! i = Idle then Some (goto t (W_join d (i + 1)) s) else None)
      else Some (goto t Idle (s\<lparr>joins := 0, gone := d\<rparr>)))"

definition post_task :: "'v \<Rightarrow> 'v pool \<Rightarrow> 'v pool" where
  "post_task v s = s\<lparr>que := push_item v (que s), accepted := accepted s @ (if closed (que s) then [] else [v])\<rparr>"

section \<open>Steps\<close>

fun perform :: "'v pc \<Rightarrow> nat \<Rightarrow> 'v pool \<Rightarrow> 'v pool option" where
  "perform Idle t s = None"
| "perform A_enter t s = enter (acquire t (mon s)) t A_in s"
| "perform A_in t s = Some (attach_in t s)"
| "perform Q_check t s = Some (check_stopped t s)"
| "perform Q_pop t s = pop_task t s"
| "perform (R_run v) t s = Some (task_returns t v s)"
| "perform A_leave t s = enter (acquire t (mon s)) t A_out s"
| "perform A_out t s = Some (attach_out t s)"
| "perform A_recheck t s = Some (attach_wait t s)"
| "perform A_wait t s = enter (reacquire t (mon s)) t A_recheck s"
| "perform A_notify t s = Some (attach_notify t s)"
| "perform (S_store r) t s = Some (stop_store t r s)"
| "perform (S_close r) t s = Some (stop_close t r s)"
| "perform (W_close d) t s = Some (wait_close t d s)"
| "perform (W_join d i) t s = wait_join t d i s"

text \<open>
  Calls: a user thread that is idle attaches, stops, waits, destroys or posts; a task
  posts, stops, or throws. The destructor is called at most once, when no other user
  thread is in \<open>stop\<close> or \<open>wait\<close>; afterwards user threads make no more calls.
\<close>

datatype 'v label =
    Attach
  | Stop
  | Wait
  | Destroy
  | Post 'v
  | Throw
  | Step
  | Wake

fun in_attach :: "'v pc \<Rightarrow> bool" where
  "in_attach A_enter = True"
| "in_attach A_in = True"
| "in_attach Q_check = True"
| "in_attach Q_pop = True"
| "in_attach (R_run _) = True"
| "in_attach A_leave = True"
| "in_attach A_out = True"
| "in_attach A_recheck = True"
| "in_attach A_wait = True"
| "in_attach A_notify = True"
| "in_attach (S_store r) = in_attach r"
| "in_attach (S_close r) = in_attach r"
| "in_attach _ = False"

definition idle_call :: "nat \<Rightarrow> 'v pc \<Rightarrow> 'v pool \<Rightarrow> 'v pool option" where
  "idle_call t p s = (if workers s \<le> t \<and> pcs s ! t = Idle \<and> \<not> closing s then Some (goto t p s) else None)"

fun is_run :: "'v pc \<Rightarrow> bool" where
  "is_run (R_run _) = True"
| "is_run _ = False"

definition pool_step :: "nat \<Rightarrow> 'v label \<Rightarrow> 'v pool \<Rightarrow> 'v pool option" where
  "pool_step t l s = (if fault s \<noteq> None \<or> \<not> t < length (pcs s) then None else
     case l of
       Attach \<Rightarrow> idle_call t A_enter s
     | Stop \<Rightarrow> if is_run (pcs s ! t) then Some (goto t (S_store (pcs s ! t)) s) else idle_call t (S_store Idle) s
     | Wait \<Rightarrow> if list_all (\<lambda>p. p = Idle \<or> in_attach p) (pcs s) then idle_call t (W_close False) s else None
     | Destroy \<Rightarrow> if list_all (\<lambda>p. p = Idle \<or> in_attach p) (pcs s)
         then map_option (\<lambda>s. s\<lparr>closing := True\<rparr>) (idle_call t (S_store (W_close True)) s) else None
     | Post v \<Rightarrow> if gone s \<or> \<not> (is_run (pcs s ! t) \<or> workers s \<le> t \<and> pcs s ! t = Idle \<and> \<not> closing s) then None
         else Some (post_task v s)
     | Throw \<Rightarrow> if is_run (pcs s ! t) then Some (s\<lparr>fault := Some Terminated\<rparr>) else None
     | Wake \<Rightarrow> map_option (\<lambda>m. s\<lparr>mon := m\<rparr>) (wake_up t (mon s))
     | Step \<Rightarrow> if pcs s ! t = Idle then None else if gone s then Some (s\<lparr>fault := Some Destroyed\<rparr>)
         else perform (pcs s ! t) t s)"

definition pstep :: "'v pool \<Rightarrow> nat \<times> 'v label \<Rightarrow> 'v pool \<Rightarrow> bool" where
  "pstep s l s' \<longleftrightarrow> pool_step (fst l) (snd l) s = Some s'"

fun pool_steps :: "(nat \<times> 'v label) list \<Rightarrow> 'v pool \<Rightarrow> 'v pool option" where
  "pool_steps [] s = Some s"
| "pool_steps (l # ls) s = (case pool_step (fst l) (snd l) s of None \<Rightarrow> None | Some s' \<Rightarrow> pool_steps ls s')"

lemma pool_steps_run: "pool_steps ls s = Some s' \<Longrightarrow> run pstep s ls s'"
  by (induction ls arbitrary: s) (auto simp: pstep_def intro: run_nil run_prepend split: option.splits)

lemma pool_reach: "pool_steps ls s \<noteq> None \<Longrightarrow> run pstep s ls (the (pool_steps ls s))"
  by (auto intro: pool_steps_run)

definition pc_of :: "'v pool \<Rightarrow> nat \<Rightarrow> 'v pc" where
  "pc_of s t = (if t < length (pcs s) then pcs s ! t else Idle)"

lemma pool_pc_of_goto [simp]: "t < length (pcs s) \<Longrightarrow> pc_of (goto t p s) u = (if u = t then p else pc_of s u)"
  by (simp add: pc_of_def goto_def nth_list_update)

lemma pool_goto_simps [simp]:
  "que (goto t p s) = que s" "mon (goto t p s) = mon s" "stopped (goto t p s) = stopped s"
  "attached (goto t p s) = attached s" "joins (goto t p s) = joins s" "workers (goto t p s) = workers s"
  "closing (goto t p s) = closing s" "gone (goto t p s) = gone s" "fault (goto t p s) = fault s"
  "accepted (goto t p s) = accepted s" "started (goto t p s) = started s" "finished (goto t p s) = finished s"
  "length (pcs (goto t p s)) = length (pcs s)"
  by (simp_all add: goto_def)

lemma pool_pc_of_update [simp]:
  "pc_of (s\<lparr>mon := m\<rparr>) = pc_of s" "pc_of (s\<lparr>que := q\<rparr>) = pc_of s" "pc_of (s\<lparr>stopped := b\<rparr>) = pc_of s"
  "pc_of (s\<lparr>attached := a\<rparr>) = pc_of s" "pc_of (s\<lparr>joins := i\<rparr>) = pc_of s" "pc_of (s\<lparr>closing := b\<rparr>) = pc_of s"
  "pc_of (s\<lparr>gone := b\<rparr>) = pc_of s" "pc_of (s\<lparr>fault := f\<rparr>) = pc_of s" "pc_of (s\<lparr>accepted := vs\<rparr>) = pc_of s"
  "pc_of (s\<lparr>started := vs\<rparr>) = pc_of s" "pc_of (s\<lparr>finished := vs\<rparr>) = pc_of s"
  by (simp_all add: pc_of_def fun_eq_iff)

lemma post_task_simps [simp]:
  "pc_of (post_task v s) = pc_of s" "pcs (post_task v s) = pcs s" "mon (post_task v s) = mon s"
  "attached (post_task v s) = attached s" "stopped (post_task v s) = stopped s" "workers (post_task v s) = workers s"
  "joins (post_task v s) = joins s" "gone (post_task v s) = gone s" "closing (post_task v s) = closing s"
  "fault (post_task v s) = fault s" "started (post_task v s) = started s" "finished (post_task v s) = finished s"
  "closed (que (post_task v s)) = closed (que s)"
  by (simp_all add: post_task_def pc_of_def fun_eq_iff push_item_def)

text \<open>What a step does: a call puts a thread at the start of a function, or a thread goes on.\<close>

lemma pstep_cases:
  assumes "pstep s l s'"
  obtains (attach) "fst l < length (pcs s)" "workers s \<le> fst l" "pc_of s (fst l) = Idle" "\<not> closing s"
      "s' = goto (fst l) A_enter s" "snd l = Attach"
    | (task_stop) v where "fst l < length (pcs s)" "pc_of s (fst l) = R_run v" "s' = goto (fst l) (S_store (R_run v)) s" "snd l = Stop"
    | (call) p where "fst l < length (pcs s)" "workers s \<le> fst l" "pc_of s (fst l) = Idle" "\<not> closing s"
      "p = S_store Idle \<or> p = W_close False" "s' = goto (fst l) p s" "snd l = Stop \<or> snd l = Wait"
    | (destroy) "fst l < length (pcs s)" "workers s \<le> fst l" "pc_of s (fst l) = Idle" "\<not> closing s"
      "\<And>u. pc_of s u = Idle \<or> in_attach (pc_of s u)"
      "s' = (goto (fst l) (S_store (W_close True)) s)\<lparr>closing := True\<rparr>" "snd l = Destroy"
    | (post) v where "s' = post_task v s" "snd l = Post v"
    | (throw) "s' = s\<lparr>fault := Some Terminated\<rparr>" "is_run (pc_of s (fst l))" "snd l = Throw"
    | (wake) m where "wake_up (fst l) (mon s) = Some m" "s' = s\<lparr>mon := m\<rparr>" "snd l = Wake"
    | (dead) "gone s" "pc_of s (fst l) \<noteq> Idle" "s' = s\<lparr>fault := Some Destroyed\<rparr>" "snd l = Step"
    | (step) "fst l < length (pcs s)" "\<not> gone s" "perform (pc_of s (fst l)) (fst l) s = Some s'" "snd l = Step"
proof -
  have t: "fst l < length (pcs s)" using assms by (auto simp: pstep_def pool_step_def split: if_splits)
  then have pc: "pcs s ! fst l = pc_of s (fst l)" by (simp add: pc_of_def)
  have all: "pc_of s u = Idle \<or> in_attach (pc_of s u)" if "list_all (\<lambda>p. p = Idle \<or> in_attach p) (pcs s)" for u
    using that by (auto simp: list_all_length pc_of_def)
  show ?thesis
  proof (cases "snd l")
    case Attach
    then show ?thesis
      using attach t pc assms by (auto simp: pstep_def pool_step_def idle_call_def split: if_splits)
  next
    case Stop
    then show ?thesis
      using task_stop call t pc assms
      by (cases "pc_of s (fst l)") (auto simp: pstep_def pool_step_def idle_call_def split: if_splits)
  next
    case Wait
    then show ?thesis
      using call t pc assms by (auto simp: pstep_def pool_step_def idle_call_def split: if_splits)
  next
    case Destroy
    then show ?thesis
      using destroy t pc assms all by (auto simp: pstep_def pool_step_def idle_call_def split: if_splits)
  next
    case (Post v)
    then show ?thesis using post assms by (auto simp: pstep_def pool_step_def split: if_splits)
  next
    case Throw
    then show ?thesis using throw pc assms by (auto simp: pstep_def pool_step_def split: if_splits)
  next
    case Wake
    then obtain m where "wake_up (fst l) (mon s) = Some m" "s' = s\<lparr>mon := m\<rparr>"
      using assms by (auto simp: pstep_def pool_step_def split: if_splits)
    then show ?thesis using wake Wake by blast
  next
    case Step
    then show ?thesis using dead step t pc assms by (auto simp: pstep_def pool_step_def split: if_splits)
  qed
qed

lemmas pool_op_defs = enter_def attach_in_def check_stopped_def pop_task_def task_returns_def attach_out_def
  attach_wait_def attach_notify_def stop_store_def stop_close_def wait_close_def wait_join_def

lemma pool_perform_agrees:
  assumes "perform (pc_of s t) t s = Some s'" "t < length (pcs s)"
  shows "length (pcs s') = length (pcs s)" "v \<noteq> t \<Longrightarrow> pc_of s' v = pc_of s v" "workers s' = workers s"
    "closing s' = closing s" "fault s' = fault s"
  using assms by (cases "pc_of s t"; auto simp: pool_op_defs split: if_splits option.splits)+


section \<open>Mutual exclusion and counting\<close>

fun inside :: "'v pc \<Rightarrow> bool" where
  "inside A_in = True"
| "inside A_out = True"
| "inside A_recheck = True"
| "inside _ = False"

text \<open>The task that a thread is in, also while the task calls \<open>stop\<close>.\<close>

fun running :: "'v pc \<Rightarrow> 'v list" where
  "running (R_run v) = [v]"
| "running (S_store r) = running r"
| "running (S_close r) = running r"
| "running _ = []"

text \<open>Between the two accesses to \<open>attached_threads_\<close>.\<close>

fun counted :: "'v pc \<Rightarrow> bool" where
  "counted Q_check = True"
| "counted Q_pop = True"
| "counted (R_run _) = True"
| "counted A_leave = True"
| "counted A_out = True"
| "counted (S_store r) = counted r"
| "counted (S_close r) = counted r"
| "counted _ = False"

text \<open>What a thread does after \<open>stop\<close>: a task goes on, a user thread returns, the destructor waits.\<close>

fun after_stop :: "'v pc \<Rightarrow> bool" where
  "after_stop (R_run _) = True"
| "after_stop Idle = True"
| "after_stop (W_close True) = True"
| "after_stop _ = False"

fun well_placed :: "'v pc \<Rightarrow> bool" where
  "well_placed (S_store r) = after_stop r"
| "well_placed (S_close r) = after_stop r"
| "well_placed _ = True"

definition placed :: "'v pool \<Rightarrow> bool" where
  "placed s \<longleftrightarrow> (\<forall>t. well_placed (pc_of s t) \<and> (t < workers s \<longrightarrow> pc_of s t = Idle \<or> in_attach (pc_of s t)))"

lemma after_stop_simps:
  "after_stop r \<Longrightarrow> \<not> inside r" "after_stop r \<Longrightarrow> counted r \<longleftrightarrow> is_run r" "after_stop r \<Longrightarrow> well_placed r"
  "after_stop r \<Longrightarrow> in_attach r \<longleftrightarrow> is_run r"
  by (cases r rule: after_stop.cases; simp)+

lemma placedD: "placed s \<Longrightarrow> well_placed (pc_of s t)" "placed s \<Longrightarrow> t < workers s \<Longrightarrow> pc_of s t = Idle \<or> in_attach (pc_of s t)"
  by (auto simp: placed_def)

lemma placed_goto:
  "placed s \<Longrightarrow> t < length (pcs s) \<Longrightarrow> well_placed p \<Longrightarrow> (t < workers s \<longrightarrow> p = Idle \<or> in_attach p) \<Longrightarrow> placed (goto t p s)"
  by (simp add: placed_def)

lemma placed_cong: "pc_of s' = pc_of s \<Longrightarrow> workers s' = workers s \<Longrightarrow> placed s' = placed s"
  by (simp add: placed_def)

lemma perform_placed:
  assumes i: "placed s" and t: "t < length (pcs s)" and p: "perform (pc_of s t) t s = Some s'"
  shows "placed s'"
proof -
  have "well_placed (pc_of s' t) \<and> (t < workers s \<longrightarrow> pc_of s' t = Idle \<or> in_attach (pc_of s' t))"
    using p t placedD [OF i, of t] 
    by (cases "pc_of s t") (auto simp: pool_op_defs after_stop_simps split: if_splits option.splits)
  then show ?thesis
    using i pool_perform_agrees(2,3) [OF p t] unfolding placed_def by metis
qed

lemma pstep_placed:
  assumes i: "placed s" and st: "pstep s l s'"
  shows "placed s'"
  using st
proof (cases rule: pstep_cases)
  case (task_stop v)
  then show ?thesis using i placedD(2) [OF i, of "fst l"] by (auto intro!: placed_goto)
next
  case (destroy)
  then show ?thesis using i placed_goto [OF i, of "fst l" "S_store (W_close True)"] by (auto simp: placed_cong [of s'] placed_def)
next
  case step
  then show ?thesis using perform_placed [OF i] by blast
qed (use i in \<open>auto intro!: placed_goto simp: placed_def\<close>)

lemma pool_perform_lock:
  assumes p: "perform (pc_of s t) t s = Some s'" and t: "t < length (pcs s)" and w: "well_placed (pc_of s t)"
  shows "inside (pc_of s' t) \<Longrightarrow> inside (pc_of s t) \<Longrightarrow> holder (mon s') = holder (mon s)"
    "inside (pc_of s' t) \<Longrightarrow> \<not> inside (pc_of s t) \<Longrightarrow> holder (mon s) = None \<and> holder (mon s') = Some t"
    "\<not> inside (pc_of s' t) \<Longrightarrow> holder (mon s') = (if inside (pc_of s t) then None else holder (mon s))"
  using assms by (cases "pc_of s t"; auto simp: pool_op_defs acquire_Some after_stop_simps split: if_splits option.splits)+


definition pool_start :: "'v pool \<Rightarrow> bool" where
  "pool_start s \<longleftrightarrow> (\<exists>w n. w + n < 2 ^ 32 \<and> s = static_thread_pool w n)"

lemma pool_start_pc: "pc_of (static_thread_pool w n) t = (if t < w then A_enter else Idle)"
  by (simp add: static_thread_pool_def pc_of_def nth_append)

lemma pool_start_placed: "placed (static_thread_pool w n)"
  unfolding placed_def pool_start_pc by (simp add: static_thread_pool_def)

lemma pstep_lock:
  assumes i: "placed s" and st: "pstep s l s'"
  shows "(u \<noteq> fst l \<longrightarrow> pc_of s' u = pc_of s u) \<and>
    (inside (pc_of s' (fst l)) \<longrightarrow> (if inside (pc_of s (fst l)) then holder (mon s') = holder (mon s)
       else holder (mon s) = None \<and> holder (mon s') = Some (fst l))) \<and>
    (\<not> inside (pc_of s' (fst l)) \<longrightarrow> holder (mon s') = (if inside (pc_of s (fst l)) then None else holder (mon s)))"
  using st
proof (cases rule: pstep_cases)
  case (wake m)
  then show ?thesis using wake_up_SomeD(2) [OF wake(1)] by simp
next
  case step
  show ?thesis
    using pool_perform_agrees(2) [OF step(3,1)] pool_perform_lock [OF step(3,1) placedD(1) [OF i]] by (simp del: perform.simps)
qed auto

interpretation pool_mutex: monitor_discipline pool_start pstep placed mon "\<lambda>s t. inside (pc_of s t)" fst
proof unfold_locales
  fix s :: "'v pool" and t :: nat
  assume "pool_start s"
  then obtain w n where s: "s = static_thread_pool w n" by (auto simp: pool_start_def)
  show "placed s" unfolding s by (rule pool_start_placed)
  show "holder (mon s) = None \<and> \<not> inside (pc_of s t)"
    unfolding s pool_start_pc by (simp add: static_thread_pool_def)
next
  fix s l s' and u :: nat
  assume st: "pstep s l s'" and i: "placed s"
  note lk = pstep_lock [OF i st]
  show "u \<noteq> fst l \<Longrightarrow> inside (pc_of s' u) = inside (pc_of s u)" using lk [of u] by simp
  show "inside (pc_of s' (fst l)) \<Longrightarrow> inside (pc_of s (fst l)) \<Longrightarrow> holder (mon s') = holder (mon s)"
    using lk by simp
  show "inside (pc_of s' (fst l)) \<Longrightarrow> \<not> inside (pc_of s (fst l)) \<Longrightarrow>
      holder (mon s) = None \<and> holder (mon s') = Some (fst l)" using lk by simp
  show "\<not> inside (pc_of s' (fst l)) \<Longrightarrow> holder (mon s') = (if inside (pc_of s (fst l)) then None else holder (mon s))"
    using lk by simp
qed (rule pstep_placed)

definition regs :: "'v pool \<Rightarrow> nat" where
  "regs s = length (filter counted (pcs s))"

definition counts :: "'v pool \<Rightarrow> bool" where
  "counts s \<longleftrightarrow> length (pcs s) < 2 ^ 32 \<and> attached s = of_nat (regs s)"

lemma pool_regs_goto:
  "t < length (pcs s) \<Longrightarrow> regs (goto t p s) + (if counted (pc_of s t) then 1 else 0) = regs s + (if counted p then 1 else 0)"
  using count_update [of t "pcs s" counted p] by (simp add: regs_def goto_def pc_of_def)

lemma pool_regs_update [simp]:
  "regs (s\<lparr>mon := m\<rparr>) = regs s" "regs (s\<lparr>que := q\<rparr>) = regs s" "regs (s\<lparr>stopped := b\<rparr>) = regs s"
  "regs (s\<lparr>attached := a\<rparr>) = regs s" "regs (s\<lparr>joins := i\<rparr>) = regs s" "regs (s\<lparr>closing := b\<rparr>) = regs s"
  "regs (s\<lparr>gone := b\<rparr>) = regs s" "regs (s\<lparr>fault := f\<rparr>) = regs s" "regs (s\<lparr>accepted := vs\<rparr>) = regs s"
  "regs (s\<lparr>started := vs\<rparr>) = regs s" "regs (s\<lparr>finished := vs\<rparr>) = regs s" "regs (post_task v s) = regs s"
  by (simp_all add: regs_def)

lemma regs_same: "t < length (pcs s) \<Longrightarrow> counted (pc_of s t) = counted p \<Longrightarrow> regs (goto t p s) = regs s"
  using pool_regs_goto [of t s p] by (simp split: if_splits)

lemma regs_in: "t < length (pcs s) \<Longrightarrow> \<not> counted (pc_of s t) \<Longrightarrow> counted p \<Longrightarrow> regs (goto t p s) = Suc (regs s)"
  using pool_regs_goto [of t s p] by simp

lemma regs_out:
  "t < length (pcs s) \<Longrightarrow> counted (pc_of s t) \<Longrightarrow> \<not> counted p \<Longrightarrow>
    (of_nat (regs (goto t p s)) :: 32 word) = of_nat (regs s) - 1"
  using pool_regs_goto [of t s p] by (simp add: add.commute flip: of_nat_Suc) (metis add_diff_cancel_left' of_nat_Suc)

lemma pool_regs_pos: "counted (pc_of s t) \<Longrightarrow> 0 < regs s"
  using count_pos [of counted "pcs s"] by (auto simp: regs_def pc_of_def simp del: length_greater_0_conv split: if_splits)

lemma regs_zero: "(\<And>t. \<not> counted (pc_of s t)) \<Longrightarrow> regs s = 0"
  unfolding regs_def pc_of_def by (auto simp: filter_empty_conv in_set_conv_nth) (metis)

lemma unat_attached:
  assumes "counts s"
  shows "unat (attached s) = regs s"
proof -
  have "regs s < 2 ^ 32" using assms le_less_trans [OF length_filter_le] by (auto simp: counts_def regs_def)
  then show ?thesis using assms by (simp add: counts_def unsigned_of_nat take_bit_nat_eq_self)
qed

lemma attached_zero: "counts s \<Longrightarrow> attached s = 0 \<longleftrightarrow> regs s = 0"
  using unat_attached [of s] by (metis unsigned_0 unat_eq_zero)

lemma pool_perform_counts:
  assumes c: "counts s" and t: "t < length (pcs s)" and w: "well_placed (pc_of s t)"
    and p: "perform (pc_of s t) t s = Some s'"
  shows "counts s'"
  using assms
  by (cases "pc_of s t") (auto simp: counts_def pool_op_defs regs_same regs_in regs_out after_stop_simps split: if_splits option.splits)

lemma pstep_counts:
  assumes c: "counts s" and i: "placed s" and st: "pstep s l s'"
  shows "counts s'"
  using st
proof (cases rule: pstep_cases)
  case step
  then show ?thesis using pool_perform_counts [OF c _ placedD(1) [OF i]] by blast
qed (use c in \<open>auto simp: counts_def regs_same\<close>)

section \<open>Leaving together\<close>

text \<open>No wakeup of the second half of \<open>attach\<close> is lost: one thread passes the notification on.\<close>

definition wakeups :: "'v pool \<Rightarrow> bool" where
  "wakeups s \<longleftrightarrow> (\<forall>t \<in> blocked (mon s). pc_of s t = A_wait) \<and>
     (blocked (mon s) \<noteq> {} \<and> attached s = 0 \<longrightarrow> (\<exists>u. pc_of s u = A_recheck \<or> pc_of s u = A_notify))"

lemma pool_perform_wakeups:
  assumes w: "wakeups s" and c: "counts s" and t: "t < length (pcs s)" and p: "perform (pc_of s t) t s = Some s'"
    and i: "well_placed (pc_of s t)"
  shows "wakeups s'"
proof (cases "pc_of s t = A_notify")
  case True
  then show ?thesis using p by (simp add: pool_op_defs) (auto simp: wakeups_def)
next
  case False
  have ag: "pc_of s' v = pc_of s v" if "v \<noteq> t" for v using pool_perform_agrees(2) [OF p t that] .
  have nb: "t \<notin> blocked (mon s)" if "pc_of s t \<noteq> A_wait" using w that by (auto simp: wakeups_def)
  have sub: "blocked (mon s') \<subseteq> insert t (blocked (mon s))"
    using p by (cases "pc_of s t") (auto simp: pool_op_defs acquire_Some split: if_splits option.splits)
  have new: "pc_of s' t = A_wait \<and> attached s' \<noteq> 0" if "t \<in> blocked (mon s')"
    using p t that nb False by (cases "pc_of s t") (auto simp: pool_op_defs acquire_Some split: if_splits option.splits)
  have "attached s' \<noteq> 0" if "pc_of s t = A_in"
  proof -
    have "counted (pc_of s' t)" using p t that by (auto simp: pool_op_defs)
    then show ?thesis using attached_zero [OF pool_perform_counts [OF c t i p]] pool_regs_pos [of s' t] by simp
  qed
  then have zero: "attached s' \<noteq> 0 \<or> attached s = 0 \<and> pc_of s t \<noteq> A_recheck \<or> pc_of s' t = A_recheck \<or> pc_of s' t = A_notify"
    using p t False by (cases "pc_of s t") (auto simp: pool_op_defs acquire_Some split: if_splits option.splits)
  have "\<exists>u. pc_of s' u = A_recheck \<or> pc_of s' u = A_notify" if ne: "blocked (mon s') \<noteq> {}" "attached s' = 0"
  proof -
    obtain v where v: "v \<in> blocked (mon s')" using ne by blast
    then have "v \<in> blocked (mon s)" using new ne(2) sub by auto
    then show ?thesis using w zero ne(2) ag False unfolding wakeups_def by (metis empty_iff)
  qed
  moreover have "pc_of s' v = A_wait" if "v \<in> blocked (mon s')" for v
    using that new sub ag w by (cases "v = t") (auto simp: wakeups_def)
  ultimately show ?thesis by (auto simp: wakeups_def)
qed

lemma wakeups_goto_call:
  "wakeups s \<Longrightarrow> t < length (pcs s) \<Longrightarrow> pc_of s t = Idle \<or> is_run (pc_of s t) \<Longrightarrow> wakeups (goto t p s)"
proof -
  assume a: "wakeups s" "t < length (pcs s)" "pc_of s t = Idle \<or> is_run (pc_of s t)"
  have "u \<noteq> t" if "pc_of s u = A_recheck \<or> pc_of s u = A_notify \<or> pc_of s u = A_wait" for u
    using a(3) that by auto
  then show ?thesis using a(1,2) unfolding wakeups_def by (simp add: ball_conj_distrib) metis
qed

lemma pstep_wakeups:
  assumes w: "wakeups s" and c: "counts s" and i: "placed s" and st: "pstep s l s'"
  shows "wakeups s'"
  using st
proof (cases rule: pstep_cases)
  case (wake m)
  then show ?thesis using w wake_up_SomeD(3) [OF wake(1)] by (auto simp: wakeups_def)
next
  case step
  then show ?thesis using pool_perform_wakeups [OF w c _ _ placedD(1) [OF i]] by blast
next
  case destroy
  then have "wakeups (goto (fst l) (S_store (W_close True)) s)" using w by (intro wakeups_goto_call) auto
  then show ?thesis by (simp add: destroy wakeups_def)
qed (use w in \<open>auto intro!: wakeups_goto_call, auto simp: wakeups_def\<close>)


section \<open>Draining\<close>

text \<open>A thread that is past its last task.\<close>

fun leaving :: "'v pc \<Rightarrow> bool" where
  "leaving A_leave = True"
| "leaving A_out = True"
| "leaving A_recheck = True"
| "leaving A_wait = True"
| "leaving A_notify = True"
| "leaving _ = False"

definition left_queue :: "'v pool \<Rightarrow> nat \<Rightarrow> bool" where
  "left_queue s t \<longleftrightarrow> leaving (pc_of s t) \<or> t < workers s \<and> pc_of s t = Idle"

definition passed_barrier :: "'v pool \<Rightarrow> nat \<Rightarrow> bool" where
  "passed_barrier s t \<longleftrightarrow> pc_of s t = A_notify \<or> t < workers s \<and> pc_of s t = Idle"

text \<open>
  As long as the pool was not stopped, a thread leaves only a closed and empty queue,
  and passes the barrier only when nobody runs a task; from then on nobody does.
\<close>

definition drained :: "'v pool \<Rightarrow> bool" where
  "drained s \<longleftrightarrow> \<not> stopped s \<longrightarrow>
     (\<forall>t. left_queue s t \<longrightarrow> closed (que s) \<and> items (que s) = []) \<and>
     (\<forall>t u. passed_barrier s t \<longrightarrow> running (pc_of s u) = [])"

text \<open>Every accepted task is in the queue or was started, and every started one is running or has finished.\<close>

definition books :: "'v pool \<Rightarrow> bool" where
  "books s \<longleftrightarrow> accepted s = started s @ items (que s) \<and>
     mset (started s) = mset (finished s) + mset (concat (map running (pcs s)))"

definition joined :: "'v pool \<Rightarrow> bool" where
  "joined s \<longleftrightarrow> (joins s = workers s \<or> joins s = 0 \<and> (\<forall>v < workers s. pc_of s v = Idle)) \<and> workers s \<le> length (pcs s) \<and>
     (\<forall>t d i. pc_of s t = W_join d i \<longrightarrow> (\<forall>v < min i (workers s). pc_of s v = Idle))"

lemma passed_left: "passed_barrier s t \<Longrightarrow> left_queue s t"
  by (auto simp: passed_barrier_def left_queue_def)

lemma mset_concat_update:
  "i < length xs \<Longrightarrow> mset (concat (map f (xs[i := v]))) + mset (f (xs ! i)) = mset (concat (map f xs)) + mset (f v)"
proof (induction xs arbitrary: i)
  case (Cons x xs)
  then show ?case using Cons.IH [of "i - 1"] by (cases i) (simp_all add: ac_simps)
qed simp

lemma running_goto:
  "t < length (pcs s) \<Longrightarrow> mset (concat (map running (pcs (goto t p s)))) + mset (running (pc_of s t)) =
    mset (concat (map running (pcs s))) + mset (running p)"
  using mset_concat_update [of t "pcs s" running p] by (simp add: goto_def pc_of_def)

lemma running_goto_same:
  "t < length (pcs s) \<Longrightarrow> running (pc_of s t) = running p \<Longrightarrow>
    mset (concat (map running (pcs (goto t p s)))) = mset (concat (map running (pcs s)))"
  using running_goto [of t s p] by simp

lemma pcs_goto_update [simp]: 
  "pcs (goto t p (s\<lparr>mon := m\<rparr>)) = pcs (goto t p s)" "pcs (goto t p (s\<lparr>que := q\<rparr>)) = pcs (goto t p s)"
  "pcs (goto t p (s\<lparr>stopped := b\<rparr>)) = pcs (goto t p s)" "pcs (goto t p (s\<lparr>attached := a\<rparr>)) = pcs (goto t p s)"
  "pcs (goto t p (s\<lparr>joins := i\<rparr>)) = pcs (goto t p s)" "pcs (goto t p (s\<lparr>gone := b\<rparr>)) = pcs (goto t p s)"
  "pcs (goto t p (s\<lparr>started := vs\<rparr>)) = pcs (goto t p s)" "pcs (goto t p (s\<lparr>finished := vs\<rparr>)) = pcs (goto t p s)"
  by (simp_all add: goto_def)

lemma perform_books:
  assumes b: "books s" and t: "t < length (pcs s)" and p: "perform (pc_of s t) t s = Some s'"
    and i: "well_placed (pc_of s t)"
  shows "books s'"
proof (cases "pc_of s t")
  case Q_pop
  then obtain r q where r: "pop_item (que s) = Some (r, q)" using p by (auto simp: pool_op_defs split: option.splits)
  show ?thesis
  proof (cases r)
    case None
    then have s': "s' = goto t A_leave s" using p Q_pop r by (simp add: pool_op_defs)
    show ?thesis using b t Q_pop by (simp add: s' books_def running_goto_same)
  next
    case (Some v)
    then have s': "s' = goto t (R_run v) (s\<lparr>que := q, started := started s @ [v]\<rparr>)" using p Q_pop r by (simp add: pool_op_defs)
    show ?thesis
      using b running_goto [OF t, of "R_run v"] Q_pop cq.take_content [OF r] Some by (simp add: s' books_def)
  qed
next
  case (R_run v)
  then have s': "s' = goto t Q_check (s\<lparr>finished := finished s @ [v]\<rparr>)" using p by (simp add: pool_op_defs)
  show ?thesis using b running_goto [OF t, of Q_check] R_run by (simp add: s' books_def)
qed (use b t p i in \<open>auto simp: books_def pool_op_defs running_goto_same close_queue_def split: if_splits\<close>)

lemma perform_drained:
  assumes d: "drained s" and c: "counts s" and t: "t < length (pcs s)" and p: "perform (pc_of s t) t s = Some s'"
    and i: "placed s"
  shows "drained s'"
proof (cases "stopped s'")
  case False
  note ag = pool_perform_agrees(2,3) [OF p t]
  have st: "\<not> stopped s" using False p by (cases "pc_of s t") (auto simp: pool_op_defs split: if_splits option.splits)
  have keep: "closed (que s') \<and> items (que s') = []" if "closed (que s) \<and> items (que s) = []"
    using p that by (cases "pc_of s t") (auto simp: pool_op_defs close_queue_def pop_item_def split: if_splits option.splits)
  have old: "left_queue s u" if "left_queue s' u" "u \<noteq> t" for u
    using that ag by (auto simp: left_queue_def)
  have new: "left_queue s t \<or> closed (que s) \<and> items (que s) = []" if "left_queue s' t"
  proof (cases "pc_of s t")
    case Q_pop
    then obtain r q where r: "pop_item (que s) = Some (r, q)" using p by (auto simp: pool_op_defs split: option.splits)
    show ?thesis
    proof (cases r)
      case None
      then show ?thesis using r by (auto simp: pop_item_def split: if_splits list.splits)
    next
      case (Some v)
      then show ?thesis using p Q_pop r that t by (auto simp: pool_op_defs left_queue_def)
    qed
  qed (use p that t st placedD [OF i, of t] in \<open>auto simp: pool_op_defs left_queue_def split: if_splits elim: after_stop.elims\<close>)
  have L: "closed (que s) \<and> items (que s) = []" if "left_queue s' u" for u
    using d st that old new unfolding drained_def by metis
  moreover have "running (pc_of s' v) = []" if u: "passed_barrier s' u" for u v
  proof -
    have *: "running (pc_of s v) = []"
    proof (cases "passed_barrier s u")
      case True
      then show ?thesis using d st by (auto simp: drained_def)
    next
      case False
      have ut: "u = t"
      proof (rule ccontr)
        assume "u \<noteq> t"
        then show False using False u ag by (simp add: passed_barrier_def)
      qed
      have "pc_of s t = A_recheck \<and> attached s = 0"
        using u p t placedD [OF i, of t] False unfolding ut passed_barrier_def ag(2)
        by (cases "pc_of s t") (auto simp: pool_op_defs split: if_splits option.splits elim: after_stop.elims)
      then have "regs s = 0" using attached_zero [OF c] by simp
      then have "\<not> counted (pc_of s v)" using pool_regs_pos [of s v] by auto
      then show ?thesis using placedD(1) [OF i, of v] by (cases "pc_of s v") (auto elim: after_stop.elims)
    qed
    show ?thesis
    proof (cases "v = t")
      case True
      have "closed (que s) \<and> items (que s) = []" by (rule L [OF passed_left [OF u]])
      then show ?thesis using * p t True by (cases "pc_of s t") (auto simp: pool_op_defs pop_item_def split: if_splits)
    qed (use * ag in simp)
  qed
  ultimately show ?thesis using keep by (auto simp: drained_def)
qed (simp add: drained_def)


lemma perform_joined:
  assumes j: "joined s" and t: "t < length (pcs s)" and p: "perform (pc_of s t) t s = Some s'" and i: "placed s"
  shows "joined s'"
proof -
  note ag = pool_perform_agrees(1-3) [OF p t]
  have idle: "pc_of s' v = Idle" if "pc_of s v = Idle" for v
    using that p ag(2) [of v] by (cases "v = t") auto
  have w: "(if pc_of s t = Idle then False else True)" using p by auto
  have "joins s' = joins s \<or> joins s' = 0 \<and> (\<forall>v < workers s. pc_of s' v = Idle)"
  proof (cases "pc_of s t")
    case (W_join d k)
    show ?thesis
    proof (cases "k < joins s")
      case False
      have "pc_of s v = Idle" if "v < workers s" for v
        using j W_join False that unfolding joined_def by (metis less_le_trans min_less_iff_conj not_less)
      then show ?thesis using p W_join False idle by (auto simp: pool_op_defs)
    qed (use p W_join in \<open>auto simp: pool_op_defs split: if_splits\<close>)
  qed (use p in \<open>auto simp: pool_op_defs split: if_splits option.splits\<close>)
  moreover have "\<forall>v < min k (workers s'). pc_of s' v = Idle" if u: "pc_of s' u = W_join d k" for u d k
  proof (cases "u = t")
    case False
    then have "pc_of s u = W_join d k" using u ag(2) by simp
    then show ?thesis using j idle ag(3) unfolding joined_def by metis
  next
    case True
    show ?thesis
    proof (cases "pc_of s t")
      case (W_join d' k')
      then have k: "k = k' + 1" "pcs s ! k' = Idle" "k' < joins s"
        using p u t True by (auto simp: pool_op_defs split: if_splits)
      have "pc_of s v = Idle" if "v < min k (workers s)" for v
      proof (cases "v = k'")
        case False
        then show ?thesis using j W_join that k(1) unfolding joined_def by (metis less_Suc_eq Suc_eq_plus1 min_less_iff_conj)
      qed (use k(2) in \<open>simp add: pc_of_def\<close>)
      then show ?thesis using idle ag(3) by simp
    qed (use p u t True placedD(1) [OF i, of t] in \<open>auto simp: pool_op_defs split: if_splits option.splits elim: after_stop.elims\<close>)
  qed
  ultimately show ?thesis using j idle ag(1,3) unfolding joined_def by (metis le0)
qed

definition pool_inv :: "'v pool \<Rightarrow> bool" where
  "pool_inv s \<longleftrightarrow> placed s \<and> counts s \<and> wakeups s \<and> drained s \<and> books s \<and> joined s"

text \<open>A call of an idle thread, or of a task, changes what it is about to do.\<close>

lemma drained_call:
  assumes "drained s" "t < length (pcs s)" "workers s \<le> t \<and> pc_of s t = Idle \<or> is_run (pc_of s t)"
    "running p = running (pc_of s t)" "\<not> leaving p" "p \<noteq> Idle"
  shows "drained (goto t p s)"
proof -
  have "left_queue (goto t p s) u \<Longrightarrow> left_queue s u" "passed_barrier (goto t p s) u \<Longrightarrow> passed_barrier s u"
    "running (pc_of (goto t p s) u) = running (pc_of s u)" for u
    using assms by (auto simp: left_queue_def passed_barrier_def split: if_splits)
  then show ?thesis using assms(1) unfolding drained_def by (metis pool_goto_simps(1,3))
qed

lemma joined_call:
  assumes "joined s" "t < length (pcs s)" "workers s \<le> t \<and> pc_of s t = Idle \<or> is_run (pc_of s t)"
    "\<And>d i. p \<noteq> W_join d i"
  shows "joined (goto t p s)"
proof -
  have "pc_of (goto t p s) v = Idle" if "pc_of s v = Idle" "v < workers s" for v
    using that assms(2,3) by auto
  then show ?thesis using assms by (auto simp: joined_def)
qed

lemma call_inv:
  assumes i: "pool_inv s" and t: "t < length (pcs s)" "workers s \<le> t \<and> pc_of s t = Idle \<or> is_run (pc_of s t)"
    and p: "running p = running (pc_of s t)" "\<not> leaving p" "p \<noteq> Idle" "\<And>d i. p \<noteq> W_join d i"
  shows "drained (goto t p s) \<and> books (goto t p s) \<and> joined (goto t p s)"
proof (intro conjI)
  show "drained (goto t p s)" by (rule drained_call) (use i t p in \<open>auto simp: pool_inv_def\<close>)
  show "joined (goto t p s)" by (rule joined_call) (use i t p in \<open>auto simp: pool_inv_def\<close>)
  have "books s" using i by (simp add: pool_inv_def)
  then show "books (goto t p s)" using t(1) p(1) by (simp add: books_def running_goto_same)
qed

lemma pool_inv_step:
  assumes i: "pool_inv s" and st: "pstep s l s'"
  shows "pool_inv s'"
proof -
  have 1: "placed s'" "counts s'" "wakeups s'"
    using i st pstep_placed pstep_counts pstep_wakeups unfolding pool_inv_def by blast+
  note call = call_inv [OF i]
  from st have "drained s' \<and> books s' \<and> joined s'"
  proof (cases rule: pstep_cases)
    case attach
    then show ?thesis using call [of "fst l" A_enter] by simp
  next
    case (task_stop v)
    then show ?thesis using call [of "fst l" "S_store (R_run v)"] by simp
  next
    case (call p)
    then show ?thesis using call_inv [OF i, of "fst l" p] by auto
  next
    case destroy
    then show ?thesis
      using call [of "fst l" "S_store (W_close True)"]
      by (simp add: drained_def left_queue_def passed_barrier_def books_def joined_def)
  next
    case (post v)
    define d where "d = (if closed (que s) then [] else [v])"
    have "items (que s') = items (que s) @ d" "accepted s' = accepted s @ d"
      by (simp_all add: post post_task_def push_item_def d_def)
    moreover have "drained s" "books s" "joined s" using i by (simp_all add: pool_inv_def)
    ultimately show ?thesis
      by (auto simp: drained_def left_queue_def passed_barrier_def books_def joined_def post d_def)
  next
    case step
    then show ?thesis
      using i perform_drained perform_books perform_joined placedD(1) unfolding pool_inv_def by blast
  qed (use i in \<open>auto simp: pool_inv_def drained_def left_queue_def passed_barrier_def books_def joined_def\<close>)
  then show ?thesis using 1 by (simp add: pool_inv_def)
qed

lemma pool_inv_start: "w + n < 2 ^ 32 \<Longrightarrow> pool_inv (static_thread_pool w n)"
  unfolding pool_inv_def
proof (intro conjI)
  assume wn: "w + n < 2 ^ 32"
  let ?s = "static_thread_pool w n :: 'a pool"
  have pc: "pc_of ?s t = (if t < w then A_enter else Idle)" for t by (rule pool_start_pc)
  show "placed ?s" by (rule pool_start_placed)
  have "regs ?s = 0" by (simp add: regs_def static_thread_pool_def filter_empty_conv)
  moreover have "attached ?s = 0" "length (pcs ?s) = w + n" by (simp_all add: static_thread_pool_def)
  ultimately show "counts ?s" using wn by (simp add: counts_def)
  show "wakeups ?s" by (simp add: wakeups_def static_thread_pool_def)
  show "drained ?s"
    unfolding drained_def left_queue_def passed_barrier_def pc by (simp add: static_thread_pool_def)
  show "books ?s" by (auto simp: books_def static_thread_pool_def empty_queue_def)
  show "joined ?s" unfolding joined_def pc by (simp add: static_thread_pool_def)
qed

interpretation pool_invariant: invariant_system pool_start pstep pool_inv
proof unfold_locales
  fix s :: "'v pool" assume "pool_start s"
  then show "pool_inv s" using pool_inv_start by (auto simp: pool_start_def)
qed (rule pool_inv_step)


lemma pool_reachable:
  assumes "w + n < 2 ^ 32" "run pstep (static_thread_pool w n) ls s"
  shows "pool_inv s" "pool_mutex.exclusive s"
proof -
  have "pool_start (static_thread_pool w n)" using assms(1) by (auto simp: pool_start_def)
  then show "pool_inv s" "pool_mutex.exclusive s"
    using assms(2) pool_invariant.run_inv pool_mutex.run_exclusive by blast+
qed

text \<open>An example: one worker and two user threads; two tasks, then \<open>wait\<close>.\<close>

definition drain_prefix :: "(nat \<times> nat label) list" where
  "drain_prefix = [(1, Post 7), (2, Post 8), (1, Wait), (1, Step), (2, Post 9)] @ replicate 14 (0, Step) @ [(1, Step)]"

definition drain_pool :: "nat pool" where
  "drain_pool = the (pool_steps drain_prefix (static_thread_pool 1 2))"

lemma drain_run: "run pstep (static_thread_pool 1 2) drain_prefix drain_pool"
  unfolding drain_pool_def by (rule pool_reach) code_simp

text \<open>
  C22. Tasks are taken in the order in which they were accepted, each at most once; a
  task that was started is being run or has returned.
\<close>

theorem pool_order:
  assumes "w + n < 2 ^ 32" "run pstep (static_thread_pool w n) ls s"
  shows "accepted s = started s @ items (que s) \<and>
    mset (started s) = mset (finished s) + mset (concat (map running (pcs s)))"
  using pool_reachable(1) [OF assms] by (auto simp: pool_inv_def books_def)

theorem pool_order_witness:
  "accepted drain_pool = started drain_pool @ items (que drain_pool) \<and>
    mset (started drain_pool) = mset (finished drain_pool) + mset (concat (map running (pcs drain_pool)))"
  by (rule pool_order [OF _ drain_run]) simp




section \<open>Nothing blocks for ever\<close>

lemma never_stuck:
  assumes i: "pool_inv s" and x: "pool_mutex.exclusive s" and cl: "closed (que s)" and f: "fault s = None" "\<not> gone s"
    and stuck: "\<And>t s'. \<not> pstep s (t, Step) s'"
  shows "pc_of s t = Idle"
proof -
  have st: "perform (pc_of s v) v s = None" for v
  proof (cases "pc_of s v = Idle")
    case False
    then have v: "v < length (pcs s)" "pcs s ! v = pc_of s v" by (auto simp: pc_of_def split: if_splits)
    show ?thesis
    proof (cases "perform (pc_of s v) v s")
      case (Some s')
      then have "pstep s (v, Step) s'" using v False f by (simp add: pstep_def pool_step_def)
      then show ?thesis using stuck by blast
    qed simp
  qed simp
  have "\<not> inside (pc_of s v)" for v
    using st [of v] by (cases "pc_of s v") auto
  then have h: "holder (mon s) = None" using x by (cases "holder (mon s)") (auto simp: pool_mutex.exclusive_def)
  have pop: "pop_item (que s) \<noteq> None" using cl by (auto simp: pop_item_def split: list.splits)
  have place: "pc_of s v = Idle \<or> pc_of s v = A_wait \<and> v \<in> blocked (mon s) \<or>
      (\<exists>d k. pc_of s v = W_join d k \<and> k < joins s \<and> pcs s ! k \<noteq> Idle)" for v
    using st [of v] h pop
    by (cases "pc_of s v") (auto simp: pool_op_defs acquire_def reacquire_def split: if_splits option.splits)
  have nw: "pc_of s v \<noteq> A_wait" for v
  proof
    assume "pc_of s v = A_wait"
    then have b: "v \<in> blocked (mon s)" using place [of v] by auto
    have "\<not> counted (pc_of s u) \<and> pc_of s u \<noteq> A_recheck \<and> pc_of s u \<noteq> A_notify" for u
      using place [of u] by auto
    then have "regs s = 0" "attached s \<noteq> 0"
      using b i regs_zero [of s] by (auto simp: pool_inv_def wakeups_def)
    then show False using attached_zero [of s] i by (simp add: pool_inv_def)
  qed
  have wk: "pc_of s v = Idle" if "v < workers s" for v
    using place [of v] nw [of v] i that placedD(2) [of s v] by (auto simp: pool_inv_def)
  have nj: "pcs s ! k = Idle" if "k < joins s" for k
  proof -
    have "k < workers s" "k < length (pcs s)" using i that by (auto simp: pool_inv_def joined_def)
    then show ?thesis using wk [of k] by (simp add: pc_of_def)
  qed
  show ?thesis using place [of t] nw [of t] nj by blast
qed



section \<open>The destructor\<close>

fun destroying :: "'v pc \<Rightarrow> bool" where
  "destroying (S_store (W_close True)) = True"
| "destroying (S_close (W_close True)) = True"
| "destroying (W_close d) = d"
| "destroying (W_join d _) = d"
| "destroying _ = False"

text \<open>
  What holds when user threads do not attach: they never touch the pool in \<open>attach\<close>, the
  destructor runs alone among them, and when it is over everybody is idle.
\<close>

definition alone :: "'v pool \<Rightarrow> bool" where
  "alone s \<longleftrightarrow> fault s \<noteq> Some Destroyed \<and>
     (\<forall>t. workers s \<le> t \<longrightarrow> \<not> in_attach (pc_of s t)) \<and>
     (\<forall>t. destroying (pc_of s t) \<longrightarrow> closing s \<and> (\<forall>u. workers s \<le> u \<and> u \<noteq> t \<longrightarrow> pc_of s u = Idle)) \<and>
     (gone s \<longrightarrow> closing s \<and> (\<forall>t. pc_of s t = Idle))"

lemma perform_alone:
  assumes a: "alone s" and i: "pool_inv s" and t: "t < length (pcs s)" and g: "\<not> gone s"
    and p: "perform (pc_of s t) t s = Some s'"
  shows "alone s'"
proof -
  note ag = pool_perform_agrees(2-5) [OF p t]
  have pl: "well_placed (pc_of s t)" "t < workers s \<Longrightarrow> pc_of s t = Idle \<or> in_attach (pc_of s t)"
    using i placedD by (auto simp: pool_inv_def)
  have att: "\<not> in_attach (pc_of s' t)" if "workers s \<le> t"
  proof -
    have "\<not> in_attach (pc_of s t)" using a that by (simp add: alone_def)
    then show ?thesis using p t by (cases "pc_of s t") (auto simp: pool_op_defs split: if_splits)
  qed
  have des: "destroying (pc_of s t)" if "destroying (pc_of s' t)"
    using that p t pl(1) by (cases "pc_of s t") (auto simp: pool_op_defs split: if_splits option.splits elim: after_stop.elims)
  have gone: "closing s' \<and> (\<forall>v. pc_of s' v = Idle)" if "gone s'"
  proof (cases "pc_of s t")
    case (W_join d k)
    then have "d" "\<not> k < joins s" "pc_of s' t = Idle"
      using p that g t by (auto simp: pool_op_defs split: if_splits)
    then have d: "destroying (pc_of s t)" "joins s \<le> k" using W_join by auto
    have "pc_of s v = Idle" if "v < workers s" for v
      using i W_join that d(2) unfolding pool_inv_def joined_def
      by (metis le_trans min.absorb2 min_less_iff_conj le_less_trans not_le)
    moreover have "pc_of s v = Idle" if "workers s \<le> v" "v \<noteq> t" for v using a d(1) that unfolding alone_def by blast
    moreover have "closing s" using a d(1) unfolding alone_def by blast
    ultimately show ?thesis using ag(1,3) \<open>pc_of s' t = Idle\<close> by (metis not_le)
  qed (use p that g in \<open>auto simp: pool_op_defs split: if_splits option.splits\<close>)
  have "\<not> in_attach (pc_of s' v)" if "workers s' \<le> v" for v
    using a that att ag(1,2) unfolding alone_def by (cases "v = t") auto
  moreover have "closing s' \<and> (\<forall>u. workers s' \<le> u \<and> u \<noteq> v \<longrightarrow> pc_of s' u = Idle)" if v: "destroying (pc_of s' v)" for v
  proof -
    have dv: "destroying (pc_of s v)" using v des ag(1) by (cases "v = t") auto
    then have "pc_of s u = Idle" if "workers s \<le> u" "u \<noteq> v" for u using a that unfolding alone_def by blast
    moreover have "t \<noteq> u" if "pc_of s u = Idle" for u using p that by auto
    ultimately show ?thesis using a dv ag unfolding alone_def by metis
  qed
  ultimately show ?thesis using a gone ag(4) unfolding alone_def by auto
qed

lemma pstep_alone:
  assumes a: "alone s" and i: "pool_inv s" and st: "pstep s l s'" and l: "snd l \<noteq> Attach"
  shows "alone s'"
  using st
proof (cases rule: pstep_cases)
  case attach
  then show ?thesis using l by simp
next
  case (task_stop v)
  have "fst l < workers s" using a task_stop(2) unfolding alone_def by (metis in_attach.simps(5) not_le)
  then show ?thesis using a task_stop(1,2) by (auto simp: alone_def task_stop(3))
next
  case (call p)
  then show ?thesis using a by (auto simp: alone_def)
next
  case destroy
  have g: "\<not> gone s" using a destroy(4) by (auto simp: alone_def)
  have "pc_of s u = Idle" if "workers s \<le> u" for u using a destroy(5) [of u] that by (auto simp: alone_def)
  moreover have "\<not> destroying (pc_of s u)" for u using a destroy(4) by (auto simp: alone_def)
  ultimately show ?thesis using a destroy(1,2) g by (auto simp: alone_def destroy(6))
next
  case dead
  then show ?thesis using a by (auto simp: alone_def)
next
  case step
  then show ?thesis using perform_alone [OF a i] by blast
qed (use a in \<open>auto simp: alone_def\<close>)

lemma run_alone:
  "run pstep s ls s' \<Longrightarrow> alone s \<Longrightarrow> pool_inv s \<Longrightarrow> list_all (\<lambda>l. snd l \<noteq> Attach) ls \<Longrightarrow> alone s' \<and> pool_inv s'"
  by (induction rule: run.induct) (auto intro: pstep_alone pool_inv_step)

definition stop_labels :: "(nat \<times> nat label) list" where
  "stop_labels = replicate 3 (0, Step) @ [(1, Post 7), (1, Post 8), (0, Step), (1, Destroy), (1, Step), (1, Step)]
     @ replicate 6 (0, Step) @ replicate 3 (1, Step)"

definition stopped_pool :: "nat pool" where
  "stopped_pool = the (pool_steps stop_labels (static_thread_pool 1 1))"

lemma stop_run: "run pstep (static_thread_pool 1 1) stop_labels stopped_pool"
  unfolding stopped_pool_def by (rule pool_reach) code_simp



text \<open>
  C38. The comment on the destructor says that it stops accepting work and waits for the
  work to drain. It calls \<open>stop\<close>, and so an accepted task that no thread had taken yet
  is never run: here the worker is in the first of two tasks when the pool is destroyed.
\<close>

theorem pool_dtor_drops_work:
  "\<exists>s. run pstep (static_thread_pool 1 1) stop_labels s \<and> gone s \<and> accepted s = [7, 8] \<and> finished s = [7] \<and>
    started s = [7]"
proof -
  have "gone stopped_pool \<and> accepted stopped_pool = [7, 8] \<and> finished stopped_pool = [7] \<and> started stopped_pool = [7]"
    unfolding stopped_pool_def by code_simp
  then show ?thesis using stop_run by blast
qed

definition attach_labels :: "(nat \<times> nat label) list" where
  "attach_labels = [(2, Attach), (2, Step), (2, Step), (0, Step), (0, Step), (1, Destroy), (1, Step), (1, Step),
     (2, Step), (2, Step), (2, Step), (2, Step), (0, Step), (0, Step), (0, Step), (0, Step), (0, Step),
     (1, Step), (1, Step), (1, Step), (2, Step)]"

text \<open>
  C37. A user thread that attached itself is not waited for: it has left its tasks and
  waits for the others at the end of \<open>attach\<close>; the worker is the last to leave, wakes it
  up and ends, and the destructor, which joins only the workers, is over before the user
  thread takes the pool's mutex again, which no longer exists then.
\<close>

theorem pool_attach_race:
  "\<exists>s. run pstep (static_thread_pool 1 2) attach_labels s \<and> fault s = Some Destroyed \<and> pc_of s 2 = A_wait"
proof -
  have "fault (the (pool_steps attach_labels (static_thread_pool 1 2))) = Some Destroyed \<and>
      pc_of (the (pool_steps attach_labels (static_thread_pool 1 2))) 2 = A_wait" by code_simp
  moreover have "pool_steps attach_labels (static_thread_pool 1 2) \<noteq> None" by code_simp
  ultimately show ?thesis using pool_reach by blast
qed

end
