(* ===== verification/Timed_Waiter.thy ===== *)
theory Timed_Waiter
  imports Monitor
begin

text \<open>
  \<open>timed_waiter\<close> of \<open>bits/timed_waiter.h\<close>: waiting for a future with a time limit. The
  constructor attaches a notification to the future that sets a flag; \<open>wait_for\<close> and
  \<open>wait_until\<close> block on the flag and the clock. Any number of threads have copies of
  the object, make the future ready, or wait; time passes at any moment.

  The theory proves what the answers mean, that a wait ends when the notification is
  over or the time is up, and that nobody accesses the shared \<open>waiter\<close> after its end,
  although each thread may destroy its copy while the notification is under way.
\<close>

section \<open>State\<close>

text \<open>\<open>future_status\<close>, as far as the class uses it.\<close>

datatype status =
    Ready
  | Timeout

text \<open>
  Where a thread is: in the notification (before taking the mutex, before setting the
  flag, before \<open>notify_all\<close>, before the end of the closure), or in a wait (before
  taking the mutex, with a limit of which \<open>wait_for\<close> makes a deadline when it has the mutex;
  with the deadline, before the test of the flag, in \<open>cv.wait_until\<close>, taking the mutex
  again after a time-out, before the last test).
\<close>

datatype limit =
    For nat
  | Until nat

datatype pc =
    Idle
  | N_lock
  | N_set
  | N_notify
  | N_end
  | T_lock limit
  | T_check nat
  | T_blocked nat
  | T_relock nat
  | T_last nat

text \<open>
  The closure of the notification: not made yet, in the continuations stack of the
  future's state, being called, or gone.
\<close>

datatype closure_state =
    No_closure
  | Pending
  | Running
  | Gone

text \<open>
  \<open>ready\<close> says that the future's state was made ready; \<open>owns\<close> says for each thread if it has
  a \<open>timed_waiter\<close>; \<open>freed\<close> that the \<open>waiter\<close> was destroyed, and \<open>dangling\<close> that it was
  accessed afterwards. \<open>answers\<close> are the results of the waits, with the deadline and
  the time.
\<close>

record twaiter =
  ready :: bool
  closure :: closure_state
  notified :: bool
  mon :: monitor
  pcs :: "pc list"
  owns :: "bool list"
  now :: nat
  freed :: bool
  dangling :: bool
  answers :: "(nat \<times> nat \<times> status) list"

definition twaiter_init :: "nat \<Rightarrow> twaiter" where
  "twaiter_init n = \<lparr>ready = False, closure = No_closure, notified = False, mon = new_monitor, pcs = replicate n Idle,
     owns = replicate n False, now = 0, freed = False, dangling = False, answers = []\<rparr>"

definition goto :: "nat \<Rightarrow> pc \<Rightarrow> twaiter \<Rightarrow> twaiter" where
  "goto t p s = s\<lparr>pcs := (pcs s)[t := p]\<rparr>"

text \<open>The last shared pointer to the \<open>waiter\<close> destroys it.\<close>

definition release_waiter :: "twaiter \<Rightarrow> twaiter" where
  "release_waiter s = s\<lparr>freed := freed s \<or> \<not> list_ex id (owns s) \<and> closure s = Gone\<rparr>"

section \<open>The notification\<close>

text \<open>
  The constructors: \<open>notify\<close> of the future pushes the closure, or calls it when the
  future is ready.
\<close>

definition timed_waiter_ctor :: "nat \<Rightarrow> twaiter \<Rightarrow> twaiter" where
  "timed_waiter_ctor t s = (let s' = s\<lparr>owns := (owns s)[t := True]\<rparr> in
     if ready s then goto t N_lock (s'\<lparr>closure := Running\<rparr>) else s'\<lparr>closure := Pending\<rparr>)"

definition make_ready :: "nat \<Rightarrow> twaiter \<Rightarrow> twaiter" where
  "make_ready t s = (if closure s = Pending
     then goto t N_lock (s\<lparr>ready := True, closure := Running\<rparr>)
     else s\<lparr>ready := True\<rparr>)"

text \<open>The last future is destroyed, and its state with the closure.\<close>

definition drop_future :: "twaiter \<Rightarrow> twaiter" where
  "drop_future s = release_waiter (s\<lparr>closure := Gone\<rparr>)"

definition notify_closure :: "pc \<Rightarrow> nat \<Rightarrow> twaiter \<Rightarrow> twaiter option" where
  "notify_closure p t s = (case p of
     N_lock \<Rightarrow> map_option (\<lambda>m. goto t N_set (s\<lparr>mon := m\<rparr>)) (acquire t (mon s))
   | N_set \<Rightarrow> Some (goto t N_notify (s\<lparr>notified := True, mon := unlock (mon s)\<rparr>))
   | N_notify \<Rightarrow> Some (goto t N_end (s\<lparr>mon := notify_all (mon s)\<rparr>))
   | _ \<Rightarrow> Some (goto t Idle (release_waiter (s\<lparr>closure := Gone\<rparr>))))"

section \<open>Waiting\<close>

fun deadline :: "limit \<Rightarrow> nat \<Rightarrow> nat" where
  "deadline (For d) n = n + d"
| "deadline (Until d) n = d"

definition wait_for :: "nat \<Rightarrow> nat \<Rightarrow> twaiter \<Rightarrow> twaiter" where
  "wait_for t d s = goto t (T_lock (For d)) s"

definition wait_until :: "nat \<Rightarrow> nat \<Rightarrow> twaiter \<Rightarrow> twaiter" where
  "wait_until t d s = goto t (T_lock (Until d)) s"

definition answer :: "nat \<Rightarrow> nat \<Rightarrow> status \<Rightarrow> twaiter \<Rightarrow> twaiter" where
  "answer t d r s = goto t Idle (s\<lparr>answers := answers s @ [(d, now s, r)], mon := unlock (mon s)\<rparr>)"

text \<open>
  \<open>cv.wait_until(lk, tp, pred)\<close>: while the flag is not set, block until a notification or
  the deadline; after the deadline, the flag decides.
\<close>

definition timed_wait :: "pc \<Rightarrow> nat \<Rightarrow> twaiter \<Rightarrow> twaiter option" where
  "timed_wait p t s = (case p of
     T_lock k \<Rightarrow> map_option (\<lambda>m. goto t (T_check (deadline k (now s))) (s\<lparr>mon := m\<rparr>)) (acquire t (mon s))
   | T_check d \<Rightarrow> Some (if notified s then answer t d Ready s
       else goto t (T_blocked d) (s\<lparr>mon := block_on t (mon s)\<rparr>))
   | T_blocked d \<Rightarrow> map_option (\<lambda>m. goto t (T_check d) (s\<lparr>mon := m\<rparr>)) (reacquire t (mon s))
   | T_relock d \<Rightarrow> map_option (\<lambda>m. goto t (T_last d) (s\<lparr>mon := m\<rparr>)) (acquire t (mon s))
   | T_last d \<Rightarrow> Some (answer t d (if notified s then Ready else Timeout) s)
   | _ \<Rightarrow> None)"

definition time_out :: "nat \<Rightarrow> twaiter \<Rightarrow> twaiter option" where
  "time_out t s = (case pcs s ! t of
     T_blocked d \<Rightarrow>
       if d \<le> now s then Some (goto t (T_relock d) (s\<lparr>mon := (mon s)\<lparr>blocked := blocked (mon s) - {t}\<rparr>\<rparr>)) else None
   | _ \<Rightarrow> None)"

section \<open>Steps\<close>

datatype label =
    Construct
  | Make_ready
  | Drop_future
  | Copy_from nat
  | Drop
  | Wait_for nat
  | Wait_until nat
  | Step
  | Time_out
  | Wake
  | Tick

text \<open>The calls of user code: construction happens once, waiting and copying need a \<open>timed_waiter\<close>.\<close>

definition call :: "nat \<Rightarrow> label \<Rightarrow> twaiter \<Rightarrow> twaiter option" where
  "call t l s = (if pcs s ! t \<noteq> Idle then None else case l of
     Construct \<Rightarrow> if closure s = No_closure then Some (timed_waiter_ctor t s) else None
   | Make_ready \<Rightarrow> if \<not> ready s \<and> closure s \<noteq> Gone then Some (make_ready t s) else None
   | Drop_future \<Rightarrow> if closure s = Pending then Some (drop_future s) else None
   | Copy_from u \<Rightarrow>
       if u < length (pcs s) \<and> owns s ! u then Some (s\<lparr>owns := (owns s)[t := True]\<rparr>) else None
   | Drop \<Rightarrow> if owns s ! t then Some (release_waiter (s\<lparr>owns := (owns s)[t := False]\<rparr>)) else None
   | Wait_for d \<Rightarrow> if owns s ! t then Some (wait_for t d s) else None
   | Wait_until d \<Rightarrow> if owns s ! t then Some (wait_until t d s) else None
   | _ \<Rightarrow> None)"

fun notifying :: "pc \<Rightarrow> bool" where
  "notifying N_lock = True"
| "notifying N_set = True"
| "notifying N_notify = True"
| "notifying N_end = True"
| "notifying _ = False"

definition go_on :: "nat \<Rightarrow> twaiter \<Rightarrow> twaiter option" where
  "go_on t s = (if pcs s ! t = Idle then None
     else if freed s then Some (s\<lparr>dangling := True\<rparr>)
     else if notifying (pcs s ! t) then notify_closure (pcs s ! t) t s
     else timed_wait (pcs s ! t) t s)"

definition timed_step :: "nat \<Rightarrow> label \<Rightarrow> twaiter \<Rightarrow> twaiter option" where
  "timed_step t l s = (if \<not> t < length (pcs s) then None else case l of
     Tick \<Rightarrow> Some (s\<lparr>now := now s + 1\<rparr>)
   | Wake \<Rightarrow> map_option (\<lambda>m. s\<lparr>mon := m\<rparr>) (wake_up t (mon s))
   | Time_out \<Rightarrow> time_out t s
   | Step \<Rightarrow> go_on t s
   | _ \<Rightarrow> call t l s)"

definition tstep :: "twaiter \<Rightarrow> nat \<times> label \<Rightarrow> twaiter \<Rightarrow> bool" where
  "tstep s l s' \<longleftrightarrow> timed_step (fst l) (snd l) s = Some s'"

fun timed_steps :: "(nat \<times> label) list \<Rightarrow> twaiter \<Rightarrow> twaiter option" where
  "timed_steps [] s = Some s"
| "timed_steps (l # ls) s = (case timed_step (fst l) (snd l) s of None \<Rightarrow> None | Some s' \<Rightarrow> timed_steps ls s')"

lemma timed_steps_run: "timed_steps ls s = Some s' \<Longrightarrow> run tstep s ls s'"
  by (induction ls arbitrary: s) (auto simp: tstep_def intro: run_nil run_prepend split: option.splits)

section \<open>Mutual exclusion\<close>

fun inside :: "pc \<Rightarrow> bool" where
  "inside N_set = True"
| "inside (T_check _) = True"
| "inside (T_last _) = True"
| "inside _ = False"

definition pc_of :: "twaiter \<Rightarrow> nat \<Rightarrow> pc" where
  "pc_of s t = (if t < length (pcs s) then pcs s ! t else Idle)"

lemma timed_pc_of_goto [simp]: "t < length (pcs s) \<Longrightarrow> pc_of (goto t p s) u = (if u = t then p else pc_of s u)"
  by (simp add: pc_of_def goto_def nth_list_update)

lemma timed_goto_simps [simp]:
  "ready (goto t p s) = ready s" "closure (goto t p s) = closure s" "notified (goto t p s) = notified s"
  "mon (goto t p s) = mon s" "owns (goto t p s) = owns s" "now (goto t p s) = now s" "freed (goto t p s) = freed s"
  "dangling (goto t p s) = dangling s" "answers (goto t p s) = answers s" "length (pcs (goto t p s)) = length (pcs s)"
  by (simp_all add: goto_def)

lemma timed_pc_of_update [simp]:
  "pc_of (s\<lparr>ready := b\<rparr>) = pc_of s" "pc_of (s\<lparr>closure := k\<rparr>) = pc_of s" "pc_of (s\<lparr>notified := b\<rparr>) = pc_of s"
  "pc_of (s\<lparr>mon := m\<rparr>) = pc_of s" "pc_of (s\<lparr>owns := os\<rparr>) = pc_of s" "pc_of (s\<lparr>now := n\<rparr>) = pc_of s"
  "pc_of (s\<lparr>dangling := b\<rparr>) = pc_of s" "pc_of (s\<lparr>answers := as\<rparr>) = pc_of s" "pc_of (release_waiter s) = pc_of s"
  by (simp_all add: pc_of_def fun_eq_iff release_waiter_def)

lemma timed_release_simps [simp]:
  "ready (release_waiter s) = ready s" "closure (release_waiter s) = closure s" "notified (release_waiter s) = notified s"
  "mon (release_waiter s) = mon s" "owns (release_waiter s) = owns s" "now (release_waiter s) = now s"
  "dangling (release_waiter s) = dangling s" "answers (release_waiter s) = answers s" "pcs (release_waiter s) = pcs s"
  "freed (release_waiter s) \<longleftrightarrow> freed s \<or> \<not> list_ex id (owns s) \<and> closure s = Gone"
  by (simp_all add: release_waiter_def)

lemma timed_pc_eq: "t < length (pcs s) \<Longrightarrow> pcs s ! t = pc_of s t"
  by (simp add: pc_of_def)

text \<open>What a step does, by label and position.\<close>

lemma timed_cases:
  assumes "timed_step t l s = Some s'"
  obtains (construct) "pc_of s t = Idle" "closure s = No_closure" "s' = timed_waiter_ctor t s"
    | (made) "pc_of s t = Idle" "\<not> ready s" "closure s \<noteq> Gone" "s' = make_ready t s"
    | (dropped) "pc_of s t = Idle" "closure s = Pending" "s' = drop_future s"
    | (copied) u where "pc_of s t = Idle" "u < length (pcs s)" "owns s ! u" "s' = s\<lparr>owns := (owns s)[t := True]\<rparr>"
    | (destroyed) "pc_of s t = Idle" "owns s ! t" "s' = release_waiter (s\<lparr>owns := (owns s)[t := False]\<rparr>)"
    | (waits) k where "pc_of s t = Idle" "owns s ! t" "s' = goto t (T_lock k) s"
    | (tick) "s' = s\<lparr>now := now s + 1\<rparr>"
    | (wake) m where "wake_up t (mon s) = Some m" "s' = s\<lparr>mon := m\<rparr>"
    | (late) d where "pc_of s t = T_blocked d" "d \<le> now s"
        "s' = goto t (T_relock d) (s\<lparr>mon := (mon s)\<lparr>blocked := blocked (mon s) - {t}\<rparr>\<rparr>)"
    | (notify) "notifying (pc_of s t)" "notify_closure (pc_of s t) t s = Some s'" "\<not> freed s"
    | (wait) "\<not> notifying (pc_of s t)" "timed_wait (pc_of s t) t s = Some s'" "\<not> freed s"
    | (dangles) "freed s" "pc_of s t \<noteq> Idle" "s' = s\<lparr>dangling := True\<rparr>"
proof -
  have t: "t < length (pcs s)" using assms by (simp add: timed_step_def split: if_splits)
  note d = timed_step_def call_def timed_pc_eq
  show thesis
  proof (cases l)
    case Construct
    show thesis by (rule construct) (use assms t Construct in \<open>simp_all add: d split: if_splits\<close>)
  next
    case Make_ready
    show thesis by (rule made) (use assms t Make_ready in \<open>simp_all add: d split: if_splits\<close>)
  next
    case Drop_future
    show thesis by (rule dropped) (use assms t Drop_future in \<open>simp_all add: d split: if_splits\<close>)
  next
    case (Copy_from u)
    show thesis by (rule copied [of u]) (use assms t Copy_from in \<open>simp_all add: d split: if_splits\<close>)
  next
    case Drop
    show thesis by (rule destroyed) (use assms t Drop in \<open>simp_all add: d split: if_splits\<close>)
  next
    case (Wait_for k)
    show thesis by (rule waits [of "For k"]) (use assms t Wait_for in \<open>simp_all add: d wait_for_def split: if_splits\<close>)
  next
    case (Wait_until k)
    show thesis by (rule waits [of "Until k"]) (use assms t Wait_until in \<open>simp_all add: d wait_until_def split: if_splits\<close>)
  next
    case Step
    consider "notifying (pc_of s t)" "\<not> freed s" | "\<not> notifying (pc_of s t)" "\<not> freed s" | "freed s" by blast
    then show thesis
    proof cases
      case 1
      show thesis by (rule notify) (use assms t Step 1 in \<open>simp_all add: d go_on_def split: if_splits\<close>)
    next
      case 2
      show thesis by (rule wait) (use assms t Step 2 in \<open>simp_all add: d go_on_def split: if_splits\<close>)
    next
      case 3
      show thesis by (rule dangles) (use assms t Step 3 in \<open>simp_all add: d go_on_def split: if_splits\<close>)
    qed
  next
    case Time_out
    then obtain k where k: "pc_of s t = T_blocked k"
      using assms t by (simp add: d time_out_def split: pc.splits if_splits)
    show thesis by (rule late [OF k]) (use assms t Time_out k in \<open>simp_all add: d time_out_def split: if_splits\<close>)
  next
    case Wake
    then obtain m where "wake_up t (mon s) = Some m" "s' = s\<lparr>mon := m\<rparr>" using assms t by (auto simp: timed_step_def)
    then show thesis by (rule wake)
  next
    case Tick
    show thesis by (rule tick) (use assms t Tick in \<open>simp add: timed_step_def\<close>)
  qed
qed

lemma timed_length: "timed_step t l s = Some s' \<Longrightarrow> t < length (pcs s)"
  by (simp add: timed_step_def split: if_splits)

lemma timed_agrees:
  assumes "timed_step t l s = Some s'"
  shows "length (pcs s') = length (pcs s) \<and> length (owns s') = length (owns s) \<and> (u \<noteq> t \<longrightarrow> pc_of s' u = pc_of s u)"
  using assms
proof (cases rule: timed_cases)
  case notify
  then show ?thesis using timed_length [OF assms] by (cases "pc_of s t") (auto simp: notify_closure_def)
next
  case wait
  then show ?thesis using timed_length [OF assms] by (cases "pc_of s t") (auto simp: timed_wait_def answer_def split: if_splits)
qed (use timed_length [OF assms] in \<open>auto simp: timed_waiter_ctor_def make_ready_def drop_future_def Let_def\<close>)

lemma timed_lock:
  assumes "timed_step t l s = Some s'"
  shows "inside (pc_of s' t) \<and> inside (pc_of s t) \<and> holder (mon s') = holder (mon s) \<or>
    inside (pc_of s' t) \<and> \<not> inside (pc_of s t) \<and> holder (mon s) = None \<and> holder (mon s') = Some t \<or>
    \<not> inside (pc_of s' t) \<and> holder (mon s') = (if inside (pc_of s t) then None else holder (mon s))"
  using assms
proof (cases rule: timed_cases)
  case notify
  then show ?thesis using timed_length [OF assms] by (cases "pc_of s t") (auto simp: notify_closure_def acquire_Some)
next
  case wait
  then show ?thesis
    using timed_length [OF assms] by (cases "pc_of s t") (auto simp: timed_wait_def answer_def acquire_Some split: if_splits)
next
  case (wake m)
  then show ?thesis using wake_up_SomeD(2) [OF wake(1)] by auto
qed (use timed_length [OF assms] in \<open>auto simp: timed_waiter_ctor_def make_ready_def drop_future_def Let_def\<close>)

interpretation timed_mutex: monitor_discipline "\<lambda>s. \<exists>n. s = twaiter_init n" tstep "\<lambda>_. True" mon "\<lambda>s t. inside (pc_of s t)" fst
proof unfold_locales
  fix s l s' and u :: nat
  assume st: "tstep s l s'"
  note t = st [unfolded tstep_def]
  show "u \<noteq> fst l \<Longrightarrow> inside (pc_of s' u) = inside (pc_of s u)" using timed_agrees [OF t] by simp
  show "inside (pc_of s' (fst l)) \<Longrightarrow> inside (pc_of s (fst l)) \<Longrightarrow> holder (mon s') = holder (mon s)"
    using timed_lock [OF t] by auto
  show "inside (pc_of s' (fst l)) \<Longrightarrow> \<not> inside (pc_of s (fst l)) \<Longrightarrow>
      holder (mon s) = None \<and> holder (mon s') = Some (fst l)"
    using timed_lock [OF t] by auto
  show "\<not> inside (pc_of s' (fst l)) \<Longrightarrow>
      holder (mon s') = (if inside (pc_of s (fst l)) then None else holder (mon s))"
    using timed_lock [OF t] by auto
qed (auto simp: twaiter_init_def pc_of_def)

section \<open>Invariant\<close>

fun waiting :: "pc \<Rightarrow> bool" where
  "waiting (T_lock _) = True"
| "waiting (T_check _) = True"
| "waiting (T_blocked _) = True"
| "waiting (T_relock _) = True"
| "waiting (T_last _) = True"
| "waiting _ = False"

definition one_notifier :: "twaiter \<Rightarrow> bool" where
  "one_notifier s \<longleftrightarrow> (\<forall>t. notifying (pc_of s t) \<longrightarrow> closure s = Running \<and>
     (\<forall>u. notifying (pc_of s u) \<longrightarrow> u = t)) \<and> (closure s = Running \<longrightarrow> (\<exists>t. notifying (pc_of s t)))"

text \<open>The flag is set after the future is ready, by the notification.\<close>

definition flag_ok :: "twaiter \<Rightarrow> bool" where
  "flag_ok s \<longleftrightarrow> (notified s \<longrightarrow> ready s \<and> (closure s = Running \<or> closure s = Gone)) \<and> (closure s = Running \<longrightarrow> ready s) \<and>
     (\<forall>t. (pc_of s t = N_notify \<or> pc_of s t = N_end \<longrightarrow> notified s) \<and> (pc_of s t = N_lock \<or> pc_of s t = N_set \<longrightarrow> \<not> notified s))"

text \<open>A thread that waits has a \<open>timed_waiter\<close>; a destroyed \<open>waiter\<close> has no owner.\<close>

definition owned_ok :: "twaiter \<Rightarrow> bool" where
  "owned_ok s \<longleftrightarrow> length (owns s) = length (pcs s) \<and> (\<forall>t. waiting (pc_of s t) \<longrightarrow> owns s ! t) \<and>
     (freed s \<longrightarrow> closure s = Gone \<and> (\<forall>t < length (owns s). \<not> owns s ! t)) \<and>
     (closure s = No_closure \<longrightarrow> (\<forall>t < length (owns s). \<not> owns s ! t)) \<and> \<not> dangling s"

text \<open>Blocked threads are in \<open>cv.wait_until\<close>, and will be notified when the flag is set.\<close>

definition blocked_ok :: "twaiter \<Rightarrow> bool" where
  "blocked_ok s \<longleftrightarrow> (\<forall>t \<in> blocked (mon s). (\<exists>d. pc_of s t = T_blocked d) \<and> (notified s \<longrightarrow> (\<exists>u. pc_of s u = N_notify)))"

definition times_ok :: "twaiter \<Rightarrow> bool" where
  "times_ok s \<longleftrightarrow> (\<forall>t d. pc_of s t = T_relock d \<or> pc_of s t = T_last d \<longrightarrow> d \<le> now s) \<and>
     (\<forall>(d, n, r) \<in> set (answers s). n \<le> now s \<and> (if r = Ready then notified s else d \<le> n))"

definition timed_inv :: "twaiter \<Rightarrow> bool" where
  "timed_inv s \<longleftrightarrow> one_notifier s \<and> flag_ok s \<and> owned_ok s \<and> blocked_ok s \<and> times_ok s"

lemma timed_not_freed: "timed_inv s \<Longrightarrow> pc_of s t \<noteq> Idle \<Longrightarrow> \<not> freed s"
proof
  assume i: "timed_inv s" and p: "pc_of s t \<noteq> Idle" and f: "freed s"
  have t: "t < length (pcs s)" using p by (auto simp: pc_of_def split: if_splits)
  show False
  proof (cases "notifying (pc_of s t)")
    case True
    then show ?thesis using i f by (auto simp: timed_inv_def one_notifier_def owned_ok_def)
  next
    case False
    then have "waiting (pc_of s t)" using p by (cases "pc_of s t") auto
    then show ?thesis using i f t by (auto simp: timed_inv_def owned_ok_def)
  qed
qed

lemma list_ex_owns: "list_ex id bs \<longleftrightarrow> (\<exists>i < length bs. bs ! i)"
  by (auto simp: list_ex_length)

lemmas timed_op_defs = timed_waiter_ctor_def make_ready_def drop_future_def notify_closure_def timed_wait_def answer_def Let_def

lemma one_notifier_step:
  assumes i: "one_notifier s" and st: "timed_step t l s = Some s'"
  shows "one_notifier s'"
proof -
  note t = timed_length [OF st]
  have same: "one_notifier s'"
    if "\<And>u. notifying (pc_of s' u) = notifying (pc_of s u)" "closure s' = closure s" using i that by (simp add: one_notifier_def)
  have none: "\<not> notifying (pc_of s u)" if "closure s \<noteq> Running" for u using i that by (auto simp: one_notifier_def)
  show ?thesis
    using st
  proof (cases rule: timed_cases)
    case construct
    then show ?thesis using none t by (auto simp: timed_op_defs one_notifier_def)
  next
    case made
    show ?thesis
    proof (cases "closure s = Pending")
      case True
      then show ?thesis using none t made by (auto simp: timed_op_defs one_notifier_def)
    next
      case False
      then show ?thesis using made by (intro same) (simp_all add: make_ready_def)
    qed
  next
    case dropped
    then show ?thesis using none by (auto simp: timed_op_defs one_notifier_def)
  next
    case notify
    have r: "closure s = Running" using i notify(1) by (auto simp: one_notifier_def)
    have o: "\<not> notifying (pc_of s' u)" if "u \<noteq> t" for u
      using timed_agrees [OF st, of u] i notify(1) that by (auto simp: one_notifier_def)
    have "closure s' = Gone \<and> \<not> notifying (pc_of s' t) \<or> closure s' = Running \<and> notifying (pc_of s' t)"
      using notify t r by (cases "pc_of s t") (auto simp: timed_op_defs)
    then show ?thesis using o unfolding one_notifier_def by (metis closure_state.distinct(11))
  next
    case wait
    then show ?thesis
      using t by (intro same; cases "pc_of s t") (auto simp: timed_op_defs split: if_splits)
  qed ((rule same; use t in auto)+)
qed

lemma flag_ok_step:
  assumes i: "one_notifier s" "flag_ok s" and st: "timed_step t l s = Some s'"
  shows "flag_ok s'"
proof -
  note t = timed_length [OF st]
  have none: "\<not> notifying (pc_of s u)" if "closure s \<noteq> Running" for u using i(1) that by (auto simp: one_notifier_def)
  have no: "pc_of s u \<noteq> N_lock" "pc_of s u \<noteq> N_set" "pc_of s u \<noteq> N_notify" "pc_of s u \<noteq> N_end" if "closure s \<noteq> Running" for u
    using none [OF that, of u] by auto
  have one: "u = t" if "notifying (pc_of s t)" "notifying (pc_of s u)" for u using i(1) that by (auto simp: one_notifier_def)
  show ?thesis
    using st
  proof (cases rule: timed_cases)
    case construct
    then show ?thesis using i(2) t no by (auto simp: timed_op_defs flag_ok_def)
  next
    case made
    then show ?thesis using i(2) t no by (auto simp: timed_op_defs flag_ok_def)
  next
    case dropped
    then show ?thesis using i(2) t no by (auto simp: timed_op_defs flag_ok_def)
  next
    case notify
    have ex: "pc_of s u \<noteq> N_lock \<and> pc_of s u \<noteq> N_set \<and> pc_of s u \<noteq> N_notify \<and> pc_of s u \<noteq> N_end" if "u \<noteq> t" for u
      using one [OF notify(1), of u] that by auto
    have r: "closure s = Running" using i(1) notify(1) by (auto simp: one_notifier_def)
    show ?thesis using i(2) t notify ex r by (cases "pc_of s t") (auto simp: timed_op_defs flag_ok_def split: if_splits)
  next
    case wait
    then show ?thesis using i(2) t by (cases "pc_of s t") (auto simp: timed_op_defs flag_ok_def split: if_splits)
  qed (use i(2) t in \<open>auto simp: flag_ok_def\<close>)
qed

lemma owned_ok_step:
  assumes i: "one_notifier s" "owned_ok s" "\<And>u. pc_of s u \<noteq> Idle \<Longrightarrow> \<not> freed s" and st: "timed_step t l s = Some s'"
  shows "owned_ok s'"
proof -
  note t = timed_length [OF st]
  have len: "length (owns s) = length (pcs s)" using i(2) by (simp add: owned_ok_def)
  have own: "owns s ! u" "u < length (owns s)" if "waiting (pc_of s u)" for u
    using i(2) that len by (auto simp: owned_ok_def pc_of_def split: if_splits)
  show ?thesis
    using st
  proof (cases rule: timed_cases)
    case construct
    then show ?thesis using i(2) t len own by (auto simp: timed_op_defs owned_ok_def nth_list_update)
  next
    case made
    then show ?thesis using i(2) t by (auto simp: timed_op_defs owned_ok_def)
  next
    case dropped
    then show ?thesis using i(2) t by (auto simp: timed_op_defs owned_ok_def list_ex_length)
  next
    case (copied u)
    then show ?thesis using i(2) t len own by (auto simp: owned_ok_def nth_list_update)
  next
    case destroyed
    then show ?thesis using i(2) t len own by (auto simp: owned_ok_def nth_list_update list_ex_length)
  next
    case (waits d)
    then show ?thesis using i(2) t by (auto simp: owned_ok_def)
  next
    case (late d)
    then show ?thesis using i(2) t own by (auto simp: owned_ok_def)
  next
    case notify
    then show ?thesis using i(2) t by (cases "pc_of s t") (auto simp: timed_op_defs owned_ok_def list_ex_length split: if_splits)
  next
    case wait
    then show ?thesis using i(2) t own by (cases "pc_of s t") (auto simp: timed_op_defs owned_ok_def split: if_splits)
  qed (use i(2,3) in \<open>auto simp: owned_ok_def\<close>)
qed

lemma blocked_ok_step:
  assumes i: "one_notifier s" "flag_ok s" "blocked_ok s" and st: "timed_step t l s = Some s'"
  shows "blocked_ok s'"
proof -
  note t = timed_length [OF st]
  have nb: "t \<notin> blocked (mon s)" if "\<And>d. pc_of s t \<noteq> T_blocked d" using i(3) that by (auto simp: blocked_ok_def)
  have keep: "blocked_ok s'"
    if "blocked (mon s') \<subseteq> blocked (mon s) - {t}" "notified s' = notified s" "pc_of s t \<noteq> N_notify"
  proof -
    have *: "pc_of s' u = pc_of s u" if "u \<noteq> t" for u using timed_agrees [OF st] that by blast
    show ?thesis unfolding blocked_ok_def
    proof
      fix v assume "v \<in> blocked (mon s')"
      then have v: "v \<in> blocked (mon s)" "v \<noteq> t" using that(1) by auto
      then have "(\<exists>d. pc_of s v = T_blocked d) \<and> (notified s \<longrightarrow> (\<exists>u. pc_of s u = N_notify))"
        using i(3) by (simp add: blocked_ok_def)
      then show "(\<exists>d. pc_of s' v = T_blocked d) \<and> (notified s' \<longrightarrow> (\<exists>u. pc_of s' u = N_notify))"
        using * v(2) that(2,3) by metis
    qed
  qed
  show ?thesis
    using st
  proof (cases rule: timed_cases)
    case construct
    then show ?thesis using nb by (intro keep) (auto simp: timed_op_defs)
  next
    case made
    then show ?thesis using nb by (intro keep) (auto simp: timed_op_defs)
  next
    case dropped
    then show ?thesis using nb by (intro keep) (auto simp: timed_op_defs)
  next
    case (waits d)
    then show ?thesis using nb by (intro keep) auto
  next
    case (wake m)
    then show ?thesis using i(3) wake_up_SomeD [OF wake(1)] by (auto simp: blocked_ok_def)
  next
    case (late d)
    then show ?thesis by (intro keep) auto
  next
    case notify
    show ?thesis
    proof (cases "pc_of s t = N_notify")
      case True
      then show ?thesis using notify by (auto simp: timed_op_defs blocked_ok_def)
    next
      case False
      then show ?thesis
      proof (cases "pc_of s t = N_set")
        case True
        then have s': "s' = goto t N_notify (s\<lparr>notified := True, mon := unlock (mon s)\<rparr>)"
          using notify by (simp add: timed_op_defs)
        have "pc_of s' t = N_notify" using t by (simp add: s')
        moreover have "t \<notin> blocked (mon s)" using nb True by simp
        ultimately show ?thesis using i(3) t unfolding blocked_ok_def s' by auto
      next
        case False
        then show ?thesis using nb notify \<open>pc_of s t \<noteq> N_notify\<close>
          by (intro keep; cases "pc_of s t") (auto simp: timed_op_defs acquire_Some)
      qed
    qed
  next
    case wait
    show ?thesis
    proof (cases "\<exists>d. pc_of s t = T_check d \<and> \<not> notified s")
      case True
      then show ?thesis using i(3) wait t by (auto simp: timed_op_defs blocked_ok_def)
    next
      case False
      then show ?thesis using nb wait
        by (intro keep; cases "pc_of s t") (auto simp: timed_op_defs acquire_Some split: if_splits)
    qed
  qed (use i(3) in \<open>auto simp: blocked_ok_def\<close>)
qed

lemma times_ok_step:
  assumes i: "times_ok s" and st: "timed_step t l s = Some s'"
  shows "times_ok s'"
proof -
  note t = timed_length [OF st]
  have keep: "times_ok s'"
    if "now s \<le> now s'" "notified s \<longrightarrow> notified s'"
      "\<And>d n r. (d, n, r) \<in> set (answers s') \<Longrightarrow> (d, n, r) \<in> set (answers s) \<or> n = now s' \<and> (if r = Ready then notified s' else d \<le> n)"
      "\<And>d. pc_of s' t = T_relock d \<or> pc_of s' t = T_last d \<Longrightarrow> d \<le> now s'"
    unfolding times_ok_def
  proof (intro conjI allI impI ballI, goal_cases)
    case (1 u d)
    show ?case
    proof (cases "u = t")
      case False
      then have "pc_of s' u = pc_of s u" using timed_agrees [OF st] by blast
      then have "d \<le> now s" using i 1 by (auto simp: times_ok_def)
      then show ?thesis using that(1) by simp
    qed (use that(4) 1 in blast)
  next
    case (2 x)
    obtain d n r where x: "x = (d, n, r)" by (cases x)
    then have "(d, n, r) \<in> set (answers s) \<or> n = now s' \<and> (if r = Ready then notified s' else d \<le> n)" using that(3) 2 by blast
    then have "n \<le> now s' \<and> (if r = Ready then notified s' else d \<le> n)"
    proof
      assume "(d, n, r) \<in> set (answers s)"
      then have "n \<le> now s \<and> (if r = Ready then notified s else d \<le> n)" using i by (auto simp: times_ok_def)
      then show ?thesis using that(1,2) by (auto split: if_splits)
    qed (auto split: if_splits)
    then show ?case by (simp add: x)
  qed
  have old: "d \<le> now s" if "pc_of s t = T_relock d \<or> pc_of s t = T_last d" for d
    using i that by (auto simp: times_ok_def)
  show ?thesis
    using st
  proof (cases rule: timed_cases)
    case notify
    then show ?thesis using t by (intro keep; cases "pc_of s t") (auto simp: timed_op_defs)
  next
    case wait
    then show ?thesis
      using t old by (intro keep; cases "pc_of s t") (auto simp: timed_op_defs split: if_splits)
  qed ((rule keep; use t old in \<open>auto simp: timed_op_defs split: if_splits\<close>)+)
qed

lemma timed_inv_step:
  assumes i: "timed_inv s" and st: "timed_step t l s = Some s'"
  shows "timed_inv s'"
proof -
  have "one_notifier s" "flag_ok s" "owned_ok s" "blocked_ok s" "times_ok s" using i by (simp_all add: timed_inv_def)
  note p = this
  show ?thesis unfolding timed_inv_def
    using one_notifier_step [OF p(1) st] flag_ok_step [OF p(1,2) st] owned_ok_step [OF p(1,3) timed_not_freed [OF i] st]
      blocked_ok_step [OF p(1,2,4) st] times_ok_step [OF p(5) st] by simp
qed

interpretation timed_waiters: invariant_system "\<lambda>s. \<exists>n. s = twaiter_init n" tstep timed_inv
proof unfold_locales
  fix s assume "\<exists>n. s = twaiter_init n"
  then obtain n where s: "s = twaiter_init n" ..
  have "pc_of s t = Idle" for t by (simp add: s twaiter_init_def pc_of_def)
  then show "timed_inv s"
    by (simp add: timed_inv_def one_notifier_def flag_ok_def owned_ok_def blocked_ok_def times_ok_def)
      (simp add: s twaiter_init_def)
qed (auto simp: tstep_def intro: timed_inv_step)

lemma timed_reach:
  assumes "run tstep (twaiter_init n) ls s"
  shows "timed_inv s" "timed_mutex.exclusive s"
  using assms timed_waiters.run_inv timed_mutex.run_exclusive by blast+

section \<open>Waiting ends\<close>

text \<open>The steps that a thread still has to do: \<open>n\<close> if the flag is set, \<open>b\<close> if it is blocked.\<close>

fun weight :: "bool \<Rightarrow> bool \<Rightarrow> pc \<Rightarrow> nat" where
  "weight n b Idle = 0"
| "weight n b N_lock = 4"
| "weight n b N_set = 3"
| "weight n b N_notify = 2"
| "weight n b N_end = 1"
| "weight n b (T_lock _) = (if n then 2 else 5)"
| "weight n b (T_check _) = (if n then 1 else 4)"
| "weight n b (T_blocked _) = (if n \<or> b then 3 else 5)"
| "weight n b (T_relock _) = 2"
| "weight n b (T_last _) = 1"

definition thread_work :: "twaiter \<Rightarrow> nat \<Rightarrow> nat" where
  "thread_work s t = weight (notified s) (t \<in> blocked (mon s)) (pc_of s t)"

definition timed_work :: "twaiter \<Rightarrow> nat" where
  "timed_work s = (\<Sum>t < length (pcs s). thread_work s t)"

text \<open>A step of a call that was made: no new call, no spurious wakeup.\<close>

definition timed_own_step :: "twaiter \<Rightarrow> nat \<times> label \<Rightarrow> twaiter \<Rightarrow> bool" where
  "timed_own_step s l s' \<longleftrightarrow> tstep s l s' \<and> (snd l = Step \<or> snd l = Time_out)"

lemma own_step_cases:
  assumes "timed_inv s" "timed_own_step s l s'"
  obtains (late) d where "pc_of s (fst l) = T_blocked d" "d \<le> now s"
      "s' = goto (fst l) (T_relock d) (s\<lparr>mon := (mon s)\<lparr>blocked := blocked (mon s) - {fst l}\<rparr>\<rparr>)"
    | (notify) "notifying (pc_of s (fst l))" "notify_closure (pc_of s (fst l)) (fst l) s = Some s'"
    | (wait) "\<not> notifying (pc_of s (fst l))" "timed_wait (pc_of s (fst l)) (fst l) s = Some s'"
proof -
  have st: "timed_step (fst l) (snd l) s = Some s'" "snd l = Step \<or> snd l = Time_out" using assms(2) by (auto simp: timed_own_step_def tstep_def)
  have t: "fst l < length (pcs s)" using timed_length [OF st(1)] .
  show thesis
  proof (cases "snd l = Time_out")
    case True
    then obtain d where "pc_of s (fst l) = T_blocked d"
      using st(1) t by (simp add: timed_step_def timed_pc_eq time_out_def split: pc.splits if_splits)
    then show thesis using st(1) t True by (intro late [of d]) (simp_all add: timed_step_def timed_pc_eq time_out_def split: if_splits)
  next
    case False
    then have "go_on (fst l) s = Some s'" using st t by (auto simp: timed_step_def)
    then have "pc_of s (fst l) \<noteq> Idle" "go_on (fst l) s = Some s'" using t by (auto simp: go_on_def timed_pc_eq split: if_splits)
    then show thesis using timed_not_freed [OF assms(1)] t notify wait by (auto simp: go_on_def timed_pc_eq split: if_splits)
  qed
qed

lemma weight_le: "weight True b p \<le> weight n b' p" "weight n True p \<le> weight n b p"
  by (cases p; simp)+

lemma own_step_thread:
  assumes i: "timed_inv s" and st: "timed_own_step s l s'"
  shows "length (pcs s') = length (pcs s)" "fst l < length (pcs s)"
    "thread_work s' (fst l) < thread_work s (fst l)" "u \<noteq> fst l \<Longrightarrow> thread_work s' u \<le> thread_work s u"
proof -
  let ?t = "fst l"
  have st': "timed_step ?t (snd l) s = Some s'" using st by (simp add: timed_own_step_def tstep_def)
  show t: "?t < length (pcs s)" using timed_length [OF st'] .
  show "length (pcs s') = length (pcs s)" using timed_agrees [OF st'] by blast
  have nb: "?t \<notin> blocked (mon s)" if "\<And>d. pc_of s ?t \<noteq> T_blocked d"
    using i that by (auto simp: timed_inv_def blocked_ok_def)
  have nn: "notified s" if "pc_of s ?t = N_notify" using i that by (auto simp: timed_inv_def flag_ok_def)
  show "thread_work s' ?t < thread_work s ?t"
    using i st
  proof (cases rule: own_step_cases)
    case notify
    then show ?thesis using t by (cases "pc_of s ?t") (auto simp: thread_work_def timed_op_defs)
  next
    case wait
    then show ?thesis using t nb
      by (cases "pc_of s ?t") (auto simp: thread_work_def timed_op_defs acquire_Some split: if_splits)
  qed (use t in \<open>auto simp: thread_work_def\<close>)
  have "(notified s \<longrightarrow> notified s') \<and> (notified s' \<or> blocked (mon s) \<subseteq> insert ?t (blocked (mon s')))"
    using i st
  proof (cases rule: own_step_cases)
    case notify
    then show ?thesis using nn by (cases "pc_of s ?t") (auto simp: timed_op_defs acquire_Some)
  next
    case wait
    then show ?thesis by (cases "pc_of s ?t") (auto simp: timed_op_defs acquire_Some split: if_splits)
  qed auto
  moreover assume u: "u \<noteq> ?t"
  moreover have "pc_of s' u = pc_of s u" using timed_agrees [OF st'] u by blast
  ultimately show "thread_work s' u \<le> thread_work s u"
    by (cases "pc_of s u") (auto simp: thread_work_def)
qed

lemma own_step_timed_work:
  assumes "timed_inv s" "timed_own_step s l s'"
  shows "timed_work s' < timed_work s"
  unfolding timed_work_def own_step_thread(1) [OF assms]
  by (rule sum_strict_mono_ex1)
    (use own_step_thread(2-4) [OF assms] in \<open>auto, metis le_eq_less_or_eq\<close>)

lemma timed_own_run:
  "run timed_own_step s ls s' \<Longrightarrow> timed_inv s \<Longrightarrow> length ls + timed_work s' \<le> timed_work s \<and> timed_inv s' \<and> run tstep s ls s'"
proof (induction rule: run.induct)
  case (run_snoc s ls u l v)
  then have "timed_inv u" "run tstep s ls u" "tstep u l v" by (auto simp: timed_own_step_def)
  then show ?case
    using run_snoc own_step_timed_work [OF _ run_snoc(2)] timed_inv_step [of u "fst l" "snd l" v] run.run_snoc
    by (fastforce simp: tstep_def)
qed (simp add: run_nil)

text \<open>A thread that is in a call can go on, or another one can, unless it has to wait for the clock.\<close>

lemma timed_some_step:
  assumes i: "timed_inv s" and x: "timed_mutex.exclusive s" and p: "pc_of s t \<noteq> Idle"
    and w: "\<And>d. pc_of s t = T_blocked d \<Longrightarrow> d \<le> now s \<or> notified s"
  shows "\<exists>l s'. timed_own_step s l s'"
proof -
  have go: "\<exists>l s'. timed_own_step s l s'"
    if "notifying (pc_of s v) \<and> notify_closure (pc_of s v) v s \<noteq> None \<or>
      \<not> notifying (pc_of s v) \<and> timed_wait (pc_of s v) v s \<noteq> None" "pc_of s v \<noteq> Idle" for v
  proof -
    have v: "v < length (pcs s)" using that(2) by (auto simp: pc_of_def split: if_splits)
    then have "go_on v s \<noteq> None" using that timed_not_freed [OF i that(2)] by (auto simp: go_on_def timed_pc_eq)
    then have "timed_own_step s (v, Step) (the (go_on v s))" using v by (auto simp: timed_own_step_def tstep_def timed_step_def)
    then show ?thesis by blast
  qed
  show ?thesis
  proof (cases "\<exists>v. inside (pc_of s v)")
    case True
    then obtain v where v: "inside (pc_of s v)" ..
    then show ?thesis by (intro go [of v]; cases "pc_of s v") (auto simp: timed_op_defs)
  next
    case False
    then have h: "holder (mon s) = None" using x by (cases "holder (mon s)") (auto simp: timed_mutex.exclusive_def)
    consider d where "pc_of s t = T_blocked d" "t \<in> blocked (mon s)" "notified s"
      | d where "pc_of s t = T_blocked d" "t \<in> blocked (mon s)" "d \<le> now s"
      | "\<And>d. pc_of s t = T_blocked d \<Longrightarrow> t \<notin> blocked (mon s)"
      using w by blast
    then show ?thesis
    proof cases
      case (1 d)
      then obtain u where u: "pc_of s u = N_notify" using i by (auto simp: timed_inv_def blocked_ok_def)
      then show ?thesis by (intro go [of u]) (simp_all add: timed_op_defs)
    next
      case (2 d)
      have t: "t < length (pcs s)" using p by (auto simp: pc_of_def split: if_splits)
      then have "time_out t s \<noteq> None" using 2 by (simp add: time_out_def timed_pc_eq)
      then have "timed_own_step s (t, Time_out) (the (time_out t s))"
        using t by (auto simp: timed_own_step_def tstep_def timed_step_def)
      then show ?thesis by blast
    next
      case 3
      then show ?thesis using p h False
        by (intro go [of t]; cases "pc_of s t") (auto simp: timed_op_defs acquire_def reacquire_def)
    qed
  qed
qed

section \<open>Properties\<close>

text \<open>
  Examples: thread 1 waits with a copy of thread 0's object, and its time is up; thread 0
  makes the future ready while thread 1 waits, after thread 0 destroyed its object.
\<close>

definition late_labels :: "(nat \<times> label) list" where
  "late_labels = [(0, Construct), (1, Copy_from 0), (1, Wait_for 1), (1, Step), (1, Step), (0, Tick),
     (0, Make_ready), (1, Time_out), (1, Step)]"

definition late_waiter :: twaiter where
  "late_waiter = the (timed_steps late_labels (twaiter_init 2))"

lemma late_run: "run tstep (twaiter_init 2) late_labels late_waiter"
  by (rule timed_steps_run) (unfold late_waiter_def, code_simp)

definition notified_labels :: "(nat \<times> label) list" where
  "notified_labels = [(0, Construct), (1, Copy_from 0), (1, Wait_for 1), (1, Step), (1, Step), (0, Drop),
     (0, Make_ready), (0, Step), (0, Step)]"

definition notified_waiter :: twaiter where
  "notified_waiter = the (timed_steps notified_labels (twaiter_init 2))"

lemma notified_run: "run tstep (twaiter_init 2) notified_labels notified_waiter"
  by (rule timed_steps_run) (unfold notified_waiter_def, code_simp)

text \<open>
  C34. What an answer means: when a call of \<open>wait_for\<close> or \<open>wait_until\<close> returns, it answers
  \<open>ready\<close> exactly if the notification has set the flag, and then the future is ready; it
  answers \<open>timeout\<close> only if the deadline has passed.
\<close>

theorem timed_wait_answers:
  assumes "run tstep (twaiter_init n) ls s" "tstep s (t, l) s'" "answers s' = answers s @ [(d, m, r)]"
  shows "m = now s \<and> (if notified s then r = Ready \<and> ready s else r = Timeout \<and> d \<le> m)"
proof -
  have i: "timed_inv s" by (rule timed_reach(1) [OF assms(1)])
  have st: "timed_step t l s = Some s'" using assms(2) by (simp add: tstep_def)
  have f: "notified s \<Longrightarrow> ready s" using i by (simp add: timed_inv_def flag_ok_def)
  have late: "d' \<le> now s" if "pc_of s t = T_last d'" for d' using i that by (auto simp: timed_inv_def times_ok_def)
  from st show ?thesis
  proof (cases rule: timed_cases)
    case wait
    then show ?thesis using assms(3) f late
      by (cases "pc_of s t") (auto simp: timed_op_defs split: if_splits)
  next
    case notify
    then show ?thesis using assms(3) by (cases "pc_of s t") (auto simp: timed_op_defs)
  qed (use assms(3) in \<open>auto simp: timed_op_defs split: if_splits\<close>)
qed

theorem timed_wait_answers_witness:
  "notified late_waiter = False \<and> now late_waiter = 1 \<and>
    answers (the (timed_step 1 Step late_waiter)) = answers late_waiter @ [(1, 1, Timeout)]"
proof -
  have st: "tstep late_waiter (1, Step) (the (timed_step 1 Step late_waiter))"
    unfolding tstep_def fst_conv snd_conv late_waiter_def by code_simp
  have a: "answers (the (timed_step 1 Step late_waiter)) = answers late_waiter @ [(1, 1, Timeout)]"
    unfolding late_waiter_def by code_simp
  show ?thesis using timed_wait_answers [OF late_run st a] a by (auto split: if_splits)
qed

text \<open>
  C33. Waits end: the calls that are in progress can make only so many steps, and when none of
  them can go on, every call has returned, except for waits whose deadline is in the future while
  the flag is not set. No notification is lost.
\<close>

theorem timed_waits_end:
  assumes "run tstep (twaiter_init n) ls s" "run timed_own_step s ls' s'"
  shows "length ls' \<le> timed_work s \<and> ((\<nexists>l s''. timed_own_step s' l s'') \<longrightarrow>
    (\<forall>t. pc_of s' t = Idle \<or> (\<exists>d. pc_of s' t = T_blocked d \<and> now s' < d \<and> \<not> notified s')))"
proof -
  have own: "length ls' + timed_work s' \<le> timed_work s \<and> timed_inv s' \<and> run tstep s ls' s'"
    using timed_own_run [OF assms(2) timed_reach(1) [OF assms(1)]] .
  then have x: "timed_mutex.exclusive s'" using timed_reach(2) run_trans [OF _ assms(1)] by blast
  have "pc_of s' t = Idle \<or> (\<exists>d. pc_of s' t = T_blocked d \<and> now s' < d \<and> \<not> notified s')"
    if "\<nexists>l s''. timed_own_step s' l s''" for t
    using timed_some_step [OF _ x, of t] own that by (metis not_less)
  then show ?thesis using own by auto
qed

theorem timed_waits_end_witness:
  "length [(0 :: nat, Step)] \<le> timed_work notified_waiter \<and> pc_of notified_waiter 1 = T_blocked 1"
proof
  have "run timed_own_step notified_waiter [(0, Step)] (the (timed_step 0 Step notified_waiter))"
    by (rule run_single, unfold timed_own_step_def tstep_def fst_conv snd_conv notified_waiter_def, rule conjI, code_simp, simp)
  from timed_waits_end [OF notified_run this] show "length [(0 :: nat, Step)] \<le> timed_work notified_waiter" by blast
  show "pc_of notified_waiter 1 = T_blocked 1" unfolding notified_waiter_def by code_simp
qed

text \<open>
  C35. Lifetimes: whoever destroys a \<open>timed_waiter\<close> or the future whenever they like, the shared
  \<open>waiter\<close> is not accessed after its end, neither by a wait nor by the notification; at its
  end nobody has a \<open>timed_waiter\<close> and no call is in progress.
\<close>

theorem timed_waiter_lifetime:
  assumes "run tstep (twaiter_init n) ls s"
  shows "\<not> dangling s \<and> (freed s \<longrightarrow> closure s = Gone \<and> (\<forall>t. pc_of s t = Idle) \<and> \<not> list_ex id (owns s))"
  using timed_reach(1) [OF assms] timed_not_freed [of s] by (auto simp: timed_inv_def owned_ok_def list_ex_length)

theorem timed_waiter_lifetime_witness:
  "dangling notified_waiter = False \<and> owns notified_waiter ! 0 = False \<and> pc_of notified_waiter 0 = N_notify"
proof -
  have "owns notified_waiter ! 0 = False" "pc_of notified_waiter 0 = N_notify"
    unfolding notified_waiter_def by code_simp+
  then show ?thesis using timed_waiter_lifetime [OF notified_run] by simp
qed

end
