(* ===== verification/Timed_Futures.thy ===== *)
theory Timed_Futures
  imports Timed_Waiter
begin

text \<open>
  The deprecated timed waits of \<open>future\<close> and \<open>shared_future\<close> (\<open>bits/future.hpp\<close>,
  \<open>bits/shared_future.hpp\<close>): each makes a \<open>timed_waiter\<close> of its own, waits with it, and
  destroys it.

  The theory proves that such a call gives one answer, which means what it says, and
  that it leaves nothing behind but the notification in the future: when that is gone the
  \<open>waiter\<close> is destroyed.
\<close>

section \<open>The calls\<close>

text \<open>What the thread does, in the vocabulary of \<open>timed_waiter\<close>, or the exception; \<open>valid\<close> says that the future has a state.\<close>

definition future_wait_for :: "bool \<Rightarrow> nat \<Rightarrow> exn + label list" where
  "future_wait_for valid rel_time = (if \<not> valid then Inl (Future_error No_state)
     else Inr [Construct, Wait_for rel_time, Drop])"

definition future_wait_until :: "bool \<Rightarrow> nat \<Rightarrow> exn + label list" where
  "future_wait_until valid abs_time = (if \<not> valid then Inl (Future_error No_state)
     else Inr [Construct, Wait_until abs_time, Drop])"

definition shared_wait_for :: "bool \<Rightarrow> nat \<Rightarrow> exn + label list" where
  "shared_wait_for valid rel_time = (if \<not> valid then Inl (Future_error No_state)
     else Inr [Construct, Wait_for rel_time, Drop])"

definition shared_wait_until :: "bool \<Rightarrow> nat \<Rightarrow> exn + label list" where
  "shared_wait_until valid abs_time = (if \<not> valid then Inl (Future_error No_state)
     else Inr [Construct, Wait_until abs_time, Drop])"

text \<open>The calls of a thread on \<open>timed_waiter\<close> objects, in an execution.\<close>

fun is_wait :: "label \<Rightarrow> bool" where
  "is_wait (Wait_for _) = True"
| "is_wait (Wait_until _) = True"
| "is_wait _ = False"

fun is_call :: "label \<Rightarrow> bool" where
  "is_call Construct = True"
| "is_call (Copy_from _) = True"
| "is_call Drop = True"
| "is_call l = is_wait l"

definition thread_calls :: "nat \<Rightarrow> (nat \<times> label) list \<Rightarrow> label list" where
  "thread_calls t ls = map snd (filter (\<lambda>l. fst l = t \<and> is_call (snd l)) ls)"

lemma thread_calls_simps [simp]:
  "thread_calls t [] = []"
  "thread_calls t (ls @ ls') = thread_calls t ls @ thread_calls t ls'"
  "thread_calls t [l] = (if fst l = t \<and> is_call (snd l) then [snd l] else [])"
  by (simp_all add: thread_calls_def)

section \<open>Answers and owners\<close>

text \<open>A thread begins to wait by a call, and each wait gives one answer.\<close>

lemma wait_call:
  assumes "timed_step t l s = Some s'"
  shows "is_wait l \<longleftrightarrow> pc_of s t = Idle \<and> waiting (pc_of s' t)"
  using assms timed_length [OF assms]
  by (cases l) (auto simp: timed_step_def call_def timed_pc_eq wait_for_def wait_until_def timed_waiter_ctor_def make_ready_def
      drop_future_def Let_def go_on_def time_out_def split: if_splits pc.splits)

definition waits :: "twaiter \<Rightarrow> nat" where
  "waits s = length (filter waiting (pcs s))"

lemma waits_goto:
  "t < length (pcs s) \<Longrightarrow>
    waits (goto t p s) + (if waiting (pc_of s t) then 1 else 0) = waits s + (if waiting p then 1 else 0)"
  using count_update [of t "pcs s" waiting p] by (simp add: waits_def goto_def timed_pc_eq)

lemma waits_update [simp]:
  "waits (s\<lparr>ready := b\<rparr>) = waits s" "waits (s\<lparr>closure := k\<rparr>) = waits s" "waits (s\<lparr>owns := os\<rparr>) = waits s"
  "waits (s\<lparr>mon := m\<rparr>) = waits s" "waits (s\<lparr>now := i\<rparr>) = waits s" "waits (s\<lparr>dangling := b\<rparr>) = waits s"
  "waits (release_waiter s) = waits s"
  by (simp_all add: waits_def)

lemma answers_step:
  assumes "timed_step t l s = Some s'"
  shows "length (answers s') + waits s' = length (answers s) + waits s + (if is_wait l then 1 else 0)"
proof -
  note t = timed_length [OF assms] and w = wait_call [OF assms]
  have g: "waits (goto t p u) + (if waiting (pc_of s t) then 1 else 0) = waits s + (if waiting p then 1 else 0)"
    if "pcs u = pcs s" for p u
    using that waits_goto [of t u p] t by (simp add: pc_of_def waits_def)
  have stay: "waits (goto t p u) = waits s" if "waiting p" "waiting (pc_of s t)" "pcs u = pcs s" for p u
    using g [of u p] that by simp
  have leave: "Suc (waits (goto t Idle u)) = waits s" if "waiting (pc_of s t)" "pcs u = pcs s" for u
    using g [of u Idle] that by simp
  from assms show ?thesis
  proof (cases rule: timed_cases)
    case construct
    then show ?thesis using g [of "s\<lparr>owns := (owns s)[t := True], closure := Running\<rparr>" N_lock] w t
      by (auto simp: timed_waiter_ctor_def Let_def)
  next
    case made
    then show ?thesis using g [of "s\<lparr>ready := True, closure := Running\<rparr>" N_lock] w t
      by (auto simp: make_ready_def)
  next
    case (waits k)
    then show ?thesis using g [of s "T_lock k"] w t by simp
  next
    case (late d)
    then show ?thesis using g [of "s\<lparr>mon := (mon s)\<lparr>blocked := blocked (mon s) - {t}\<rparr>\<rparr>" "T_relock d"] w t by simp
  next
    case notify
    then obtain p u where "s' = goto t p u" "pcs u = pcs s" "\<not> waiting p" "answers u = answers s"
      by (cases "pc_of s t") (auto simp: notify_closure_def intro: that [of N_notify "s\<lparr>notified := True, mon := unlock (mon s)\<rparr>"]
        that [of N_end "s\<lparr>mon := notify_all (mon s)\<rparr>"])
    then show ?thesis using g [of u p] w t notify by (cases "pc_of s t") simp_all
  next
    case wait
    then show ?thesis using w t
      by (cases "pc_of s t") (auto simp: timed_wait_def answer_def stay leave)
  qed (use w t in \<open>auto simp: drop_future_def\<close>)
qed

lemma answers_count:
  assumes "run tstep (twaiter_init n) ls s"
  shows "length (answers s) + waits s = length (filter (\<lambda>l. is_wait (snd l)) ls)"
  using assms
proof (induction "twaiter_init n" ls s rule: run.induct)
  case run_nil
  have "filter waiting (replicate n Idle) = []" by (induction n) simp_all
  then show ?case by (simp add: twaiter_init_def waits_def)
next
  case (run_snoc ls s l s')
  then show ?case using answers_step [of "fst l" "snd l" s s'] by (simp add: tstep_def)
qed

text \<open>Who has a \<open>timed_waiter\<close>, by the calls.\<close>

lemma owns_step:
  assumes "timed_step t l s = Some s'" "length (owns s) = length (pcs s)" "u < length (pcs s)"
  shows "owns s' ! u \<longleftrightarrow> (if u = t \<and> is_call l then l \<noteq> Drop else owns s ! u)"
  using assms timed_length [OF assms(1)]
  by (cases l) (auto simp: timed_step_def call_def wait_for_def wait_until_def timed_waiter_ctor_def make_ready_def
      drop_future_def Let_def go_on_def time_out_def notify_closure_def timed_wait_def answer_def nth_list_update
      split: if_splits pc.splits)

lemma owns_calls:
  assumes "run tstep (twaiter_init n) ls s"
  shows "length (owns s) = n \<and> length (pcs s) = n \<and>
    (\<forall>u < n. owns s ! u \<longleftrightarrow> thread_calls u ls \<noteq> [] \<and> last (thread_calls u ls) \<noteq> Drop)"
  using assms
proof (induction "twaiter_init n" ls s rule: run.induct)
  case (run_snoc ls s l s')
  then have "timed_step (fst l) (snd l) s = Some s'" by (simp add: tstep_def)
  then show ?case using run_snoc(2) owns_step [of "fst l" "snd l" s s'] timed_agrees [of "fst l" "snd l" s s'] by auto
qed (simp add: twaiter_init_def)

text \<open>The \<open>waiter\<close> is destroyed as soon as nobody owns it.\<close>

definition no_leak :: "twaiter \<Rightarrow> bool" where
  "no_leak s \<longleftrightarrow> (closure s = Gone \<and> \<not> list_ex id (owns s) \<longrightarrow> freed s)"

lemma no_leak_step:
  assumes "timed_step t l s = Some s'" "length (owns s) = length (pcs s)" "no_leak s"
  shows "no_leak s'"
  using assms(1)
proof (cases rule: timed_cases)
  case construct
  then show ?thesis by (simp add: no_leak_def timed_waiter_ctor_def Let_def)
next
  case (copied u)
  then show ?thesis using assms(2) timed_length [OF assms(1)] set_update_memI [of t "owns s" True]
    by (auto simp: no_leak_def list_ex_iff)
next
  case notify
  then show ?thesis using assms(3) by (cases "pc_of s t") (auto simp: no_leak_def notify_closure_def)
next
  case wait
  then show ?thesis using assms(3)
    by (cases "pc_of s t") (auto simp: no_leak_def timed_wait_def answer_def split: if_splits)
qed (use assms(3) in \<open>auto simp: no_leak_def make_ready_def drop_future_def\<close>)

lemma run_no_leak:
  assumes "run tstep (twaiter_init n) ls s"
  shows "no_leak s"
  using assms
proof (induction "twaiter_init n" ls s rule: run.induct)
  case (run_snoc ls s l s')
  then show ?case using no_leak_step [of "fst l" "snd l" s s'] owns_calls [of n ls s] by (simp add: tstep_def)
qed (simp add: twaiter_init_def no_leak_def)

section \<open>A timed wait of a future\<close>

text \<open>
  In an execution in which one thread makes the calls of a timed wait, to the end, and no other
  thread has the \<open>timed_waiter\<close>: there is one answer; if it is \<open>ready\<close>, the future is ready, else
  the deadline has passed; and the \<open>waiter\<close> lives exactly as long as the notification.
\<close>

lemma timed_call_returns:
  assumes r: "run tstep (twaiter_init n) ls s" and t: "thread_calls t ls = [Construct, w, Drop]" "is_wait w"
    and o: "\<And>u. u \<noteq> t \<Longrightarrow> thread_calls u ls = []"
  shows "(\<exists>d m a. answers s = [(d, m, a)] \<and> m \<le> now s \<and> (if a = Ready then ready s else d \<le> m)) \<and>
    (freed s \<longleftrightarrow> closure s = Gone)"
proof -
  have i: "timed_inv s" using timed_reach(1) [OF r] .
  have c: "length (owns s) = n" "length (pcs s) = n" "\<forall>u < n. \<not> owns s ! u"
    using owns_calls [OF r] t o by (metis last.simps list.distinct(1))+
  have one: "length (filter (\<lambda>l. is_wait (snd l)) ls) = 1"
  proof -
    have "is_call l" if "is_wait l" for l using that by (cases l) auto
    then have "filter (\<lambda>l. is_wait (snd l)) ls = filter (\<lambda>l. is_wait (snd l)) (filter (\<lambda>l. fst l = t \<and> is_call (snd l)) ls)"
      using o by (fastforce simp: thread_calls_def filter_empty_conv intro: filter_cong)
    then have "length (filter (\<lambda>l. is_wait (snd l)) ls) = length (filter is_wait (thread_calls t ls))"
      by (simp add: thread_calls_def filter_map comp_def)
    then show ?thesis using t by simp
  qed
  have "\<not> waiting (pc_of s u)" for u
    using i c by (cases "u < n") (auto simp: timed_inv_def owned_ok_def pc_of_def)
  then have "waits s = 0" by (auto simp: waits_def filter_empty_conv in_set_conv_nth timed_pc_eq)
  then have "length (answers s) = 1" using answers_count [OF r] one by simp
  then obtain d m a where a: "answers s = [(d, m, a)]" by (cases "answers s") auto
  have "m \<le> now s \<and> (if a = Ready then ready s else d \<le> m)"
    using i a by (auto simp: timed_inv_def times_ok_def flag_ok_def)
  moreover have "freed s \<longleftrightarrow> closure s = Gone"
    using run_no_leak [OF r] i c by (auto simp: no_leak_def timed_inv_def owned_ok_def list_ex_length)
  ultimately show ?thesis using a by blast
qed

lemma future_waits_return:
  assumes "run tstep (twaiter_init n) ls s" "\<And>u. u \<noteq> t \<Longrightarrow> thread_calls u ls = []"
    "Inr (thread_calls t ls) \<in> {future_wait_for v d, future_wait_until v d, shared_wait_for v d, shared_wait_until v d}"
  shows "(\<exists>k m a. answers s = [(k, m, a)] \<and> m \<le> now s \<and> (if a = Ready then ready s else k \<le> m)) \<and>
    (freed s \<longleftrightarrow> closure s = Gone)"
proof -
  obtain w where "thread_calls t ls = [Construct, w, Drop]" "is_wait w"
    using assms(3)
    by (auto simp: future_wait_for_def future_wait_until_def shared_wait_for_def shared_wait_until_def split: if_splits)
  then show ?thesis using timed_call_returns [OF assms(1)] assms(2) by blast
qed

text \<open>Such an execution: thread 0 waits for one unit of time, and thread 1 makes the future ready afterwards.\<close>

definition call_labels :: "(nat \<times> label) list" where
  "call_labels = [(0, Construct), (0, Wait_for 1), (0, Step), (0, Step), (1, Tick), (0, Time_out), (0, Step), (0, Step), (0, Drop),
     (1, Make_ready), (1, Step), (1, Step), (1, Step), (1, Step)]"

lemma future_waits_return_example:
  "Inr (thread_calls 0 call_labels) = future_wait_for True 1 \<and>
    answers (the (timed_steps call_labels (twaiter_init 2))) = [(1, 1, Timeout)] \<and>
    freed (the (timed_steps call_labels (twaiter_init 2)))"
  by (intro conjI; code_simp)

end
