(* ===== verification/Invoke.thy ===== *)
theory Invoke
  imports Prelude
begin

text \<open>
  \<open>detail::invoke\<close> of \<open>bits/invoke.h\<close>, the closure that \<open>async\<close> makes of a function and its
  arguments (\<open>bits/async.h\<close>), and the computations on types of
  \<open>bits/concurrency_type_traits.h\<close>. What the compiler does with them is modelled by
  functions: an overload that substitution removes has no result.

  The theory proves that no two overloads of \<open>invoke\<close> are viable for a call and that
  together they are the operation \<open>INVOKE\<close> of the standard; that \<open>add_future\<close> never nests
  futures; and that the type of an interruptible continuation determines its promise.
\<close>

section \<open>Arguments and callables\<close>

text \<open>
  A value by its decayed type: an instance of a class, with what its \<open>operator*\<close> gives if
  it has one, a pointer to an instance, or a \<open>std::reference_wrapper\<close> of one. Classes are
  numbers; \<open>base b d\<close> stands for \<open>std::is_base_of\<close>.
\<close>

datatype 'o arg =
    Instance nat 'o "(nat \<times> 'o) option"
  | Raw_pointer nat 'o
  | Wrapper nat 'o

datatype 'm callee =
    Member_function nat 'm
  | Member_data nat 'm
  | Callable 'm

text \<open>The expression that is evaluated.\<close>

datatype ('o, 'm) expr =
    Call_member 'o 'm "'o arg list"
  | Get_member 'o 'm
  | Call 'm "'o arg list"

fun is_reference_wrapper :: "'o arg \<Rightarrow> bool" where
  "is_reference_wrapper (Wrapper _ _) = True"
| "is_reference_wrapper _ = False"

fun deref :: "'o arg \<Rightarrow> (nat \<times> 'o) option" where
  "deref (Instance _ _ p) = p"
| "deref (Raw_pointer d x) = Some (d, x)"
| "deref (Wrapper _ _) = None"

fun derived :: "(nat \<Rightarrow> nat \<Rightarrow> bool) \<Rightarrow> nat \<Rightarrow> 'o arg \<Rightarrow> bool" where
  "derived base b (Instance d _ _) = base b d"
| "derived base b _ = False"

section \<open>The overloads\<close>

text \<open>In the order of the source. The member must exist: \<open>x.*m\<close> needs an instance of a derived class.\<close>

definition member_of :: "(nat \<Rightarrow> nat \<Rightarrow> bool) \<Rightarrow> nat \<Rightarrow> (nat \<times> 'o) option \<Rightarrow> 'o option" where
  "member_of base b p = (case p of None \<Rightarrow> None | Some (d, x) \<Rightarrow> if base b d then Some x else None)"

definition invoke_method_ref :: "(nat \<Rightarrow> nat \<Rightarrow> bool) \<Rightarrow> 'm callee \<Rightarrow> 'o arg list \<Rightarrow> ('o, 'm) expr option" where
  "invoke_method_ref base f args = (case (f, args) of
     (Member_function b m, Instance d x p # rest) \<Rightarrow>
       if derived base b (Instance d x p) then Some (Call_member x m rest) else None
   | _ \<Rightarrow> None)"

definition invoke_method_wrapper :: "(nat \<Rightarrow> nat \<Rightarrow> bool) \<Rightarrow> 'm callee \<Rightarrow> 'o arg list \<Rightarrow> ('o, 'm) expr option" where
  "invoke_method_wrapper base f args = (case (f, args) of
     (Member_function b m, Wrapper d x # rest) \<Rightarrow>
       map_option (\<lambda>y. Call_member y m rest) (member_of base b (Some (d, x)))
   | _ \<Rightarrow> None)"

definition invoke_method_ptr :: "(nat \<Rightarrow> nat \<Rightarrow> bool) \<Rightarrow> 'm callee \<Rightarrow> 'o arg list \<Rightarrow> ('o, 'm) expr option" where
  "invoke_method_ptr base f args = (case (f, args) of
     (Member_function b m, a # rest) \<Rightarrow>
       if \<not> is_reference_wrapper a \<and> \<not> derived base b a
       then map_option (\<lambda>y. Call_member y m rest) (member_of base b (deref a)) else None
   | _ \<Rightarrow> None)"

definition invoke_data_ref :: "(nat \<Rightarrow> nat \<Rightarrow> bool) \<Rightarrow> 'm callee \<Rightarrow> 'o arg list \<Rightarrow> ('o, 'm) expr option" where
  "invoke_data_ref base f args = (case (f, args) of
     (Member_data b m, [Instance d x p]) \<Rightarrow>
       if derived base b (Instance d x p) then Some (Get_member x m) else None
   | _ \<Rightarrow> None)"

definition invoke_data_wrapper :: "(nat \<Rightarrow> nat \<Rightarrow> bool) \<Rightarrow> 'm callee \<Rightarrow> 'o arg list \<Rightarrow> ('o, 'm) expr option" where
  "invoke_data_wrapper base f args = (case (f, args) of
     (Member_data b m, [Wrapper d x]) \<Rightarrow> map_option (\<lambda>y. Get_member y m) (member_of base b (Some (d, x)))
   | _ \<Rightarrow> None)"

definition invoke_data_ptr :: "(nat \<Rightarrow> nat \<Rightarrow> bool) \<Rightarrow> 'm callee \<Rightarrow> 'o arg list \<Rightarrow> ('o, 'm) expr option" where
  "invoke_data_ptr base f args = (case (f, args) of
     (Member_data b m, [a]) \<Rightarrow>
       if \<not> is_reference_wrapper a \<and> \<not> derived base b a
       then map_option (\<lambda>y. Get_member y m) (member_of base b (deref a)) else None
   | _ \<Rightarrow> None)"

definition invoke_callable :: "'m callee \<Rightarrow> 'o arg list \<Rightarrow> ('o, 'm) expr option" where
  "invoke_callable f args = (case f of Callable m \<Rightarrow> Some (Call m args) | _ \<Rightarrow> None)"

text \<open>Overload resolution: the call compiles if one overload is viable, or none is better than it.\<close>

definition viable :: "(nat \<Rightarrow> nat \<Rightarrow> bool) \<Rightarrow> 'm callee \<Rightarrow> 'o arg list \<Rightarrow> ('o, 'm) expr list" where
  "viable base f args = List.map_filter (\<lambda>r. r)
     [invoke_method_ref base f args, invoke_method_wrapper base f args, invoke_method_ptr base f args,
      invoke_data_ref base f args, invoke_data_wrapper base f args, invoke_data_ptr base f args,
      invoke_callable f args]"

definition invoke_call :: "(nat \<Rightarrow> nat \<Rightarrow> bool) \<Rightarrow> 'm callee \<Rightarrow> 'o arg list \<Rightarrow> ('o, 'm) expr option" where
  "invoke_call base f args = (case viable base f args of [r] \<Rightarrow> Some r | _ \<Rightarrow> None)"

text \<open>
  \<open>INVOKE\<close> of the standard: for a member of a class, the first argument is, in this order,
  an instance of the class or of one derived from it, a reference wrapper, or something that
  \<open>operator*\<close> makes such an instance.
\<close>

definition target :: "(nat \<Rightarrow> nat \<Rightarrow> bool) \<Rightarrow> nat \<Rightarrow> 'o arg \<Rightarrow> 'o option" where
  "target base b a = (case a of
     Instance d x p \<Rightarrow> if base b d then Some x else member_of base b p
   | Wrapper d x \<Rightarrow> member_of base b (Some (d, x))
   | Raw_pointer d x \<Rightarrow> member_of base b (Some (d, x)))"

fun std_invoke :: "(nat \<Rightarrow> nat \<Rightarrow> bool) \<Rightarrow> 'm callee \<Rightarrow> 'o arg list \<Rightarrow> ('o, 'm) expr option" where
  "std_invoke base (Member_function b m) (a # rest) = map_option (\<lambda>x. Call_member x m rest) (target base b a)"
| "std_invoke base (Member_data b m) [a] = map_option (\<lambda>x. Get_member x m) (target base b a)"
| "std_invoke base (Callable m) args = Some (Call m args)"
| "std_invoke base _ _ = None"

lemmas invoke_overloads = invoke_method_ref_def invoke_method_wrapper_def invoke_method_ptr_def
  invoke_data_ref_def invoke_data_wrapper_def invoke_data_ptr_def invoke_callable_def

lemma viable_eq: "viable base f args = (case std_invoke base f args of None \<Rightarrow> [] | Some r \<Rightarrow> [r])"
proof (cases "(base, f, args)" rule: std_invoke.cases)
  case (1 c b m a rest)
  then show ?thesis
    by (cases a) (auto simp: viable_def invoke_overloads map_filter_simps target_def member_of_def split: option.splits)
next
  case (2 c b m a)
  then show ?thesis
    by (cases a) (auto simp: viable_def invoke_overloads map_filter_simps target_def member_of_def split: option.splits)
qed (auto simp: viable_def invoke_overloads map_filter_simps split: arg.splits)

lemma invoke_unambiguous: "length (viable base f args) \<le> 1"
  by (simp add: viable_eq split: option.splits)

lemma invoke_std: "invoke_call base f args = std_invoke base f args"
  by (simp add: invoke_call_def viable_eq split: option.splits)

section \<open>The closure of async\<close>

text \<open>
  \<open>detail::task\<close>: decayed copies of the function and the arguments. Its call hands them to
  \<open>invoke\<close> as rvalues: \<open>call\<close> is that call, with the values it leaves where it found them
  (moved from or not, as the function likes).
\<close>

record ('f, 'a) closure_task =
  task_func :: 'f
  task_args :: "'a list"

definition make_task :: "'f \<Rightarrow> 'a list \<Rightarrow> ('f, 'a) closure_task" where
  "make_task f xs = \<lparr>task_func = f, task_args = xs\<rparr>"

definition run_closure :: "('f \<Rightarrow> 'a list \<Rightarrow> 'r \<times> 'f \<times> 'a list) \<Rightarrow> ('f, 'a) closure_task \<Rightarrow>
    'r \<times> ('f, 'a) closure_task" where
  "run_closure call t = (case call (task_func t) (task_args t) of (r, f, xs) \<Rightarrow>
     (r, t\<lparr>task_func := f, task_args := xs\<rparr>))"

lemma run_make_task:
  "run_closure call (make_task f xs) = (case call f xs of (r, f', xs') \<Rightarrow> (r, make_task f' xs'))"
  by (simp add: run_closure_def make_task_def split: prod.splits)

section \<open>Computations on types\<close>

text \<open>The types that the traits tell apart; all others are \<open>T_other\<close>.\<close>

datatype ty =
    T_void
  | T_other nat
  | T_future ty
  | T_shared_future ty
  | T_promise ty

text \<open>\<open>is_instantiation_of\<close> for the templates of one parameter.\<close>

datatype template =
    Template_future
  | Template_shared_future
  | Template_promise

fun is_instantiation_of :: "template \<Rightarrow> ty \<Rightarrow> bool" where
  "is_instantiation_of Template_future (T_future _) = True"
| "is_instantiation_of Template_shared_future (T_shared_future _) = True"
| "is_instantiation_of Template_promise (T_promise _) = True"
| "is_instantiation_of _ _ = False"

definition future_type :: "ty \<Rightarrow> bool" where
  "future_type t \<longleftrightarrow> is_instantiation_of Template_future t \<or> is_instantiation_of Template_shared_future t"

fun are_futures :: "ty list \<Rightarrow> bool" where
  "are_futures [] = True"
| "are_futures (t # ts) = (future_type t \<and> are_futures ts)"

fun remove_future :: "ty \<Rightarrow> ty" where
  "remove_future (T_future t) = t"
| "remove_future (T_shared_future t) = t"
| "remove_future t = t"

fun add_future :: "ty \<Rightarrow> ty" where
  "add_future (T_future t) = T_future t"
| "add_future (T_shared_future t) = T_shared_future t"
| "add_future t = T_future t"

text \<open>The result of a continuation is called with a value, or without one for \<open>void\<close>; \<open>res\<close> is \<open>std::invoke_result\<close>.\<close>

definition cnt_result :: "(ty list \<Rightarrow> ty option) \<Rightarrow> ty \<Rightarrow> ty option" where
  "cnt_result res t = (if t = T_void then res [] else res [t])"

definition cnt_future_type :: "(ty list \<Rightarrow> ty option) \<Rightarrow> ty \<Rightarrow> ty option" where
  "cnt_future_type res t = map_option add_future (cnt_result res t)"

text \<open>
  \<open>promise_arg\<close>: what an interruptible continuation promises. The address of an overloaded
  or generic \<open>operator()\<close> cannot be taken, so nothing is deduced for it.
\<close>

datatype signature =
    Signature "ty list" ty

datatype func_type =
    Function_pointer signature
  | Functor "signature option"

fun deduce :: "ty \<Rightarrow> signature \<Rightarrow> ty option" where
  "deduce fut (Signature [T_promise r, p] T_void) = (if p = fut then Some r else None)"
| "deduce fut _ = None"

fun promise_arg :: "func_type \<Rightarrow> ty \<Rightarrow> ty option" where
  "promise_arg (Function_pointer s) fut = deduce fut s"
| "promise_arg (Functor (Some s)) fut = deduce fut s"
| "promise_arg (Functor None) fut = None"

text \<open>Implicit unwrapping: adding a future gives one, once.\<close>

lemma are_futures_all: "are_futures ts \<longleftrightarrow> list_all future_type ts"
  by (induction ts) auto

lemma future_type_iff: "future_type t \<longleftrightarrow> (\<exists>s. t = T_future s \<or> t = T_shared_future s)"
  by (cases t) (auto simp: future_type_def)

lemma add_future_props:
  "future_type (add_future t)" "add_future (add_future t) = add_future t"
  "\<not> future_type t \<Longrightarrow> remove_future (add_future t) = t"
  "remove_future (add_future t) = remove_future t"
  by (cases t; simp add: future_type_def)+

lemma add_future_flat: "\<not> future_type (remove_future t) \<Longrightarrow> \<not> future_type (remove_future (add_future t))"
  by (simp add: add_future_props)

lemma cnt_future_is_future: "cnt_future_type res t = Some s \<Longrightarrow> future_type s"
  by (auto simp: cnt_future_type_def add_future_props)

lemma deduce_iff: "deduce fut s = Some r \<longleftrightarrow> s = Signature [T_promise r, fut] T_void"
  by (cases "(fut, s)" rule: deduce.cases) auto

lemma promise_arg_iff:
  "promise_arg f fut = Some r \<longleftrightarrow>
    f = Function_pointer (Signature [T_promise r, fut] T_void) \<or> f = Functor (Some (Signature [T_promise r, fut] T_void))"
  by (cases "(f, fut)" rule: promise_arg.cases) (auto simp: deduce_iff)

end
