(* ===== verification/Coro_Timer.thy ===== *)
theory Coro_Timer
  imports Monitor "HOL-Library.Multiset"
begin

text \<open>
  \<open>timed_queue\<close> and \<open>timer_executor\<close> of \<open>examples/coroutine\<close>: coroutines that \<open>co_await\<close> a
  duration are put in a queue by time, and one worker thread resumes them. Any number of
  threads, and the resumed coroutines themselves, push; one thread destroys the executor.

  The theory proves that no coroutine is resumed before its time, nor twice, nor before one
  that is due earlier; that \<open>queue_.top()\<close> is never called on an empty queue; that one
  \<open>notify_one\<close> is enough for the worker to see every earlier timer and the end; and that the
  destructor returns after the worker's last access to the queue.
\<close>

section \<open>The queue\<close>

text \<open>\<open>value\<close>: a time with a handle, ordered so that the top of the \<open>priority_queue\<close> is the earliest.\<close>

definition timer_less :: "nat \<times> 'h \<Rightarrow> nat \<times> 'h \<Rightarrow> bool" where
  "timer_less x y \<longleftrightarrow> fst x > fst y"

text \<open>\<open>top()\<close> may be any entry that is not less than another one; on an empty queue it is undefined.\<close>

definition is_top :: "(nat \<times> 'h) list \<Rightarrow> nat \<times> 'h \<Rightarrow> bool" where
  "is_top q x \<longleftrightarrow> list_all (\<lambda>y. \<not> timer_less x y) q"

definition top_time :: "(nat \<times> 'h) list \<Rightarrow> nat option" where
  "top_time q = (if q = [] then None else Some (Min (set (map fst q))))"

definition remove_at :: "nat \<Rightarrow> 'a list \<Rightarrow> 'a list" where
  "remove_at i xs = take i xs @ drop (Suc i) xs"

lemma top_time_None [simp]: "top_time q = None \<longleftrightarrow> q = []"
  by (simp add: top_time_def)

lemma top_time_Some: "top_time q = Some m \<longleftrightarrow> (\<exists>x \<in> set q. fst x = m) \<and> (\<forall>x \<in> set q. m \<le> fst x)"
  by (cases "q = []") (auto simp: top_time_def Min_eq_iff)

lemma is_top_time: "x \<in> set q \<Longrightarrow> is_top q x \<Longrightarrow> top_time q = Some (fst x)"
  by (auto simp: top_time_Some is_top_def timer_less_def list_all_iff not_less)

lemma top_exists: "q \<noteq> [] \<Longrightarrow> \<exists>i < length q. is_top q (q ! i)"
proof -
  assume "q \<noteq> []"
  then obtain m where m: "top_time q = Some m" by (cases "top_time q") auto
  then obtain i where "i < length q" "fst (q ! i) = m" "\<forall>x \<in> set q. m \<le> fst x"
    by (auto simp: top_time_Some in_set_conv_nth)
  then show ?thesis by (intro exI [of _ i]) (simp add: is_top_def timer_less_def list_all_iff not_less)
qed

lemma mset_remove_at: "i < length xs \<Longrightarrow> mset xs = add_mset (xs ! i) (mset (remove_at i xs))"
proof -
  assume "i < length xs"
  then have "mset xs = mset (take i xs @ xs ! i # drop (Suc i) xs)" by (simp add: id_take_nth_drop [symmetric])
  then show ?thesis by (simp add: remove_at_def)
qed

section \<open>State\<close>

text \<open>
  Where a thread is. Pushing: after \<open>await_ready\<close> was called, before the mutex, with it, before
  \<open>notify_one\<close>. The destructor: the same, then before \<open>join\<close> returns. Thread 0 is the worker:
  before the mutex, before the test of the first wait, blocked, with a nearest time \<open>n\<close> before the
  test of the second wait, in \<open>wait_until\<close>, before the mutex after a time-out, before the
  last test, in a coroutine that it has resumed, or at its end.
\<close>

datatype 'h pc =
    Idle
  | A_ready nat 'h
  | P_lock nat 'h
  | P_insert nat 'h
  | P_notify
  | S_lock
  | S_set
  | S_notify
  | S_join
  | W_lock
  | W_check
  | W_blocked
  | W_test nat
  | W_sleep nat
  | W_relock nat
  | W_last nat
  | W_run
  | W_done

text \<open>
  \<open>pushed\<close> are the timers that were put in, \<open>resumed\<close> the coroutines that were resumed, with
  their time and the time of the clock. \<open>bad_top\<close>: \<open>top()\<close> was called on an empty queue.
\<close>

record 'h timers =
  queue :: "(nat \<times> 'h) list"
  stopped :: bool
  mon :: monitor
  pcs :: "'h pc list"
  now :: nat
  dying :: bool
  destroyed :: bool
  pushed :: "(nat \<times> 'h) list"
  resumed :: "((nat \<times> 'h) \<times> nat) list"
  bad_top :: bool

definition timers_init :: "nat \<Rightarrow> 'h timers" where
  "timers_init n = \<lparr>queue = [], stopped = False, mon = new_monitor, pcs = W_lock # replicate n Idle, now = 0,
     dying = False, destroyed = False, pushed = [], resumed = [], bad_top = False\<rparr>"

definition goto :: "nat \<Rightarrow> 'h pc \<Rightarrow> 'h timers \<Rightarrow> 'h timers" where
  "goto t p s = s\<lparr>pcs := (pcs s)[t := p]\<rparr>"

text \<open>User code: a coroutine that the worker has resumed, or anything in another thread.\<close>

definition home :: "nat \<Rightarrow> 'h pc" where
  "home t = (if t = 0 then W_run else Idle)"

definition enter :: "monitor option \<Rightarrow> nat \<Rightarrow> 'h pc \<Rightarrow> 'h timers \<Rightarrow> 'h timers option" where
  "enter r t p s = map_option (\<lambda>m. goto t p (s\<lparr>mon := m\<rparr>)) r"

section \<open>Waiting for a duration\<close>

definition sleep :: "nat \<Rightarrow> nat \<Rightarrow> nat" where
  "sleep timeout clock_now = clock_now + timeout"

definition timer_ready :: "nat \<Rightarrow> nat \<Rightarrow> bool" where
  "timer_ready time clock_now \<longleftrightarrow> time \<le> clock_now"

text \<open>\<open>co_await\<close> of a duration, by the coroutine \<open>h\<close>, and what follows: go on, or suspend and push.\<close>

definition co_await :: "nat \<Rightarrow> nat \<Rightarrow> 'h \<Rightarrow> 'h timers \<Rightarrow> 'h timers" where
  "co_await t timeout h s = goto t (A_ready (sleep timeout (now s)) h) s"

definition timer_suspend :: "nat \<Rightarrow> nat \<Rightarrow> 'h \<Rightarrow> 'h timers \<Rightarrow> 'h timers" where
  "timer_suspend t time h s = (if timer_ready time (now s) then goto t (home t) s else goto t (P_lock time h) s)"

section \<open>Operations of the queue\<close>

text \<open>\<open>u\<close> is the thread that \<open>notify_one\<close> wakes up.\<close>

definition push_at :: "'h pc \<Rightarrow> nat \<Rightarrow> nat option \<Rightarrow> 'h timers \<Rightarrow> 'h timers option" where
  "push_at p t u s = (case p of
     P_lock time h \<Rightarrow> enter (acquire t (mon s)) t (P_insert time h) s
   | P_insert time h \<Rightarrow> Some (goto t P_notify
       (s\<lparr>queue := (time, h) # queue s, pushed := (time, h) # pushed s, mon := unlock (mon s)\<rparr>))
   | P_notify \<Rightarrow> enter (notify_one u (mon s)) t (home t) s
   | _ \<Rightarrow> None)"

definition stop_queue :: "'h pc \<Rightarrow> nat \<Rightarrow> nat option \<Rightarrow> 'h timers \<Rightarrow> 'h timers option" where
  "stop_queue p t u s = (case p of
     S_lock \<Rightarrow> enter (acquire t (mon s)) t S_set s
   | S_set \<Rightarrow> Some (goto t S_notify (s\<lparr>stopped := True, mon := unlock (mon s)\<rparr>))
   | S_notify \<Rightarrow> enter (notify_one u (mon s)) t S_join s
   | _ \<Rightarrow> None)"

text \<open>
  \<open>resume_next\<close>. \<open>look\<close>: the condition of a wait holds, so the worker ends or waits for the nearest
  time. \<open>changed\<close>: the condition of the second wait, if it has a value. \<open>i\<close> is the
  position of \<open>top()\<close>.
\<close>

definition look :: "'h timers \<Rightarrow> 'h timers" where
  "look s = (if stopped s then goto 0 W_done (s\<lparr>mon := unlock (mon s)\<rparr>) else
     case top_time (queue s) of None \<Rightarrow> s\<lparr>bad_top := True\<rparr> | Some n \<Rightarrow> goto 0 (W_test n) s)"

definition changed :: "nat \<Rightarrow> 'h timers \<Rightarrow> bool option" where
  "changed nearest s = (if stopped s then Some True else map_option (\<lambda>n. n \<noteq> nearest) (top_time (queue s)))"

definition resume_top :: "nat \<Rightarrow> 'h timers \<Rightarrow> 'h timers option" where
  "resume_top i s = (if i < length (queue s) \<and> is_top (queue s) (queue s ! i)
     then Some (goto 0 W_run (s\<lparr>queue := remove_at i (queue s), resumed := resumed s @ [(queue s ! i, now s)],
       mon := unlock (mon s)\<rparr>))
     else None)"

definition resume_next :: "'h pc \<Rightarrow> nat \<Rightarrow> 'h timers \<Rightarrow> 'h timers option" where
  "resume_next p i s = (case p of
     W_lock \<Rightarrow> enter (acquire 0 (mon s)) 0 W_check s
   | W_check \<Rightarrow> Some (if stopped s \<or> queue s \<noteq> [] then look s else goto 0 W_blocked (s\<lparr>mon := block_on 0 (mon s)\<rparr>))
   | W_blocked \<Rightarrow> enter (reacquire 0 (mon s)) 0 W_check s
   | W_test n \<Rightarrow> Some (case changed n s of
       None \<Rightarrow> s\<lparr>bad_top := True\<rparr>
     | Some b \<Rightarrow> if b then look s else goto 0 (W_sleep n) (s\<lparr>mon := block_on 0 (mon s)\<rparr>))
   | W_sleep n \<Rightarrow> enter (reacquire 0 (mon s)) 0 (W_test n) s
   | W_relock n \<Rightarrow> enter (acquire 0 (mon s)) 0 (W_last n) s
   | W_last n \<Rightarrow> (case changed n s of
       None \<Rightarrow> Some (s\<lparr>bad_top := True\<rparr>)
     | Some b \<Rightarrow> if b then Some (look s) else resume_top i s)
   | _ \<Rightarrow> None)"

definition near_time_out :: "'h timers \<Rightarrow> 'h timers option" where
  "near_time_out s = (case pcs s ! 0 of
     W_sleep n \<Rightarrow>
       if n \<le> now s then Some (goto 0 (W_relock n) (s\<lparr>mon := (mon s)\<lparr>blocked := blocked (mon s) - {0}\<rparr>\<rparr>)) else None
   | _ \<Rightarrow> None)"

text \<open>The loop of \<open>schedule_timers\<close>: when the coroutine returns to the worker, the next one.\<close>

definition schedule_timers :: "'h timers \<Rightarrow> 'h timers" where
  "schedule_timers s = goto 0 W_lock s"

text \<open>The destructor: \<open>stop\<close>, then \<open>join\<close>, which returns when the worker is at its end.\<close>

definition dtor_begin :: "nat \<Rightarrow> 'h timers \<Rightarrow> 'h timers" where
  "dtor_begin t s = goto t S_lock (s\<lparr>dying := True\<rparr>)"

definition dtor_join :: "nat \<Rightarrow> 'h timers \<Rightarrow> 'h timers option" where
  "dtor_join t s = (case pcs s ! 0 of W_done \<Rightarrow> Some (goto t Idle (s\<lparr>destroyed := True\<rparr>)) | _ \<Rightarrow> None)"

section \<open>Steps\<close>

datatype 'h label =
    Co_await nat 'h
  | Destroy
  | Step "nat option" nat
  | Time_out
  | Wake
  | Tick

fun pushing :: "'h pc \<Rightarrow> bool" where
  "pushing (P_lock _ _) = True"
| "pushing (P_insert _ _) = True"
| "pushing P_notify = True"
| "pushing _ = False"

fun stopping :: "'h pc \<Rightarrow> bool" where
  "stopping S_lock = True"
| "stopping S_set = True"
| "stopping S_notify = True"
| "stopping _ = False"

text \<open>One thread, once, may destroy the executor, and nobody begins to wait for it afterwards.\<close>

definition user_code :: "nat \<Rightarrow> 'h timers \<Rightarrow> bool" where
  "user_code t s \<longleftrightarrow> (case pcs s ! t of Idle \<Rightarrow> t \<noteq> 0 \<and> \<not> destroyed s | W_run \<Rightarrow> t = 0 | _ \<Rightarrow> False)"

definition go_on :: "nat \<Rightarrow> nat option \<Rightarrow> nat \<Rightarrow> 'h timers \<Rightarrow> 'h timers option" where
  "go_on t u i s = (case pcs s ! t of
     A_ready time h \<Rightarrow> Some (timer_suspend t time h s)
   | S_join \<Rightarrow> dtor_join t s
   | W_run \<Rightarrow> Some (schedule_timers s)
   | p \<Rightarrow> if pushing p then push_at p t u s else if stopping p then stop_queue p t u s else resume_next p i s)"

definition timer_step :: "nat \<Rightarrow> 'h label \<Rightarrow> 'h timers \<Rightarrow> 'h timers option" where
  "timer_step t l s = (if \<not> t < length (pcs s) then None else case l of
     Co_await timeout h \<Rightarrow> if user_code t s then Some (co_await t timeout h s) else None
   | Destroy \<Rightarrow> if user_code t s \<and> t \<noteq> 0 \<and> \<not> dying s then Some (dtor_begin t s) else None
   | Step u i \<Rightarrow> go_on t u i s
   | Time_out \<Rightarrow> if t = 0 then near_time_out s else None
   | Wake \<Rightarrow> map_option (\<lambda>m. s\<lparr>mon := m\<rparr>) (wake_up t (mon s))
   | Tick \<Rightarrow> Some (s\<lparr>now := now s + 1\<rparr>))"

definition cstep :: "'h timers \<Rightarrow> nat \<times> 'h label \<Rightarrow> 'h timers \<Rightarrow> bool" where
  "cstep s l s' \<longleftrightarrow> timer_step (fst l) (snd l) s = Some s'"

fun timer_steps :: "(nat \<times> 'h label) list \<Rightarrow> 'h timers \<Rightarrow> 'h timers option" where
  "timer_steps [] s = Some s"
| "timer_steps (l # ls) s = (case timer_step (fst l) (snd l) s of None \<Rightarrow> None | Some s' \<Rightarrow> timer_steps ls s')"

lemma timer_steps_run: "timer_steps ls s = Some s' \<Longrightarrow> run cstep s ls s'"
  by (induction ls arbitrary: s) (auto simp: cstep_def intro: run_nil run_prepend split: option.splits)

section \<open>Positions\<close>

definition pc_of :: "'h timers \<Rightarrow> nat \<Rightarrow> 'h pc" where
  "pc_of s t = (if t < length (pcs s) then pcs s ! t else Idle)"

lemma coro_pc_of_goto [simp]: "t < length (pcs s) \<Longrightarrow> pc_of (goto t p s) u = (if u = t then p else pc_of s u)"
  by (simp add: pc_of_def goto_def nth_list_update)

lemma coro_goto_simps [simp]:
  "queue (goto t p s) = queue s" "stopped (goto t p s) = stopped s" "mon (goto t p s) = mon s" "now (goto t p s) = now s"
  "dying (goto t p s) = dying s" "destroyed (goto t p s) = destroyed s" "pushed (goto t p s) = pushed s"
  "resumed (goto t p s) = resumed s" "bad_top (goto t p s) = bad_top s" "length (pcs (goto t p s)) = length (pcs s)"
  by (simp_all add: goto_def)

lemma coro_pc_of_update [simp]:
  "pc_of (s\<lparr>queue := q\<rparr>) = pc_of s" "pc_of (s\<lparr>stopped := b\<rparr>) = pc_of s" "pc_of (s\<lparr>mon := m\<rparr>) = pc_of s"
  "pc_of (s\<lparr>now := i\<rparr>) = pc_of s" "pc_of (s\<lparr>dying := b\<rparr>) = pc_of s" "pc_of (s\<lparr>destroyed := b\<rparr>) = pc_of s"
  "pc_of (s\<lparr>pushed := q\<rparr>) = pc_of s" "pc_of (s\<lparr>resumed := r\<rparr>) = pc_of s" "pc_of (s\<lparr>bad_top := b\<rparr>) = pc_of s"
  by (simp_all add: pc_of_def fun_eq_iff)

lemma coro_pc_eq: "t < length (pcs s) \<Longrightarrow> pcs s ! t = pc_of s t"
  by (simp add: pc_of_def)

fun inside :: "'h pc \<Rightarrow> bool" where
  "inside (P_insert _ _) = True"
| "inside S_set = True"
| "inside W_check = True"
| "inside (W_test _) = True"
| "inside (W_last _) = True"
| "inside _ = False"

fun worker :: "'h pc \<Rightarrow> bool" where
  "worker W_lock = True"
| "worker W_check = True"
| "worker W_blocked = True"
| "worker (W_test _) = True"
| "worker (W_sleep _) = True"
| "worker (W_relock _) = True"
| "worker (W_last _) = True"
| "worker W_run = True"
| "worker W_done = True"
| "worker _ = False"

text \<open>The worker is thread 0, and nobody else runs its code.\<close>

definition worker_ok :: "'h timers \<Rightarrow> bool" where
  "worker_ok s \<longleftrightarrow> pcs s \<noteq> [] \<and> (\<forall>t. worker (pc_of s t) \<longrightarrow> t = 0) \<and>
     (worker (pc_of s 0) \<or> pushing (pc_of s 0) \<or> (\<exists>time h. pc_of s 0 = A_ready time h))"

lemma worker_home [simp]: "worker (home t) \<longleftrightarrow> t = 0" "\<not> pushing (home t)" "\<not> stopping (home t)" "\<not> inside (home t)"
  by (simp_all add: home_def)

lemmas coro_op_defs = enter_def push_at_def stop_queue_def resume_next_def look_def changed_def resume_top_def
  dtor_begin_def dtor_join_def co_await_def timer_suspend_def schedule_timers_def

lemma coro_length: "timer_step t l s = Some s' \<Longrightarrow> t < length (pcs s)"
  by (simp add: timer_step_def split: if_splits)

text \<open>What a step does, by position.\<close>

lemma coro_cases:
  assumes "timer_step t l s = Some s'" "worker_ok s"
  obtains (await) time h where "pc_of s t = home t" "s' = goto t (A_ready time h) s"
    | (destroy) "t \<noteq> 0" "pc_of s t = Idle" "\<not> destroyed s" "s' = goto t S_lock (s\<lparr>dying := True\<rparr>)"
    | (ready) time h where "pc_of s t = A_ready time h" "s' = timer_suspend t time h s"
    | (joined) "t \<noteq> 0" "pc_of s t = S_join" "pc_of s 0 = W_done" "s' = goto t Idle (s\<lparr>destroyed := True\<rparr>)"
    | (looped) "t = 0" "pc_of s 0 = W_run" "s' = goto 0 W_lock s"
    | (push) u where "pushing (pc_of s t)" "push_at (pc_of s t) t u s = Some s'"
    | (stop) u where "t \<noteq> 0" "stopping (pc_of s t)" "stop_queue (pc_of s t) t u s = Some s'"
    | (work) i where "t = 0" "worker (pc_of s 0)" "resume_next (pc_of s 0) i s = Some s'"
    | (late) n where "t = 0" "pc_of s 0 = W_sleep n" "n \<le> now s"
        "s' = goto 0 (W_relock n) (s\<lparr>mon := (mon s)\<lparr>blocked := blocked (mon s) - {0}\<rparr>\<rparr>)"
    | (wake) m where "wake_up t (mon s) = Some m" "s' = s\<lparr>mon := m\<rparr>"
    | (tick) "s' = s\<lparr>now := now s + 1\<rparr>"
proof -
  have t: "t < length (pcs s)" using coro_length [OF assms(1)] .
  have w: "worker (pc_of s t) \<Longrightarrow> t = 0" "t = 0 \<Longrightarrow> \<not> stopping (pc_of s t)" "t = 0 \<Longrightarrow> pc_of s t \<noteq> S_join"
    using assms(2) by (auto simp: worker_ok_def elim: stopping.elims)
  have z: "0 < length (pcs s)" using assms(2) by (simp add: worker_ok_def)
  note d = timer_step_def coro_pc_eq user_code_def go_on_def
  show thesis
  proof (cases l)
    case (Co_await k h)
    show thesis
      by (rule await [of "sleep k (now s)" h])
        (use assms t Co_await in \<open>auto simp: d co_await_def home_def split: if_splits pc.splits\<close>)
  next
    case Destroy
    show thesis by (rule destroy) (use assms t Destroy in \<open>auto simp: d dtor_begin_def split: if_splits pc.splits\<close>)
  next
    case (Step u i)
    then have g: "go_on t u i s = Some s'" using assms(1) t by (simp add: timer_step_def)
    consider (a) time h where "pc_of s t = A_ready time h" | (b) "pc_of s t = S_join" | (c) "pc_of s t = W_run"
      | (d) "pushing (pc_of s t)" | (e) "stopping (pc_of s t)" | (f) "worker (pc_of s t)" "pc_of s t \<noteq> W_run" | (i) "pc_of s t = Idle"
      by (cases "pc_of s t") auto
    then show thesis
    proof cases
      case (a time h)
      then show thesis using ready g t by (simp add: go_on_def coro_pc_eq)
    next
      case b
      moreover have "t \<noteq> 0" using b w(3) by blast
      ultimately show thesis
        using g t z joined by (simp add: go_on_def coro_pc_eq dtor_join_def split: pc.splits)
    next
      case c
      then show thesis using looped g t w by (simp add: go_on_def coro_pc_eq schedule_timers_def)
    next
      case d
      then show thesis using push [of u] g t by (cases "pc_of s t") (simp_all add: go_on_def coro_pc_eq)
    next
      case e
      then have "t \<noteq> 0" using w(2) by blast
      then show thesis using stop [of u] g t e by (cases "pc_of s t") (simp_all add: go_on_def coro_pc_eq)
    next
      case f
      then show thesis using work [of i] g t w by (cases "pc_of s t") (simp_all add: go_on_def coro_pc_eq)
    next
      case i
      then show thesis using g t by (simp add: go_on_def coro_pc_eq resume_next_def)
    qed
  next
    case Time_out
    then have "t = 0" "near_time_out s = Some s'" using assms(1) t by (simp_all add: timer_step_def split: if_splits)
    moreover then obtain n where "pc_of s 0 = W_sleep n" using z by (auto simp: near_time_out_def coro_pc_eq split: pc.splits)
    ultimately show thesis using late [of n] z by (simp add: near_time_out_def coro_pc_eq split: if_splits)
  next
    case Wake
    then obtain m where "wake_up t (mon s) = Some m" "s' = s\<lparr>mon := m\<rparr>" using assms t by (auto simp: timer_step_def)
    then show thesis using wake by blast
  next
    case Tick
    show thesis by (rule tick) (use assms t Tick in \<open>simp add: timer_step_def\<close>)
  qed
qed

lemma coro_agrees:
  assumes "timer_step t l s = Some s'" "worker_ok s"
  shows "length (pcs s') = length (pcs s) \<and> (u \<noteq> t \<longrightarrow> pc_of s' u = pc_of s u)"
  using assms
proof (cases rule: coro_cases)
  case (push v)
  then show ?thesis using coro_length [OF assms(1)] by (cases "pc_of s t") (auto simp: coro_op_defs)
next
  case (stop v)
  then show ?thesis using coro_length [OF assms(1)] by (cases "pc_of s t") (auto simp: coro_op_defs)
next
  case (work i)
  then show ?thesis using coro_length [OF assms(1)]
    by (cases "pc_of s 0") (auto simp: coro_op_defs split: if_splits option.splits)
qed (use coro_length [OF assms(1)] in \<open>auto simp: timer_suspend_def\<close>)

lemma worker_ok_step:
  assumes "timer_step t l s = Some s'" "worker_ok s"
  shows "worker_ok s'"
proof -
  have p: "(worker (pc_of s' t) \<longrightarrow> t = 0) \<and> (t = 0 \<longrightarrow>
    worker (pc_of s' 0) \<or> pushing (pc_of s' 0) \<or> (\<exists>time h. pc_of s' 0 = A_ready time h))"
    using assms
  proof (cases rule: coro_cases)
    case (push v)
    then show ?thesis using coro_length [OF assms(1)] by (cases "pc_of s t") (auto simp: coro_op_defs)
  next
    case (stop v)
    then show ?thesis using coro_length [OF assms(1)] by (cases "pc_of s t") (auto simp: coro_op_defs)
  next
    case (work i)
    then show ?thesis using coro_length [OF assms(1)]
      by (cases "pc_of s 0") (auto simp: coro_op_defs split: if_splits option.splits)
  qed (use coro_length [OF assms(1)] assms(2) in \<open>auto simp: timer_suspend_def worker_ok_def\<close>)
  have a: "length (pcs s') = length (pcs s)" "u \<noteq> t \<Longrightarrow> pc_of s' u = pc_of s u" for u
    using coro_agrees [OF assms] by blast+
  have "worker (pc_of s' u) \<Longrightarrow> u = 0" for u
    using p a(2) [of u] assms(2) by (cases "u = t") (auto simp: worker_ok_def)
  moreover have "worker (pc_of s' 0) \<or> pushing (pc_of s' 0) \<or> (\<exists>time h. pc_of s' 0 = A_ready time h)"
    using p a(2) [of 0] assms(2) by (cases "t = 0") (auto simp: worker_ok_def)
  ultimately show ?thesis using a(1) assms(2) by (auto simp: worker_ok_def)
qed

section \<open>Mutual exclusion\<close>

lemma coro_lock:
  assumes "timer_step t l s = Some s'" "worker_ok s"
  shows "inside (pc_of s' t) \<and> inside (pc_of s t) \<and> holder (mon s') = holder (mon s) \<or>
    inside (pc_of s' t) \<and> \<not> inside (pc_of s t) \<and> holder (mon s) = None \<and> holder (mon s') = Some t \<or>
    \<not> inside (pc_of s' t) \<and> holder (mon s') = (if inside (pc_of s t) then None else holder (mon s))"
  using assms
proof (cases rule: coro_cases)
  case (push v)
  then show ?thesis using coro_length [OF assms(1)] notify_one_SomeD(1) [of v "mon s"]
    by (cases "pc_of s t") (auto simp: coro_op_defs acquire_Some)
next
  case (stop v)
  then show ?thesis using coro_length [OF assms(1)] notify_one_SomeD(1) [of v "mon s"]
    by (cases "pc_of s t") (auto simp: coro_op_defs acquire_Some)
next
  case (work i)
  then show ?thesis using coro_length [OF assms(1)]
    by (cases "pc_of s 0") (auto simp: coro_op_defs acquire_Some split: if_splits option.splits)
next
  case (wake m)
  then show ?thesis using wake_up_SomeD(2) [OF wake(1)] by auto
qed (use coro_length [OF assms(1)] in \<open>auto simp: timer_suspend_def\<close>)

definition timers_start :: "'h timers \<Rightarrow> bool" where
  "timers_start s \<longleftrightarrow> (\<exists>n. s = timers_init n)"

lemma timers_init_pc [simp]: "pc_of (timers_init n) t = (if t = 0 then W_lock else Idle)"
  by (auto simp: pc_of_def timers_init_def nth_Cons split: nat.splits)

interpretation timers_mutex: monitor_discipline timers_start cstep worker_ok mon "\<lambda>s t. inside (pc_of s t)" fst
proof unfold_locales
  fix s :: "'a timers" and t assume "timers_start s"
  then obtain n where s: "s = timers_init n" by (auto simp: timers_start_def)
  show "worker_ok s" by (simp add: s worker_ok_def) (simp add: timers_init_def)
  show "holder (mon s) = None \<and> \<not> inside (pc_of s t)" by (simp add: s) (simp add: timers_init_def)
next
  fix s :: "'a timers" and l s' and u :: nat
  assume st: "cstep s l s'" and w: "worker_ok s"
  note t = st [unfolded cstep_def] w
  show "worker_ok s'" by (rule worker_ok_step [OF t])
  show "u \<noteq> fst l \<Longrightarrow> inside (pc_of s' u) = inside (pc_of s u)" using coro_agrees [OF t] by simp
  show "inside (pc_of s' (fst l)) \<Longrightarrow> inside (pc_of s (fst l)) \<Longrightarrow> holder (mon s') = holder (mon s)"
    using coro_lock [OF t] by auto
  show "inside (pc_of s' (fst l)) \<Longrightarrow> \<not> inside (pc_of s (fst l)) \<Longrightarrow>
      holder (mon s) = None \<and> holder (mon s') = Some (fst l)"
    using coro_lock [OF t] by auto
  show "\<not> inside (pc_of s' (fst l)) \<Longrightarrow>
      holder (mon s') = (if inside (pc_of s (fst l)) then None else holder (mon s))"
    using coro_lock [OF t] by auto
qed

section \<open>Invariant\<close>

fun near :: "'h pc \<Rightarrow> nat option" where
  "near (W_test n) = Some n"
| "near (W_sleep n) = Some n"
| "near (W_relock n) = Some n"
| "near (W_last n) = Some n"
| "near _ = None"

text \<open>While the worker waits for a time, there is a timer; only the worker takes timers out.\<close>

definition top_ok :: "'h timers \<Rightarrow> bool" where
  "top_ok s \<longleftrightarrow> (near (pc_of s 0) \<noteq> None \<longrightarrow> queue s \<noteq> []) \<and> \<not> bad_top s"

definition due_ok :: "'h timers \<Rightarrow> bool" where
  "due_ok s \<longleftrightarrow> (\<forall>n. pc_of s 0 = W_relock n \<or> pc_of s 0 = W_last n \<longrightarrow> n \<le> now s) \<and>
     list_all (\<lambda>r. fst (fst r) \<le> snd r \<and> snd r \<le> now s) (resumed s)"

definition once_ok :: "'h timers \<Rightarrow> bool" where
  "once_ok s \<longleftrightarrow> mset (pushed s) = mset (queue s) + mset (map fst (resumed s))"

definition notifying :: "'h timers \<Rightarrow> bool" where
  "notifying s \<longleftrightarrow> (\<exists>u. pc_of s u = P_notify \<or> pc_of s u = S_notify)"

text \<open>A blocked worker waits for what is in the queue, or somebody is going to notify it.\<close>

definition rightly_blocked :: "'h timers \<Rightarrow> bool" where
  "rightly_blocked s \<longleftrightarrow> \<not> stopped s \<and> (case pc_of s 0 of
     W_blocked \<Rightarrow> queue s = []
   | W_sleep n \<Rightarrow> top_time (queue s) = Some n
   | _ \<Rightarrow> False)"

definition wake_ok :: "'h timers \<Rightarrow> bool" where
  "wake_ok s \<longleftrightarrow> (\<forall>t \<in> blocked (mon s). t = 0 \<and> (pc_of s 0 = W_blocked \<or> (\<exists>n. pc_of s 0 = W_sleep n)) \<and>
     (rightly_blocked s \<or> notifying s))"

definition end_ok :: "'h timers \<Rightarrow> bool" where
  "end_ok s \<longleftrightarrow> (destroyed s \<longrightarrow> pc_of s 0 = W_done) \<and> (pc_of s 0 = W_done \<longrightarrow> stopped s) \<and>
     (\<forall>t. pc_of s t = S_notify \<or> pc_of s t = S_join \<longrightarrow> stopped s)"

lemma top_ok_step:
  assumes st: "timer_step t l s = Some s'" and w: "worker_ok s" and i: "top_ok s"
  shows "top_ok s'"
proof -
  have t: "t < length (pcs s)" using coro_length [OF st] .
  have z: "0 < length (pcs s)" using w by (simp add: worker_ok_def)
  have n: "near (home u) = None" for u :: nat and h :: 'a by (simp add: home_def)
  from st w show ?thesis
  proof (cases rule: coro_cases)
    case (push v)
    then show ?thesis using t i by (cases "pc_of s t") (auto simp: top_ok_def coro_op_defs home_def split: if_splits)
  next
    case (stop v)
    then show ?thesis using t i by (cases "pc_of s t") (auto simp: top_ok_def coro_op_defs)
  next
    case (work j)
    then show ?thesis using z i
      by (cases "pc_of s 0") (auto simp: top_ok_def coro_op_defs split: if_splits option.splits)
  qed (use t i in \<open>auto simp: top_ok_def timer_suspend_def home_def\<close>)
qed

lemma due_ok_step:
  assumes st: "timer_step t l s = Some s'" and w: "worker_ok s" and i: "due_ok s"
  shows "due_ok s'"
proof -
  have t: "t < length (pcs s)" using coro_length [OF st] .
  have z: "0 < length (pcs s)" using w by (simp add: worker_ok_def)
  from st w show ?thesis
  proof (cases rule: coro_cases)
    case (push v)
    then show ?thesis using t i by (cases "pc_of s t") (auto simp: due_ok_def coro_op_defs home_def split: if_splits)
  next
    case (stop v)
    then show ?thesis using t i by (cases "pc_of s t") (auto simp: due_ok_def coro_op_defs)
  next
    case (work j)
    have "fst (queue s ! j) \<le> now s"
      if "pc_of s 0 = W_last n" "top_time (queue s) = Some n" "j < length (queue s)" "is_top (queue s) (queue s ! j)" for n
      using is_top_time [of "queue s ! j" "queue s"] that i by (auto simp: due_ok_def)
    then show ?thesis using work z i
      by (cases "pc_of s 0") (auto simp: due_ok_def coro_op_defs split: if_splits option.splits)
  next
    case tick
    have "list_all (\<lambda>r. fst (fst r) \<le> snd r \<and> snd r \<le> now s + 1) (resumed s)"
      by (rule list.pred_mono_strong [where P = "\<lambda>r. fst (fst r) \<le> snd r \<and> snd r \<le> now s"])
        (use i in \<open>auto simp: due_ok_def\<close>)
    then show ?thesis using tick i by (auto simp: due_ok_def le_Suc_eq)
  qed (use t i in \<open>auto simp: due_ok_def timer_suspend_def home_def\<close>)
qed

lemma once_ok_step:
  assumes st: "timer_step t l s = Some s'" and w: "worker_ok s" and i: "once_ok s"
  shows "once_ok s'"
  using st w
proof (cases rule: coro_cases)
  case (push v)
  then show ?thesis using i by (cases "pc_of s t") (auto simp: once_ok_def coro_op_defs)
next
  case (stop v)
  then show ?thesis using i by (cases "pc_of s t") (auto simp: once_ok_def coro_op_defs)
next
  case (work j)
  then show ?thesis using i
    by (cases "pc_of s 0") (auto simp: once_ok_def coro_op_defs mset_remove_at split: if_splits option.splits)
qed (use i in \<open>auto simp: once_ok_def timer_suspend_def\<close>)

lemma end_ok_step:
  assumes st: "timer_step t l s = Some s'" and w: "worker_ok s" and i: "end_ok s"
  shows "end_ok s'"
proof -
  have t: "t < length (pcs s)" using coro_length [OF st] .
  have z: "0 < length (pcs s)" using w by (simp add: worker_ok_def)
  from st w show ?thesis
  proof (cases rule: coro_cases)
    case (push v)
    then show ?thesis using t i
      by (cases "pc_of s t"; cases "t = 0") (auto simp: end_ok_def coro_op_defs home_def split: if_splits)
  next
    case (stop v)
    then show ?thesis using t i by (cases "pc_of s t") (auto simp: end_ok_def coro_op_defs split: if_splits)
  next
    case (work j)
    then show ?thesis using z i
      by (cases "pc_of s 0") (auto simp: end_ok_def coro_op_defs split: if_splits option.splits)
  qed (use t i in \<open>auto simp: end_ok_def timer_suspend_def home_def split: if_splits\<close>)
qed

lemma wake_ok_step:
  assumes st: "timer_step t l s = Some s'" and w: "worker_ok s" and i: "wake_ok s"
  shows "wake_ok s'"
proof -
  have t: "t < length (pcs s)" using coro_length [OF st] .
  have z: "0 < length (pcs s)" using w by (simp add: worker_ok_def)
  have ag: "pc_of s' u = pc_of s u" if "u \<noteq> t" for u using coro_agrees [OF st w] that by blast
  have one: "blocked (mon s) \<subseteq> {0}" using i by (auto simp: wake_ok_def)
  have none: "blocked (mon s) = {}" if "pc_of s 0 \<noteq> W_blocked" "\<And>n. pc_of s 0 \<noteq> W_sleep n"
    using i that by (auto simp: wake_ok_def)
  have stays: ?thesis
    if "blocked (mon s') \<subseteq> blocked (mon s)" "queue s' = queue s" "stopped s' = stopped s"
      "pc_of s t \<noteq> P_notify" "pc_of s t \<noteq> S_notify" "t = 0 \<Longrightarrow> blocked (mon s') = {}"
  proof (cases "t = 0")
    case False
    then have "pc_of s' 0 = pc_of s 0" by (simp add: ag)
    moreover have "notifying s \<Longrightarrow> notifying s'" using that(4,5) ag by (auto simp: notifying_def) metis+
    ultimately show ?thesis using that i by (auto simp: wake_ok_def rightly_blocked_def split: pc.splits)
  qed (use that in \<open>simp add: wake_ok_def\<close>)
  have empty: ?thesis if "blocked (mon s') = {}" using that by (simp add: wake_ok_def)
  have told: ?thesis if "blocked (mon s') = blocked (mon s)" "notifying s'" "t = 0 \<Longrightarrow> blocked (mon s) = {}"
    using that i ag [of 0] by (cases "t = 0") (auto simp: wake_ok_def)
  have woken: "blocked m = {}" if "notify_one v (mon s) = Some m" for v m
    using notify_one_SomeD [OF that] one by (cases v) auto
  from st w show ?thesis
  proof (cases rule: coro_cases)
    case (push v)
    show ?thesis
    proof (cases "pc_of s t")
      case (P_insert k h)
      then show ?thesis using push t none by (intro told) (auto simp: coro_op_defs notifying_def)
    next
      case P_notify
      then show ?thesis using push t woken by (intro empty) (auto simp: coro_op_defs)
    next
      case (P_lock k h)
      then show ?thesis using push t none by (intro stays) (auto simp: coro_op_defs acquire_Some)
    qed (use push in auto)
  next
    case (stop v)
    show ?thesis
    proof (cases "pc_of s t")
      case S_lock
      then show ?thesis using stop t by (intro stays) (auto simp: coro_op_defs acquire_Some)
    next
      case S_set
      then show ?thesis using stop t by (intro told) (auto simp: coro_op_defs notifying_def)
    next
      case S_notify
      then show ?thesis using stop t woken by (intro empty) (auto simp: coro_op_defs)
    qed (use stop in auto)
  next
    case (work j)
    show ?thesis
    proof (cases "\<exists>n. pc_of s' 0 = W_sleep n \<or> pc_of s' 0 = W_blocked")
      case True
      then show ?thesis using work z none
        by (cases "pc_of s 0") (auto simp: wake_ok_def rightly_blocked_def coro_op_defs acquire_Some split: if_splits option.splits)
    next
      case False
      then have "blocked (mon s') = {}" using work z none one
        by (cases "pc_of s 0") (auto simp: coro_op_defs acquire_Some split: if_splits option.splits)
      then show ?thesis by (rule empty)
    qed
  next
    case (late n)
    then show ?thesis using one by (intro empty) auto
  next
    case (wake m)
    then have "blocked m = {}" using wake_up_SomeD [OF wake(1)] one by auto
    then show ?thesis using wake by (intro empty) simp
  next
    case tick
    then have "rightly_blocked s' = rightly_blocked s" by (cases "pc_of s 0") (simp_all add: rightly_blocked_def)
    then show ?thesis using tick i by (simp add: wake_ok_def notifying_def)
  next
    case (ready k h)
    then show ?thesis using t none by (intro stays) (auto simp: timer_suspend_def)
  next
    case (await k h)
    then show ?thesis using t none by (intro stays) (auto simp: home_def split: if_splits)
  next
    case destroy
    then show ?thesis using t none by (intro stays) simp_all
  next
    case joined
    then show ?thesis using t none by (intro stays) simp_all
  next
    case looped
    then show ?thesis using t none by (intro stays) simp_all
  qed
qed

definition timers_inv :: "'h timers \<Rightarrow> bool" where
  "timers_inv s \<longleftrightarrow> worker_ok s \<and> top_ok s \<and> due_ok s \<and> once_ok s \<and> wake_ok s \<and> end_ok s"

interpretation coro_timers: invariant_system timers_start cstep timers_inv
proof unfold_locales
  fix s :: "'a timers" assume "timers_start s"
  then obtain n where s: "s = timers_init n" by (auto simp: timers_start_def)
  show "timers_inv s"
    by (simp add: s timers_inv_def worker_ok_def top_ok_def due_ok_def once_ok_def wake_ok_def end_ok_def)
      (simp add: timers_init_def)
next
  fix s :: "'a timers" and l s'
  assume i: "timers_inv s" and st: "cstep s l s'"
  have w: "worker_ok s" using i by (simp add: timers_inv_def)
  note st = st [unfolded cstep_def] w
  show "timers_inv s'"
    using i worker_ok_step [OF st] top_ok_step [OF st] due_ok_step [OF st] once_ok_step [OF st] wake_ok_step [OF st]
      end_ok_step [OF st] by (simp add: timers_inv_def)
qed

section \<open>What the executor promises\<close>

lemma timers_reach:
  assumes "run cstep (timers_init n) ls s"
  shows "timers_inv s" "timers_mutex.exclusive s"
  using coro_timers.run_inv [OF _ assms] timers_mutex.run_exclusive [OF assms] by (auto simp: timers_start_def)

text \<open>
  No coroutine is resumed before its time, and none more often than it was pushed; what was not
  resumed is in the queue; \<open>top()\<close> is not called on an empty queue.
\<close>

lemma timers_resume_in_time:
  assumes "run cstep (timers_init n) ls s"
  shows "(\<forall>r \<in> set (resumed s). fst (fst r) \<le> snd r) \<and>
    mset (pushed s) = mset (queue s) + mset (map fst (resumed s)) \<and> \<not> bad_top s"
  using timers_reach(1) [OF assms]
  by (simp add: timers_inv_def due_ok_def once_ok_def top_ok_def list_all_iff)

text \<open>A coroutine that is resumed is due no later than those that stay in the queue.\<close>

lemma timers_resume_order:
  assumes "run cstep (timers_init n) ls s" "cstep s l s'" "resumed s' = resumed s @ [r]" "x \<in> set (queue s')"
  shows "fst (fst r) \<le> fst x"
proof -
  have w: "worker_ok s" using timers_reach(1) [OF assms(1)] by (simp add: timers_inv_def)
  have st: "timer_step (fst l) (snd l) s = Some s'" using assms(2) by (simp add: cstep_def)
  from st w show ?thesis
  proof (cases rule: coro_cases)
    case (work j)
    then have "fst r = queue s ! j \<and> is_top (queue s) (fst r) \<and> queue s' = remove_at j (queue s)"
      using assms(3) by (cases "pc_of s 0") (auto simp: coro_op_defs split: if_splits option.splits)
    moreover have "set (remove_at j (queue s)) \<subseteq> set (queue s)"
      by (auto simp: remove_at_def dest: in_set_takeD in_set_dropD)
    ultimately show ?thesis using assms(4) by (auto simp: is_top_def timer_less_def list_all_iff not_less)
  next
    case (push v)
    then show ?thesis using assms(3) by (cases "pc_of s (fst l)") (auto simp: coro_op_defs)
  next
    case (stop v)
    then show ?thesis using assms(3) by (cases "pc_of s (fst l)") (auto simp: coro_op_defs)
  qed (use assms(3) in \<open>auto simp: timer_suspend_def split: if_splits\<close>)
qed

text \<open>After the destructor, the worker has ended: it does not touch the queue any more.\<close>

lemma timers_dtor_joins:
  assumes "run cstep (timers_init n) ls s" "destroyed s"
  shows "pc_of s 0 = W_done \<and> stopped s"
  using timers_reach(1) [OF assms(1)] assms(2) by (simp add: timers_inv_def end_ok_def)

section \<open>Nobody is forgotten\<close>

text \<open>The steps of calls that are in progress.\<close>

definition coro_own_step :: "'h timers \<Rightarrow> nat \<times> 'h label \<Rightarrow> 'h timers \<Rightarrow> bool" where
  "coro_own_step s l s' \<longleftrightarrow> cstep s l s' \<and> (case snd l of Step _ _ \<Rightarrow> True | Time_out \<Rightarrow> True | _ \<Rightarrow> False)"

lemma coro_go:
  assumes "go_on v u i s \<noteq> None" "v < length (pcs s)"
  shows "\<exists>l s'. coro_own_step s l s'"
proof -
  obtain s' where "go_on v u i s = Some s'" using assms(1) by auto
  then have "coro_own_step s (v, Step u i) s'" using assms(2) by (simp add: coro_own_step_def cstep_def timer_step_def)
  then show ?thesis by blast
qed

lemma inside_goes:
  assumes i: "timers_inv s" and v: "inside (pc_of s v)"
  shows "\<exists>l s'. coro_own_step s l s'"
proof -
  have l: "v < length (pcs s)" using v by (auto simp: pc_of_def split: if_splits)
  have z: "v = 0" if "worker (pc_of s v)" using i that by (simp add: timers_inv_def worker_ok_def)
  obtain k where "queue s = [] \<or> k < length (queue s) \<and> is_top (queue s) (queue s ! k)"
    using top_exists [of "queue s"] by blast
  then have k: "k < length (queue s) \<and> is_top (queue s) (queue s ! k)" if "top_time (queue s) = Some n" for n
    using that by (auto simp: top_time_def)
  have "go_on v None k s \<noteq> None"
    using v l z k by (cases "pc_of s v") (auto simp: go_on_def coro_pc_eq coro_op_defs split: option.splits)
  then show ?thesis using coro_go l by blast
qed

lemma outside_goes:
  assumes i: "timers_inv s" and h: "holder (mon s) = None" and v: "\<not> inside (pc_of s v)"
    "pc_of s v \<notin> {Idle, S_join, W_done}" "v = 0 \<Longrightarrow> 0 \<notin> blocked (mon s)"
  shows "\<exists>l s'. coro_own_step s l s'"
proof -
  have l: "v < length (pcs s)" using v(2) by (auto simp: pc_of_def split: if_splits)
  have z: "v = 0" if "worker (pc_of s v)" using i that by (simp add: timers_inv_def worker_ok_def)
  obtain u m where u: "notify_one u (mon s) = Some m" using notify_one_possible by blast
  have "go_on v u 0 s \<noteq> None"
    using v l z h u by (cases "pc_of s v") (auto simp: go_on_def coro_pc_eq coro_op_defs acquire_def reacquire_def)
  then show ?thesis using coro_go l by blast
qed

text \<open>
  A call that is in progress can go on, or another one can, except that the worker waits rightly:
  the executor is not stopped, and there is no timer, or the nearest one is in the future.
\<close>

definition rightly_waits :: "'h timers \<Rightarrow> bool" where
  "rightly_waits s \<longleftrightarrow> rightly_blocked s \<and> (\<forall>n. pc_of s 0 = W_sleep n \<longrightarrow> now s < n)"

lemma worker_goes:
  assumes i: "timers_inv s" and x: "timers_mutex.exclusive s" and p: "pc_of s 0 \<noteq> W_done"
    and w: "\<not> (0 \<in> blocked (mon s) \<and> rightly_waits s)"
  shows "\<exists>l s'. coro_own_step s l s'"
proof (cases "\<exists>v. inside (pc_of s v)")
  case True
  then show ?thesis using inside_goes [OF i] by blast
next
  case False
  then have h: "holder (mon s) = None" using x by (cases "holder (mon s)") (auto simp: timers_mutex.exclusive_def)
  have z: "0 < length (pcs s)" using i by (simp add: timers_inv_def worker_ok_def)
  consider (free) "0 \<notin> blocked (mon s)" | (told) "notifying s"
    | (late) n where "pc_of s 0 = W_sleep n" "n \<le> now s"
    using i w by (auto simp: timers_inv_def wake_ok_def rightly_waits_def not_less)
  then show ?thesis
  proof cases
    case free
    have "pc_of s 0 \<notin> {Idle, S_join, W_done}" using i p by (auto simp: timers_inv_def worker_ok_def)
    then show ?thesis using outside_goes [OF i h, of 0] False free by blast
  next
    case told
    then obtain v where v: "pc_of s v = P_notify \<or> pc_of s v = S_notify" by (auto simp: notifying_def)
    then have "v = 0 \<Longrightarrow> 0 \<notin> blocked (mon s)" using i by (auto simp: timers_inv_def wake_ok_def)
    then show ?thesis using outside_goes [OF i h, of v] v by auto
  next
    case (late n)
    then have "coro_own_step s (0, Time_out) (the (near_time_out s))"
      using z by (simp add: coro_own_step_def cstep_def timer_step_def near_time_out_def coro_pc_eq)
    then show ?thesis by blast
  qed
qed

lemma timers_not_stuck:
  assumes r: "run cstep (timers_init n) ls s" and t: "pc_of s t \<notin> {Idle, W_run, W_done}"
    and w: "\<not> (0 \<in> blocked (mon s) \<and> rightly_waits s \<and> t = 0)"
  shows "\<exists>l s'. coro_own_step s l s'"
proof (cases "0 \<in> blocked (mon s) \<and> rightly_waits s")
  case False
  note i = timers_reach [OF r]
  show ?thesis
  proof (cases "pc_of s 0 = W_done")
    case False
    then show ?thesis using worker_goes [OF i] \<open>\<not> (0 \<in> blocked (mon s) \<and> rightly_waits s)\<close> by blast
  next
    case ended: True
    show ?thesis
    proof (cases "pc_of s t = S_join")
      case True
      then have l: "t < length (pcs s)" "0 < length (pcs s)" using t by (auto simp: pc_of_def split: if_splits)
      then have "go_on t None 0 s \<noteq> None" using True ended by (simp add: go_on_def coro_pc_eq dtor_join_def)
      then show ?thesis using coro_go l by blast
    next
      case False
      have "t \<noteq> 0" using t ended by (cases "t = 0") auto
      then show ?thesis using inside_goes [OF i(1)] outside_goes [OF i(1), of t] t False i(2)
        by (cases "holder (mon s)") (auto simp: timers_mutex.exclusive_def)
    qed
  qed
next
  case True
  note i = timers_reach [OF r]
  have "t \<noteq> 0" using w True by simp
  moreover have "pc_of s t \<noteq> S_join"
    using i(1) True by (auto simp: timers_inv_def end_ok_def rightly_waits_def rightly_blocked_def)
  ultimately show ?thesis using inside_goes [OF i(1)] outside_goes [OF i(1), of t] t i(2)
    by (cases "holder (mon s)") (auto simp: timers_mutex.exclusive_def)
qed

text \<open>
  An example: thread 1 waits for 3 units, thread 2 for 1 while the worker sleeps; the worker
  resumes the coroutine of thread 2 first, and then thread 1 destroys the executor.
\<close>

definition coro_labels :: "(nat \<times> nat label) list" where
  "coro_labels = [(1, Co_await 3 10), (1, Step None 0), (1, Step None 0), (1, Step None 0), (1, Step None 0),
     (0, Step None 0), (0, Step None 0), (0, Step None 0),
     (2, Co_await 1 20), (2, Step None 0), (2, Step None 0), (2, Step None 0), (2, Step (Some 0) 0),
     (0, Step None 0), (0, Step None 0), (0, Step None 0), (2, Tick), (0, Time_out), (0, Step None 0), (0, Step None 0),
     (1, Destroy), (1, Step None 0), (1, Step None 0), (1, Step None 0),
     (0, Step None 0), (0, Step None 0), (0, Step None 0), (1, Step None 0)]"

lemma coro_example:
  "map_option (\<lambda>s. (resumed s, queue s, destroyed s)) (timer_steps coro_labels (timers_init 2)) =
    Some ([((1, 20), 1)], [(3, 10)], True)"
  by code_simp

end
