(* ===== verification/Future_Watcher.thy ===== *)
theory Future_Watcher
  imports Prelude
begin

text \<open>
  \<open>PCFutureWatcher\<close> of \<open>examples/qt\<close>: an object that tells its owner when a future is ready.
  The continuation that it attaches may run in any thread and at any time, also after
  the watcher was given another future or was destroyed, so the two share a \<open>SafeRef\<close>, a
  pointer to the watcher that the watcher clears with a mutex taken.

  The theory proves that the signal \<open>finished\<close> is posted only to a watcher that is alive, and only
  for the future that it was given last.
\<close>

section \<open>State\<close>

text \<open>What the watcher does after \<open>detachCurrRef\<close>: \<open>createNewRef\<close>, or the end of the destructor.\<close>

datatype after =
    New_ref
  | End_watcher

text \<open>
  Where a thread is: in \<open>notify\<close> (before the mutex, before the test of \<open>ref.ref\<close>, before
  \<open>invokeMethod\<close>, before the end of the scope), or in \<open>detachCurrRef\<close> (before the mutex, with it).
\<close>

datatype pc =
    Idle
  | N_lock nat
  | N_check nat
  | N_post nat
  | N_unlock nat
  | D_lock nat after
  | D_clear nat after

text \<open>
  The \<open>SafeRef\<close>s by number: \<open>refs\<close> says whether \<open>ref\<close> is the watcher or null, \<open>locks\<close> who has the
  mutex. \<open>conts\<close> are the continuations that were not called. \<open>signals\<close> are the calls of
  \<open>invokeMethod\<close>: the \<open>SafeRef\<close>, if the watcher was alive, and its current reference.
\<close>

record watcher =
  refs :: "bool list"
  locks :: "nat option list"
  cur_ref :: "nat option"
  alive :: bool
  conts :: "nat list"
  pcs :: "pc list"
  signals :: "(nat \<times> bool \<times> nat option) list"

definition watcher_init :: "nat \<Rightarrow> watcher" where
  "watcher_init n = \<lparr>refs = [], locks = [], cur_ref = None, alive = True, conts = [], pcs = replicate n Idle, signals = []\<rparr>"

definition goto :: "nat \<Rightarrow> pc \<Rightarrow> watcher \<Rightarrow> watcher" where
  "goto t p s = s\<lparr>pcs := (pcs s)[t := p]\<rparr>"

definition set_lock :: "nat \<Rightarrow> nat option \<Rightarrow> watcher \<Rightarrow> watcher" where
  "set_lock r h s = s\<lparr>locks := (locks s)[r := h]\<rparr>"

definition take_lock :: "nat \<Rightarrow> nat \<Rightarrow> pc \<Rightarrow> watcher \<Rightarrow> watcher option" where
  "take_lock t r p s = (if locks s ! r = None then Some (goto t p (set_lock r (Some t) s)) else None)"

section \<open>Operations\<close>

definition notify_ref :: "pc \<Rightarrow> nat \<Rightarrow> watcher \<Rightarrow> watcher option" where
  "notify_ref p t s = (case p of
     N_lock r \<Rightarrow> take_lock t r (N_check r) s
   | N_check r \<Rightarrow> Some (if refs s ! r then goto t (N_post r) s else goto t (N_unlock r) s)
   | N_post r \<Rightarrow> Some (goto t (N_unlock r) (s\<lparr>signals := signals s @ [(r, alive s, cur_ref s)]\<rparr>))
   | N_unlock r \<Rightarrow> Some (goto t Idle (set_lock r None s))
   | _ \<Rightarrow> None)"

text \<open>The last line of \<open>createNewRef\<close>, and the continuation of \<open>setFuture\<close> with a copy of the reference.\<close>

definition create_ref :: "watcher \<Rightarrow> watcher" where
  "create_ref s = s\<lparr>refs := refs s @ [True], locks := locks s @ [None], cur_ref := Some (length (refs s)),
     conts := conts s @ [length (refs s)]\<rparr>"

definition continue_with :: "after \<Rightarrow> watcher \<Rightarrow> watcher" where
  "continue_with a s = (case a of New_ref \<Rightarrow> create_ref s | End_watcher \<Rightarrow> s\<lparr>alive := False\<rparr>)"

definition detach_ref :: "pc \<Rightarrow> nat \<Rightarrow> watcher \<Rightarrow> watcher option" where
  "detach_ref p t s = (case p of
     D_lock r a \<Rightarrow> take_lock t r (D_clear r a) s
   | D_clear r a \<Rightarrow> Some (goto t Idle (continue_with a ((set_lock r None s)\<lparr>refs := (refs s)[r := False], cur_ref := None\<rparr>)))
   | _ \<Rightarrow> None)"

text \<open>The beginning of \<open>detachCurrRef\<close>.\<close>

definition begin_detach :: "nat \<Rightarrow> after \<Rightarrow> watcher \<Rightarrow> watcher" where
  "begin_detach t a s = (case cur_ref s of None \<Rightarrow> continue_with a s | Some r \<Rightarrow> goto t (D_lock r a) s)"

definition set_future :: "nat \<Rightarrow> watcher \<Rightarrow> watcher" where
  "set_future t s = begin_detach t New_ref s"

definition watcher_dtor :: "nat \<Rightarrow> watcher \<Rightarrow> watcher" where
  "watcher_dtor t s = begin_detach t End_watcher s"

section \<open>Steps\<close>

text \<open>
  Thread 0 has the watcher; a future calls its continuation in any thread, or destroys it.
\<close>

datatype label =
    Set_future
  | Destroy
  | Call_cont nat
  | Drop_cont nat
  | Step

definition watcher_step :: "nat \<Rightarrow> label \<Rightarrow> watcher \<Rightarrow> watcher option" where
  "watcher_step t l s = (if \<not> t < length (pcs s) then None else
     if l = Step then (case pcs s ! t of
         D_lock r a \<Rightarrow> detach_ref (D_lock r a) t s
       | D_clear r a \<Rightarrow> detach_ref (D_clear r a) t s
       | p \<Rightarrow> notify_ref p t s)
     else if pcs s ! t \<noteq> Idle then None else case l of
       Set_future \<Rightarrow> if t = 0 \<and> alive s then Some (set_future t s) else None
     | Destroy \<Rightarrow> if t = 0 \<and> alive s then Some (watcher_dtor t s) else None
     | Call_cont k \<Rightarrow> if k < length (conts s)
         then Some (goto t (N_lock (conts s ! k)) (s\<lparr>conts := take k (conts s) @ drop (Suc k) (conts s)\<rparr>)) else None
     | Drop_cont k \<Rightarrow> Some (s\<lparr>conts := take k (conts s) @ drop (Suc k) (conts s)\<rparr>)
     | Step \<Rightarrow> None)"

definition wstep :: "watcher \<Rightarrow> nat \<times> label \<Rightarrow> watcher \<Rightarrow> bool" where
  "wstep s l s' \<longleftrightarrow> watcher_step (fst l) (snd l) s = Some s'"

fun watcher_steps :: "(nat \<times> label) list \<Rightarrow> watcher \<Rightarrow> watcher option" where
  "watcher_steps [] s = Some s"
| "watcher_steps (l # ls) s = (case watcher_step (fst l) (snd l) s of None \<Rightarrow> None | Some s' \<Rightarrow> watcher_steps ls s')"

section \<open>Invariant\<close>

definition pc_of :: "watcher \<Rightarrow> nat \<Rightarrow> pc" where
  "pc_of s t = (if t < length (pcs s) then pcs s ! t else Idle)"

lemma watcher_pc_of_goto [simp]: "t < length (pcs s) \<Longrightarrow> pc_of (goto t p s) u = (if u = t then p else pc_of s u)"
  by (simp add: pc_of_def goto_def nth_list_update)

lemma watcher_goto_simps [simp]:
  "refs (goto t p s) = refs s" "locks (goto t p s) = locks s" "cur_ref (goto t p s) = cur_ref s" "alive (goto t p s) = alive s"
  "conts (goto t p s) = conts s" "signals (goto t p s) = signals s" "length (pcs (goto t p s)) = length (pcs s)"
  by (simp_all add: goto_def)

lemma watcher_pc_of_update [simp]:
  "pc_of (s\<lparr>refs := a\<rparr>) = pc_of s" "pc_of (s\<lparr>locks := b\<rparr>) = pc_of s" "pc_of (s\<lparr>cur_ref := c\<rparr>) = pc_of s"
  "pc_of (s\<lparr>alive := d\<rparr>) = pc_of s" "pc_of (s\<lparr>conts := e\<rparr>) = pc_of s" "pc_of (s\<lparr>signals := f\<rparr>) = pc_of s"
  by (simp_all add: pc_of_def fun_eq_iff)

lemma watcher_pc_eq: "t < length (pcs s) \<Longrightarrow> pcs s ! t = pc_of s t"
  by (simp add: pc_of_def)

text \<open>The reference whose mutex a thread has, and the one that it works with.\<close>

fun has_lock :: "pc \<Rightarrow> nat option" where
  "has_lock (N_check r) = Some r"
| "has_lock (N_post r) = Some r"
| "has_lock (N_unlock r) = Some r"
| "has_lock (D_clear r _) = Some r"
| "has_lock _ = None"

fun uses_ref :: "pc \<Rightarrow> nat option" where
  "uses_ref Idle = None"
| "uses_ref (N_lock r) = Some r"
| "uses_ref (N_check r) = Some r"
| "uses_ref (N_post r) = Some r"
| "uses_ref (N_unlock r) = Some r"
| "uses_ref (D_lock r _) = Some r"
| "uses_ref (D_clear r _) = Some r"

fun detaching :: "pc \<Rightarrow> bool" where
  "detaching (D_lock _ _) = True"
| "detaching (D_clear _ _) = True"
| "detaching _ = False"

definition ref_ok :: "watcher \<Rightarrow> nat \<Rightarrow> pc \<Rightarrow> bool" where
  "ref_ok s t p \<longleftrightarrow> (\<forall>r. uses_ref p = Some r \<longrightarrow> r < length (refs s)) \<and>
     (\<forall>r. has_lock p = Some r \<longrightarrow> locks s ! r = Some t) \<and>
     (\<forall>r. p = N_post r \<longrightarrow> refs s ! r) \<and>
     (detaching p \<longrightarrow> t = 0 \<and> alive s \<and> cur_ref s = uses_ref p)"

definition refs_ok :: "watcher \<Rightarrow> bool" where
  "refs_ok s \<longleftrightarrow> length (locks s) = length (refs s) \<and>
     (\<forall>r < length (refs s). refs s ! r \<longrightarrow> cur_ref s = Some r \<and> alive s) \<and>
     pred_option (\<lambda>r. r < length (refs s)) (cur_ref s) \<and>
     list_all (\<lambda>r. r < length (refs s)) (conts s) \<and>
     list_all (\<lambda>(r, a, c). a \<and> c = Some r) (signals s)"

definition watcher_inv :: "watcher \<Rightarrow> bool" where
  "watcher_inv s \<longleftrightarrow> refs_ok s \<and> (\<forall>t. ref_ok s t (pc_of s t))"

lemmas watcher_op_defs = notify_ref_def detach_ref_def take_lock_def set_lock_def

lemma watcher_inv_init: "watcher_inv (watcher_init n)"
  by (simp add: watcher_inv_def refs_ok_def watcher_init_def pc_of_def ref_ok_def)

lemma watcher_cases:
  assumes "watcher_step t l s = Some s'"
  obtains (start) a where "t = 0" "alive s" "pc_of s t = Idle" "s' = begin_detach t a s"
    | (called) k where "pc_of s t = Idle" "k < length (conts s)"
        "s' = goto t (N_lock (conts s ! k)) (s\<lparr>conts := take k (conts s) @ drop (Suc k) (conts s)\<rparr>)"
    | (dropped) k where "s' = s\<lparr>conts := take k (conts s) @ drop (Suc k) (conts s)\<rparr>"
    | (lock) r p where "pc_of s t = N_lock r \<and> p = N_check r \<or> (\<exists>a. pc_of s t = D_lock r a \<and> p = D_clear r a)"
        "locks s ! r = None" "s' = goto t p (set_lock r (Some t) s)"
    | (check) r where "pc_of s t = N_check r" "s' = (if refs s ! r then goto t (N_post r) s else goto t (N_unlock r) s)"
    | (post) r where "pc_of s t = N_post r" "s' = goto t (N_unlock r) (s\<lparr>signals := signals s @ [(r, alive s, cur_ref s)]\<rparr>)"
    | (unlock) r where "pc_of s t = N_unlock r" "s' = goto t Idle (set_lock r None s)"
    | (clear) r a where "pc_of s t = D_clear r a"
        "s' = goto t Idle (continue_with a ((set_lock r None s)\<lparr>refs := (refs s)[r := False], cur_ref := None\<rparr>))"
proof -
  have t: "t < length (pcs s)" using assms by (simp add: watcher_step_def split: if_splits)
  note a = assms [unfolded watcher_step_def] and d = watcher_pc_eq [OF t]
  show thesis
  proof (cases l)
    case Set_future
    then show thesis using a t d start [of New_ref] by (simp add: set_future_def split: if_splits)
  next
    case Destroy
    then show thesis using a t d start [of End_watcher] by (simp add: watcher_dtor_def split: if_splits)
  next
    case (Call_cont k)
    then show thesis using a t d called [of k] by (simp split: if_splits)
  next
    case (Drop_cont k)
    then show thesis using a t d dropped [of k] by (simp split: if_splits)
  next
    case Step
    show thesis
    proof (cases "pc_of s t")
      case (N_lock r)
      then show thesis using a t d Step lock [of r "N_check r"] by (simp add: watcher_op_defs split: if_splits)
    next
      case (D_lock r b)
      then show thesis using a t d Step lock [of r "D_clear r b"] by (simp add: watcher_op_defs split: if_splits)
    next
      case (N_check r)
      then show thesis using a t d Step check [of r] by (simp add: watcher_op_defs)
    next
      case (N_post r)
      then show thesis using a t d Step post [of r] by (simp add: watcher_op_defs)
    next
      case (N_unlock r)
      then show thesis using a t d Step unlock [of r] by (simp add: watcher_op_defs)
    next
      case (D_clear r b)
      then show thesis using a t d Step clear [of r b] by (simp add: watcher_op_defs)
    qed (use a t d Step in \<open>simp add: watcher_op_defs\<close>)
  qed
qed

text \<open>Only the moving thread's position and what it is allowed to touch change.\<close>

lemma ref_ok_other:
  assumes "ref_ok s u p" "length (refs s) \<le> length (refs s')"
    "\<And>r. has_lock p = Some r \<Longrightarrow> locks s' ! r = locks s ! r"
    "\<And>r. p = N_post r \<Longrightarrow> refs s' ! r = refs s ! r"
    "detaching p \<Longrightarrow> alive s' = alive s \<and> cur_ref s' = cur_ref s"
  shows "ref_ok s' u p"
proof -
  have "r < length (refs s')" if "uses_ref p = Some r" for r
    using assms(1,2) that less_le_trans by (auto simp: ref_ok_def)
  then show ?thesis using assms(1,3-5) by (simp add: ref_ok_def)
qed

lemma has_lock_uses: "has_lock p = Some r \<Longrightarrow> uses_ref p = Some r"
  by (cases p) auto

lemma continue_inv:
  assumes l: "length (locks s) = length (refs s)" and c: "cur_ref s = None" and a: "alive s"
    and f: "\<forall>r < length (refs s). \<not> refs s ! r" and k: "list_all (\<lambda>r. r < length (refs s)) (conts s)"
    and p: "\<forall>t. ref_ok s t (pc_of s t) \<and> \<not> detaching (pc_of s t)"
    and g: "list_all (\<lambda>(r, a, c). a \<and> c = Some r) (signals s)"
  shows "watcher_inv (continue_with b s)"
proof (cases b)
  case New_ref
  have b: "r < length (refs s)" if "has_lock (pc_of s t) = Some r \<or> pc_of s t = N_post r" for t r
  proof -
    have "uses_ref (pc_of s t) = Some r" using that has_lock_uses by auto
    then show ?thesis using p by (simp add: ref_ok_def)
  qed
  have "ref_ok (create_ref s) t (pc_of s t)" for t
  proof (rule ref_ok_other [of s])
    show "ref_ok s t (pc_of s t)" using p by blast
    show "length (refs s) \<le> length (refs (create_ref s))" by (simp add: create_ref_def)
    show "locks (create_ref s) ! r = locks s ! r" if "has_lock (pc_of s t) = Some r" for r
      using b [of t r] that l by (simp add: create_ref_def nth_append)
    show "refs (create_ref s) ! r = refs s ! r" if "pc_of s t = N_post r" for r
      using b [of t r] that by (simp add: create_ref_def nth_append)
    show "alive (create_ref s) = alive s \<and> cur_ref (create_ref s) = cur_ref s" if "detaching (pc_of s t)"
      using p that by blast
  qed
  moreover have "list_all (\<lambda>r. r < Suc (length (refs s))) (conts s)" using k by (auto simp: list_all_iff less_Suc_eq)
  moreover have "pc_of (create_ref s) = pc_of s" by (simp add: create_ref_def)
  ultimately show ?thesis using New_ref l a f g
    by (simp add: watcher_inv_def refs_ok_def continue_with_def) (auto simp: create_ref_def nth_append less_Suc_eq)
next
  case End_watcher
  have "ref_ok (s\<lparr>alive := False\<rparr>) t (pc_of s t)" for t
    by (rule ref_ok_other [of s]) (use p in simp_all)
  then show ?thesis using End_watcher l c f k g by (simp add: watcher_inv_def refs_ok_def continue_with_def)
qed

lemma goto_continue: "goto t p (continue_with a s) = continue_with a (goto t p s)"
  by (cases a) (simp_all add: continue_with_def create_ref_def goto_def)

text \<open>Who takes or gives back the mutex of a reference does not disturb another thread.\<close>

lemma ref_ok_set_lock:
  assumes "ref_ok s u p" "has_lock p \<noteq> Some r"
  shows "ref_ok (set_lock r h s) u p"
proof -
  have "v \<noteq> r" if "has_lock p = Some v" for v using assms(2) that by auto
  then show ?thesis by (intro ref_ok_other [OF assms(1)]) (simp_all add: set_lock_def)
qed

lemma set_lock_simps [simp]:
  "refs (set_lock r h s) = refs s" "cur_ref (set_lock r h s) = cur_ref s" "alive (set_lock r h s) = alive s"
  "conts (set_lock r h s) = conts s" "pcs (set_lock r h s) = pcs s" "signals (set_lock r h s) = signals s"
  "length (locks (set_lock r h s)) = length (locks s)" "pc_of (set_lock r h s) = pc_of s"
  "locks (set_lock r h s) = (locks s)[r := h]"
  by (simp_all add: set_lock_def pc_of_def fun_eq_iff)

lemma ref_ok_goto [simp]: "ref_ok (goto t p s) u q = ref_ok s u q"
  by (simp add: ref_ok_def)

lemma refs_ok_simps [simp]: "refs_ok (goto t p s) = refs_ok s" "refs_ok (set_lock r h s) = refs_ok s"
  by (simp_all add: refs_ok_def)

lemma refs_okD:
  assumes "refs_ok s"
  shows "length (locks s) = length (refs s)" "r < length (refs s) \<Longrightarrow> refs s ! r \<Longrightarrow> cur_ref s = Some r \<and> alive s"
    "cur_ref s = Some r \<Longrightarrow> r < length (refs s)" "list_all (\<lambda>r. r < length (refs s)) (conts s)"
    "list_all (\<lambda>(r, a, c). a \<and> c = Some r) (signals s)"
  using assms by (auto simp: refs_ok_def)

lemma list_all_remove: "list_all P xs \<Longrightarrow> list_all P (take k xs @ drop (Suc k) xs)"
  by (auto simp: list_all_iff dest: in_set_takeD in_set_dropD)

lemma refs_ok_remove: "refs_ok s \<Longrightarrow> refs_ok (s\<lparr>conts := take k (conts s) @ drop (Suc k) (conts s)\<rparr>)"
  using list_all_remove [of "\<lambda>r. r < length (refs s)" "conts s" k]
  by (simp add: refs_ok_def del: list_all_append)

lemma watcher_inv_lock:
  assumes i: "watcher_inv s" and t: "t < length (pcs s)" and p: "ref_ok (set_lock r h s) t p"
    and o: "\<And>u. u \<noteq> t \<Longrightarrow> has_lock (pc_of s u) \<noteq> Some r"
  shows "watcher_inv (goto t p (set_lock r h s))"
proof -
  have "ref_ok (set_lock r h s) u (pc_of s u)" if "u \<noteq> t" for u
    using i o [OF that] by (intro ref_ok_set_lock) (auto simp: watcher_inv_def)
  then show ?thesis using i t p by (simp add: watcher_inv_def)
qed

lemma watcher_inv_goto:
  assumes "watcher_inv s" "t < length (pcs s)" "ref_ok s t p"
  shows "watcher_inv (goto t p s)"
  using assms by (simp add: watcher_inv_def)

lemma watcher_inv_step:
  assumes st: "watcher_step t l s = Some s'" and i: "watcher_inv s"
  shows "watcher_inv s'"
proof -
  have t: "t < length (pcs s)" using st by (simp add: watcher_step_def split: if_splits)
  have ok: "ref_ok s u (pc_of s u)" for u using i by (simp add: watcher_inv_def)
  have lk: "locks s ! r = Some u" if "has_lock (pc_of s u) = Some r" for u r using ok [of u] that by (simp add: ref_ok_def)
  have us: "r < length (refs s)" if "uses_ref (pc_of s u) = Some r" for u r using ok [of u] that by (simp add: ref_ok_def)
  have base: "refs_ok s" using i by (simp add: watcher_inv_def)
  note b = refs_okD [OF base]
  from st show ?thesis
  proof (cases rule: watcher_cases)
    case (start a)
    show ?thesis
    proof (cases "cur_ref s")
      case None
      have d: "\<not> detaching (pc_of s u)" for u
        using ok [of u] None by (cases "pc_of s u") (auto simp: ref_ok_def)
      have f: "\<not> refs s ! r" if "r < length (refs s)" for r using b(2) [OF that] None by auto
      have "watcher_inv (continue_with a s)"
        by (rule continue_inv [OF b(1) None start(2)]) (use f ok d b(4,5) in blast)+
      then show ?thesis using start None by (simp add: begin_detach_def)
    next
      case (Some r)
      then have "ref_ok s t (D_lock r a)" using b(3) start by (simp add: ref_ok_def)
      then show ?thesis using start Some watcher_inv_goto [OF i t] by (simp add: begin_detach_def)
    qed
  next
    case (called k)
    let ?s = "s\<lparr>conts := take k (conts s) @ drop (Suc k) (conts s)\<rparr>"
    have r: "ref_ok ?s u q = ref_ok s u q" for u q by (simp add: ref_ok_def)
    have "watcher_inv ?s" using refs_ok_remove [OF base] ok by (simp add: watcher_inv_def r)
    moreover have "ref_ok s t (N_lock (conts s ! k))"
      using b(4) called(2) by (simp add: ref_ok_def list_all_length)
    ultimately show ?thesis using called(3) t watcher_inv_goto [of ?s t] by (simp add: r)
  next
    case (dropped k)
    let ?s = "s\<lparr>conts := take k (conts s) @ drop (Suc k) (conts s)\<rparr>"
    have "ref_ok ?s u q = ref_ok s u q" for u q by (simp add: ref_ok_def)
    then show ?thesis using dropped refs_ok_remove [OF base] ok by (simp add: watcher_inv_def)
  next
    case (lock r p)
    have u: "uses_ref (pc_of s t) = Some r" using lock(1) by auto
    have "ref_ok (set_lock r (Some t) s) t p"
      using lock(1) ok [of t] us [OF u] b(1) by (auto simp: ref_ok_def)
    moreover have "has_lock (pc_of s v) \<noteq> Some r" for v using lk lock(2) by auto
    ultimately show ?thesis using watcher_inv_lock [OF i t] lock(3) by simp
  next
    case (check r)
    have "ref_ok s t (if refs s ! r then N_post r else N_unlock r)"
      using check(1) ok [of t] by (simp add: ref_ok_def)
    then show ?thesis using check(2) watcher_inv_goto [OF i t] by (simp split: if_splits)
  next
    case (post r)
    let ?s = "s\<lparr>signals := signals s @ [(r, alive s, cur_ref s)]\<rparr>"
    have r: "ref_ok ?s u q = ref_ok s u q" for u q by (simp add: ref_ok_def)
    have p: "ref_ok s t (N_unlock r)" "refs s ! r" "r < length (refs s)"
      using post(1) ok [of t] by (simp_all add: ref_ok_def)
    have "refs_ok ?s" using base b(2) [OF p(3,2)] by (simp add: refs_ok_def)
    then have "watcher_inv ?s" using ok by (simp add: watcher_inv_def r)
    then show ?thesis using post(2) t p(1) watcher_inv_goto [of ?s t "N_unlock r"] by (simp add: r)
  next
    case (unlock r)
    have "locks s ! r = Some t" using lk [of t r] unlock by simp
    then have "has_lock (pc_of s v) \<noteq> Some r" if "v \<noteq> t" for v using lk [of v r] that by auto
    moreover have "ref_ok (set_lock r None s) t Idle" by (simp add: ref_ok_def)
    ultimately show ?thesis using watcher_inv_lock [OF i t] unlock(2) by simp
  next
    case (clear r a)
    let ?x = "(set_lock r None s)\<lparr>refs := (refs s)[r := False], cur_ref := None\<rparr>"
    have c: "t = 0" "alive s" "cur_ref s = Some r" using clear(1) ok [of t] by (simp_all add: ref_ok_def)
    have h: "has_lock (pc_of s v) \<noteq> Some r" if "v \<noteq> t" for v using lk [of v r] lk [of t r] clear(1) that by auto
    have d: "\<not> detaching (pc_of s v)" if "v \<noteq> t" for v using ok [of v] that c(1) by (auto simp: ref_ok_def)
    have o: "ref_ok ?x v (pc_of s v)" if "v \<noteq> t" for v
    proof -
      have "w \<noteq> r" if "has_lock (pc_of s v) = Some w" for w using h [OF \<open>v \<noteq> t\<close>] that by auto
      then show ?thesis by (intro ref_ok_other [OF ok]) (use d [OF that] in simp_all)
    qed
    have f: "\<not> (refs s)[r := False] ! v" if "v < length (refs s)" for v
      using b(2) [OF that] c(3) that by (cases "v = r") auto
    let ?y = "goto t Idle ?x"
    have "ref_ok ?y v (pc_of ?y v) \<and> \<not> detaching (pc_of ?y v)" for v
      using o [of v] d [of v] t by (cases "v = t") (simp_all add: ref_ok_def)
    then have y: "\<forall>v. ref_ok ?y v (pc_of ?y v) \<and> \<not> detaching (pc_of ?y v)" by blast
    have "watcher_inv (continue_with a ?y)"
    proof (rule continue_inv)
      show "\<forall>v < length (refs ?y). \<not> refs ?y ! v" using f by simp
      show "length (locks ?y) = length (refs ?y)" using b(1) by simp
      show "cur_ref ?y = None" by simp
      show "alive ?y" using c(2) by simp
      show "list_all (\<lambda>r. r < length (refs ?y)) (conts ?y)" using b(4) by simp
      show "list_all (\<lambda>(r, a, c). a \<and> c = Some r) (signals ?y)" using b(5) by simp
    qed (rule y)
    then show ?thesis using clear(2) by (simp add: goto_continue)
  qed
qed

interpretation watchers: invariant_system "\<lambda>s. \<exists>n. s = watcher_init n" wstep watcher_inv
  by unfold_locales (auto simp: wstep_def watcher_inv_init intro: watcher_inv_step)

section \<open>What the watcher promises\<close>

lemma watcher_signals:
  assumes "run wstep (watcher_init n) ls s"
  shows "\<forall>(r, a, c) \<in> set (signals s). a \<and> c = Some r"
proof -
  have "watcher_inv s" using watchers.run_inv [OF _ assms] by blast
  then show ?thesis by (auto simp: watcher_inv_def refs_ok_def list_all_iff)
qed

text \<open>
  An example: the continuation of the first future is being called by thread 1 when the watcher is
  given another one; its signal is not posted, that of the second is.
\<close>

lemma watcher_example:
  "map_option signals (watcher_steps [(0, Set_future), (1, Call_cont 0), (0, Set_future), (0, Step), (0, Step),
     (1, Step), (1, Step), (1, Step), (2, Call_cont 0), (2, Step), (2, Step), (2, Step), (2, Step), (0, Destroy)]
     (watcher_init 3)) = Some [(1, True, Some 1)]"
  by code_simp

end
